(* ===== verification/Prelude.thy ===== *)
theory Prelude
  imports Main "HOL-Library.Word"
begin

text \<open>
  Shared vocabulary of the development: the machine types of the MIPS kernel, the ways a
  kernel function can fail, the error codes the modelled code returns, and the generic
  lemmas on the error type, on page-aligned words and on lists that the component
  theories use.
\<close>

unbundle bit_operations_syntax

section \<open>Machine types\<close>

type_synonym u8 = "8 word"
type_synonym u16 = "16 word"
type_synonym u32 = "32 word"
type_synonym u64 = "64 word"

text \<open>\<open>kern/arch/mips/include/types.h\<close>: addresses and sizes are 32-bit unsigned integers.\<close>

type_synonym vaddr_t = u32
type_synonym paddr_t = u32
type_synonym size_t = u32

section \<open>Failures\<close>

text \<open>
  A kernel function either returns or stops the machine. \<open>Panic\<close> is a call of
  \<open>panic()\<close>, \<open>Assert\<close> a failed \<open>KASSERT\<close>; \<open>Undefined\<close> is an access the C
  program may not make (a null pointer, an index outside an array). Error codes returned to
  the caller are ordinary values.
\<close>

datatype kerror = Panic string | Assert string | Undefined string

type_synonym 'a res = "kerror + 'a"

definition kbind :: "'a res \<Rightarrow> ('a \<Rightarrow> 'b res) \<Rightarrow> 'b res" where
  "kbind m f = (case m of Inl e \<Rightarrow> Inl e | Inr x \<Rightarrow> f x)"

definition kassert :: "bool \<Rightarrow> string \<Rightarrow> unit res" where
  "kassert b msg = (if b then Inr () else Inl (Assert msg))"

text \<open>Error numbers of \<open>kern/include/kern/errno.h\<close>.\<close>

abbreviation (input) ENOSYS :: int where "ENOSYS \<equiv> 1"
abbreviation (input) ENOMEM :: int where "ENOMEM \<equiv> 3"
abbreviation (input) EFAULT :: int where "EFAULT \<equiv> 6"
abbreviation (input) ENAMETOOLONG :: int where "ENAMETOOLONG \<equiv> 7"
abbreviation (input) EINVAL :: int where "EINVAL \<equiv> 8"
abbreviation (input) ENOEXEC :: int where "ENOEXEC \<equiv> 13"
abbreviation (input) ENOSPC :: int where "ENOSPC \<equiv> 36"

named_theorems kdefs \<open>definitions of the model that proofs unfold\<close>

lemma kbind_Inl [simp]: "kbind (Inl e) f = Inl e"
  by (simp add: kbind_def)

lemma kbind_Inr [simp]: "kbind (Inr x) f = f x"
  by (simp add: kbind_def)

lemma kbind_eq_Inr: "kbind m f = Inr y \<longleftrightarrow> (\<exists>x. m = Inr x \<and> f x = Inr y)"
  by (cases m) auto

lemma kbind_InrE [elim!]:
  assumes "kbind m f = Inr y"
  obtains x where "m = Inr x" "f x = Inr y"
  using assms by (auto simp: kbind_eq_Inr)

lemma kassert_True [simp]: "kassert True msg = Inr ()"
  by (simp add: kassert_def)

lemma kassert_eq_Inr [simp]: "kassert b msg = Inr u \<longleftrightarrow> b"
  by (simp add: kassert_def)

lemma kassert_If: "kbind (kassert b msg) f = (if b then f () else Inl (Assert msg))"
  by (simp add: kassert_def)

section \<open>Pages\<close>

text \<open>\<open>kern/arch/mips/include/vm.h\<close>: 4096-byte pages; user space ends where kseg0 starts.\<close>

abbreviation (input) PAGE_SIZE :: nat where "PAGE_SIZE \<equiv> 4096"
abbreviation (input) PAGE_FRAME :: u32 where "PAGE_FRAME \<equiv> 0xfffff000"
abbreviation (input) MIPS_KSEG0 :: u32 where "MIPS_KSEG0 \<equiv> 0x80000000"
abbreviation (input) USERSPACETOP :: u32 where "USERSPACETOP \<equiv> MIPS_KSEG0"
abbreviation (input) USERSTACK :: u32 where "USERSTACK \<equiv> USERSPACETOP"

definition PADDR_TO_KVADDR :: "paddr_t \<Rightarrow> vaddr_t" where
  "PADDR_TO_KVADDR paddr = paddr + MIPS_KSEG0"

definition page_aligned :: "u32 \<Rightarrow> bool" where
  "page_aligned v \<longleftrightarrow> v AND PAGE_FRAME = v"

text \<open>The byte address of a frame, and the frame of a byte address.\<close>

definition frame_addr :: "nat \<Rightarrow> paddr_t" where
  "frame_addr i = of_nat (i * PAGE_SIZE)"

definition addr_frame :: "paddr_t \<Rightarrow> nat" where
  "addr_frame a = unat a div PAGE_SIZE"

lemma unat_and_PAGE_FRAME: "unat (v AND PAGE_FRAME) = unat v div PAGE_SIZE * PAGE_SIZE"
proof -
  have c: "(0xfffff000 :: int) = mask 32 AND NOT (mask 12)"
    by (simp add: mask_eq_exp_minus_1)
  have "uint (v AND PAGE_FRAME) = uint v AND 0xfffff000"
    by (simp add: unsigned_and_eq)
  also have "\<dots> = push_bit 12 (take_bit 20 (drop_bit 12 (uint v)))"
    using slice_eq_mask [of 12 20 "uint v"] by (simp add: c ac_simps)
  also have "take_bit 20 (drop_bit 12 (uint v)) = drop_bit 12 (uint v)"
    using uint_lt2p [of v] by (simp add: take_bit_drop_bit take_bit_int_eq_self)
  also have "push_bit 12 (drop_bit 12 (uint v)) = uint v div 4096 * 4096"
    by (simp add: push_bit_eq_mult drop_bit_eq_div)
  finally have "int (unat (v AND PAGE_FRAME)) = int (unat v div PAGE_SIZE * PAGE_SIZE)"
    by (simp add: zdiv_int)
  then show ?thesis by (simp only: of_nat_eq_iff)
qed

lemma page_aligned_iff: "page_aligned v \<longleftrightarrow> PAGE_SIZE dvd unat v"
  unfolding page_aligned_def word_unat_eq_iff unat_and_PAGE_FRAME
  by (metis dvd_div_mult_self dvd_triv_right)

lemma page_aligned_and [simp]: "page_aligned (v AND PAGE_FRAME)"
  by (simp add: page_aligned_iff unat_and_PAGE_FRAME)

lemma page_aligned_and_eq: "page_aligned v \<Longrightarrow> v AND PAGE_FRAME = v"
  by (simp add: page_aligned_def)

lemma unat_frame_addr: "i < 2 ^ 20 \<Longrightarrow> unat (frame_addr i) = i * PAGE_SIZE"
  unfolding frame_addr_def unat_of_nat by simp

lemma page_aligned_frame_addr [simp]: "i < 2 ^ 20 \<Longrightarrow> page_aligned (frame_addr i)"
  by (simp add: page_aligned_iff unat_frame_addr)

lemma addr_frame_frame_addr [simp]: "i < 2 ^ 20 \<Longrightarrow> addr_frame (frame_addr i) = i"
  by (simp add: addr_frame_def unat_frame_addr)

lemma frame_addr_eq_iff: "i < 2 ^ 20 \<Longrightarrow> j < 2 ^ 20 \<Longrightarrow> frame_addr i = frame_addr j \<longleftrightarrow> i = j"
  by (metis addr_frame_frame_addr)

lemma frame_addr_eq_0_iff: "i < 2 ^ 20 \<Longrightarrow> frame_addr i = 0 \<longleftrightarrow> i = 0"
  using frame_addr_eq_iff [of i 0] by (simp add: frame_addr_def)

text \<open>
  A page-aligned address lies in the page that starts at another one exactly when the two
  are equal: the test of \<open>pt_search\<close> is an equality on user addresses.
\<close>

lemma aligned_in_page_iff:
  assumes "page_aligned v" and "page_aligned p" and "p < MIPS_KSEG0"
  shows "p \<le> v \<and> v < p + of_nat PAGE_SIZE \<longleftrightarrow> v = p"
proof -
  obtain a b where ab: "unat v = PAGE_SIZE * a" "unat p = PAGE_SIZE * b"
    using assms(1,2) by (auto simp: page_aligned_iff elim!: dvdE)
  have small: "unat p < 2147483648"
    using assms(3) by (simp add: word_less_nat_alt)
  then have sum: "unat (p + 4096) = unat p + 4096"
    by (subst unat_add_lem [THEN iffD1]) simp_all
  then have "p \<le> v \<and> v < p + 4096 \<longleftrightarrow> unat p \<le> unat v \<and> unat v < unat p + 4096"
    by (simp add: word_le_nat_alt word_less_nat_alt)
  also have "\<dots> \<longleftrightarrow> a = b" using ab by auto
  also have "\<dots> \<longleftrightarrow> v = p" using ab by (simp add: word_unat_eq_iff)
  finally show ?thesis by simp
qed

lemma and_PAGE_FRAME_le: "v AND PAGE_FRAME \<le> v"
  by (simp add: word_le_nat_alt unat_and_PAGE_FRAME div_mult_mod_eq [symmetric])

lemma and_PAGE_FRAME_user: "v < MIPS_KSEG0 \<Longrightarrow> v AND PAGE_FRAME < MIPS_KSEG0"
  using and_PAGE_FRAME_le [of v] by (rule order.strict_trans1)

section \<open>Search loops\<close>

text \<open>
  A loop \<open>for (i = a; i < b; i++) if (P(i)) break;\<close> is \<open>List.find P [a..<b]\<close>.
\<close>

lemma find_upt_Some_iff:
  "List.find P [a..<b] = Some j \<longleftrightarrow> a \<le> j \<and> j < b \<and> P j \<and> (\<forall>k. a \<le> k \<and> k < j \<longrightarrow> \<not> P k)"
proof
  assume "List.find P [a..<b] = Some j"
  then obtain m where m: "m < b - a" "P (a + m)" "j = a + m" "\<forall>k<m. \<not> P (a + k)"
    by (auto simp: find_Some_iff)
  have "\<not> P k" if "a \<le> k" "k < j" for k
    using m(3,4) that by (metis le_add_diff_inverse add_less_cancel_left)
  with m show "a \<le> j \<and> j < b \<and> P j \<and> (\<forall>k. a \<le> k \<and> k < j \<longrightarrow> \<not> P k)" by auto
next
  assume "a \<le> j \<and> j < b \<and> P j \<and> (\<forall>k. a \<le> k \<and> k < j \<longrightarrow> \<not> P k)"
  then show "List.find P [a..<b] = Some j"
    by (auto simp: find_Some_iff intro!: exI [of _ "j - a"])
qed

lemma find_upt_None_iff: "List.find P [a..<b] = None \<longleftrightarrow> (\<forall>k. a \<le> k \<and> k < b \<longrightarrow> \<not> P k)"
  by (auto simp: find_None_iff)

lemma find_unique:
  assumes "\<forall>q \<in> set xs. P q \<longrightarrow> q = x" and "x \<in> set xs" and "P x"
  shows "List.find P xs = Some x"
proof (cases "List.find P xs")
  case None
  then show ?thesis using assms(2,3) by (simp add: find_None_iff)
next
  case (Some y)
  then have "y \<in> set xs" "P y" by (auto simp: find_Some_iff)
  then show ?thesis using Some assms(1) by blast
qed

end
