(* ===== verification/Coremap.thy ===== *)
theory Coremap
  imports Prelude
begin

text \<open>
  Physical memory accounting: \<open>kern/arch/mips/vm/ram.c\<close> (memory handed out before the
  VM system starts) and \<open>kern/vm/coremap.c\<close> (the table with one entry per physical
  frame, and the round-robin choice of the frames to swap out).

  A frame number is a natural number; the C code's \<open>int\<close> counters only count up from 0.
  The one subtraction, \<open>victim = i - nvictims\<close>, can leave the naturals and is kept on
  the integers.
\<close>

section \<open>ram.c\<close>

record ram_st =
  firstpaddr :: paddr_t
  lastpaddr :: paddr_t

definition ram_bootstrap :: "size_t \<Rightarrow> vaddr_t \<Rightarrow> ram_st" where
  "ram_bootstrap mainbus_ramsize firstfree =
     (let ramsize = (if mainbus_ramsize > 512 * 1024 * 1024 then 512 * 1024 * 1024
                     else mainbus_ramsize)
      in \<lparr>firstpaddr = firstfree - MIPS_KSEG0, lastpaddr = ramsize\<rparr>)"

definition ram_stealmem :: "nat \<Rightarrow> ram_st \<Rightarrow> paddr_t \<times> ram_st" where
  "ram_stealmem npages r =
     (let size = of_nat (npages * PAGE_SIZE) in
      if firstpaddr r + size > lastpaddr r then (0, r)
      else (firstpaddr r, r\<lparr>firstpaddr := firstpaddr r + size\<rparr>))"

definition ram_getmem :: "nat \<Rightarrow> nat \<Rightarrow> ram_st \<Rightarrow> paddr_t" where
  "ram_getmem offsetpages npages r =
     (let size = of_nat (npages * PAGE_SIZE); offset = of_nat (offsetpages * PAGE_SIZE) in
      if firstpaddr r + size + offset > lastpaddr r then 0 else firstpaddr r + offset)"

definition ram_getsize :: "ram_st \<Rightarrow> paddr_t" where
  "ram_getsize r = lastpaddr r"

definition ram_getfirstfree :: "ram_st \<Rightarrow> paddr_t \<times> ram_st" where
  "ram_getfirstfree r = (firstpaddr r, r\<lparr>firstpaddr := 0, lastpaddr := 0\<rparr>)"

section \<open>coremap.c\<close>

datatype status_t = FREE | CLEAN | DIRTY | FIXED

record coremap_entry =
  status :: status_t
  ce_paddr :: paddr_t
  ce_vaddr :: vaddr_t
  ce_size :: nat

text \<open>
  The globals of \<open>coremap.h\<close> and the static \<open>next_victim\<close> of
  \<open>coremap_victim_selection\<close>. The null pointer the table holds before it is set up is
  the empty list.
\<close>

record coremap_st =
  coremap :: "coremap_entry list"
  nRamFrames :: nat
  allocTableActive :: bool
  firstFreeFrame :: nat
  next_victim :: nat

definition page_round_up :: "nat \<Rightarrow> nat" where
  "page_round_up n = (if n mod PAGE_SIZE = 0 then n div PAGE_SIZE else n div PAGE_SIZE + 1)"

definition sizeof_coremap_entry :: nat where
  "sizeof_coremap_entry = 16"

text \<open>
  \<open>coremap_init\<close> does not write the \<open>vaddr\<close> fields, which keep what the memory under
  the table held: \<open>junk\<close>.
\<close>

definition coremap_init :: "(nat \<Rightarrow> vaddr_t) \<Rightarrow> ram_st \<Rightarrow> coremap_st \<Rightarrow> (ram_st \<times> coremap_st) res" where
  "coremap_init junk r cs =
     (let ramsize = unat (ram_getsize r);
          (ks, r') = ram_getfirstfree r;
          ramsizepages = ramsize div PAGE_SIZE;
          cs1 = cs\<lparr>nRamFrames := ramsizepages\<rparr>;
          kernelpages = page_round_up (unat ks);
          coremap_pages = page_round_up (ramsizepages * sizeof_coremap_entry);
          paddr = frame_addr kernelpages;
          firstfree = kernelpages + coremap_pages
      in if firstfree > ramsizepages then Inl (Panic ''Too little memory for the bare minumin'')
         else if paddr = 0 then Inr (r', cs1\<lparr>coremap := []\<rparr>)
         else kbind (kassert (unat (PADDR_TO_KVADDR paddr) mod PAGE_SIZE = 0) ''vaddr % PAGE_SIZE == 0'') (\<lambda>_.
           Inr (r', cs1\<lparr>coremap :=
              map (\<lambda>i. \<lparr>status = FIXED, ce_paddr = frame_addr i, ce_vaddr = junk i,
                         ce_size = kernelpages\<rparr>) [0..<kernelpages] @
              map (\<lambda>i. \<lparr>status = FIXED, ce_paddr = paddr, ce_vaddr = junk i,
                         ce_size = coremap_pages\<rparr>) [kernelpages..<firstfree] @
              map (\<lambda>i. \<lparr>status = CLEAN, ce_paddr = -1, ce_vaddr = junk i,
                         ce_size = 0\<rparr>) [firstfree..<ramsizepages],
              firstFreeFrame := firstfree, allocTableActive := True\<rparr>)))"

text \<open>
  The inner \<open>for\<close> loop of \<open>coremap_victim_selection\<close>: it counts consecutive frames that
  are not \<open>FIXED\<close> from \<open>i\<close>, and returns \<open>i\<close>, \<open>victimsfound\<close> and \<open>found\<close>.
\<close>

function victim_scan :: "coremap_entry list \<Rightarrow> nat \<Rightarrow> nat \<Rightarrow> nat \<Rightarrow> nat \<Rightarrow> bool \<Rightarrow> nat \<times> nat \<times> bool" where
  "victim_scan c n nvictims i victimsfound found =
     (if i < n \<and> victimsfound < nvictims then
        (if status (c ! i) = FIXED then victim_scan c n nvictims (Suc i) 0 False
         else victim_scan c n nvictims (Suc i) (Suc victimsfound) found)
      else (i, victimsfound, found))"
  by pat_completeness auto
termination
  by (relation "measure (\<lambda>(c, n, nv, i, vf, found). n - i)") auto

declare victim_scan.simps [simp del]

text \<open>
  The \<open>while (!found)\<close> loop, from \<open>i\<close>, \<open>victimsfound\<close> and \<open>iteration\<close>, with the
  current value of \<open>victim\<close>. It ends because \<open>iteration\<close> goes up in every round that
  does not find a victim, and 2 is a panic.
\<close>

function victim_loop :: "coremap_entry list \<Rightarrow> nat \<Rightarrow> nat \<Rightarrow> nat \<Rightarrow> int \<Rightarrow> nat \<Rightarrow> nat \<Rightarrow> nat \<Rightarrow> (int \<times> nat) res" where
  "victim_loop c n first nvictims victim i victimsfound iteration =
     (case victim_scan c n nvictims i victimsfound True of (i', vf, found) \<Rightarrow>
        let victim' = (if vf = nvictims then int i' - int nvictims else victim);
            found' = (vf = nvictims \<or> found)
        in if i' \<ge> n then
             (if iteration + 1 \<ge> 2 then Inl (Panic ''no more victims in the coremap'')
              else if found' then Inr (victim', vf)
              else victim_loop c n first nvictims victim' first vf (iteration + 1))
           else Inr (victim', vf))"
  by pat_completeness auto
termination
  by (relation "measure (\<lambda>(c, n, first, nv, victim, i, vf, iteration). 2 - iteration)") auto

declare victim_loop.simps [simp del]

definition coremap_victim_selection :: "nat \<Rightarrow> coremap_st \<Rightarrow> (int \<times> coremap_st) res" where
  "coremap_victim_selection nvictims cs =
     (let start = (if next_victim cs = 0 then firstFreeFrame cs else next_victim cs);
          start' = (if start \<ge> nRamFrames cs then firstFreeFrame cs else start)
      in kbind (victim_loop (coremap cs) (nRamFrames cs) (firstFreeFrame cs) nvictims
                  (int start') start' 0 0) (\<lambda>(victim, victimsfound).
         kbind (kassert (victimsfound = nvictims) ''victimsfound == nvictims'') (\<lambda>_.
         Inr (victim, cs\<lparr>next_victim := nat (victim + int nvictims)\<rparr>))))"

text \<open>
  In \<open>victim_loop\<close> the branch with \<open>i' < n\<close> leaves the loop: the scan then stopped
  because it had found \<open>nvictims\<close> frames, so \<open>found\<close> is set (lemma
  \<open>victim_scan_stop\<close> below).
\<close>

lemma victim_scan_stop:
  "victim_scan c n nv i vf found = (i', vf', found') \<Longrightarrow> i' < n \<Longrightarrow> nv \<le> vf'"
proof (induction c n nv i vf found rule: victim_scan.induct)
  case (1 c n nv i vf found)
  then show ?case
    by (subst (asm) (3) victim_scan.simps) (auto split: if_splits)
qed

section \<open>Well-formed tables\<close>

text \<open>
  The state the table is in from \<open>coremap_init\<close> on. At most 512 MB of memory are used,
  hence at most \<open>2 ^ 17\<close> frames; the frames below \<open>firstFreeFrame\<close> hold the kernel and
  the table itself.
\<close>

definition cm_wf :: "coremap_st \<Rightarrow> bool" where
  "cm_wf cs \<longleftrightarrow> allocTableActive cs \<and> nRamFrames cs = length (coremap cs) \<and>
     0 < firstFreeFrame cs \<and> firstFreeFrame cs \<le> nRamFrames cs \<and> nRamFrames cs \<le> 2 ^ 17 \<and>
     (next_victim cs = 0 \<or> firstFreeFrame cs \<le> next_victim cs)"

section \<open>Selecting one victim\<close>

text \<open>
  What the selection of one victim is meant to be: the first frame that is not
  \<open>FIXED\<close> from the round-robin position on, else the first one from
  \<open>firstFreeFrame\<close> on.
\<close>

definition victim_start :: "coremap_st \<Rightarrow> nat" where
  "victim_start cs = (if next_victim cs = 0 \<or> next_victim cs \<ge> nRamFrames cs
                      then firstFreeFrame cs else next_victim cs)"

definition unfixed :: "coremap_st \<Rightarrow> nat \<Rightarrow> bool" where
  "unfixed cs i \<longleftrightarrow> status (coremap cs ! i) \<noteq> FIXED"

definition round_robin_victim :: "coremap_st \<Rightarrow> nat option" where
  "round_robin_victim cs =
     (case List.find (unfixed cs) [victim_start cs..<nRamFrames cs] of
        Some v \<Rightarrow> Some v
      | None \<Rightarrow> List.find (unfixed cs) [firstFreeFrame cs..<nRamFrames cs])"

lemma victim_scan_one:
  "i \<le> j \<Longrightarrow> j < n \<Longrightarrow> status (c ! j) \<noteq> FIXED \<Longrightarrow> (\<And>k. i \<le> k \<Longrightarrow> k < j \<Longrightarrow> status (c ! k) = FIXED)
   \<Longrightarrow> victim_scan c n (Suc 0) i 0 f = (Suc j, Suc 0, f \<and> i = j)"
proof (induction "j - i" arbitrary: i f)
  case 0
  then have "i = j" by simp
  with 0 show ?case
    by (subst victim_scan.simps) (simp add: victim_scan.simps [of c n "Suc 0" "Suc j" "Suc 0" f])
next
  case (Suc d)
  then have "i < j" by simp
  with Suc have "victim_scan c n (Suc 0) (Suc i) 0 False = (Suc j, Suc 0, False \<and> Suc i = j)"
    by (intro Suc.hyps) auto
  with Suc \<open>i < j\<close> show ?case by (simp add: victim_scan.simps [of c n "Suc 0" i 0 f])
qed

lemma victim_scan_none:
  "i \<le> n \<Longrightarrow> (\<And>k. i \<le> k \<Longrightarrow> k < n \<Longrightarrow> status (c ! k) = FIXED)
   \<Longrightarrow> victim_scan c n (Suc 0) i 0 f = (n, 0, f \<and> i = n)"
proof (induction "n - i" arbitrary: i f)
  case 0
  then show ?case by (subst victim_scan.simps) simp
next
  case (Suc d)
  then have "i < n" by simp
  with Suc have "victim_scan c n (Suc 0) (Suc i) 0 False = (n, 0, False \<and> Suc i = n)"
    by (intro Suc.hyps) auto
  with Suc \<open>i < n\<close> show ?case by (simp add: victim_scan.simps [of c n "Suc 0" i 0 f])
qed

lemma victim_scan_find:
  assumes "i \<le> n"
  shows "victim_scan c n (Suc 0) i 0 f =
    (case List.find (\<lambda>k. status (c ! k) \<noteq> FIXED) [i..<n] of
       Some j \<Rightarrow> (Suc j, Suc 0, f \<and> i = j) | None \<Rightarrow> (n, 0, f \<and> i = n))"
  using assms
  by (auto simp: find_upt_Some_iff find_upt_None_iff split: option.split
      intro!: victim_scan_one victim_scan_none)

lemma victim_start_bounds:
  assumes "cm_wf cs" and "firstFreeFrame cs < nRamFrames cs"
  shows "firstFreeFrame cs \<le> victim_start cs" "victim_start cs < nRamFrames cs"
  using assms by (auto simp: cm_wf_def victim_start_def)

text \<open>
  A frame found by the second pass is not the last one: the first pass, which ends at the
  last frame, would have found it. So the second pass never meets the panic.
\<close>

lemma second_pass_not_last:
  assumes "List.find P [a..<n] = None" and "a < n" and "List.find P [b..<n] = Some v"
  shows "Suc v < n"
proof -
  have "v < n" "P v" using assms(3) by (auto simp: find_upt_Some_iff)
  moreover have "\<not> P (n - 1)" using assms(1,2) by (auto simp: find_upt_None_iff)
  ultimately show ?thesis by (metis Suc_lessI diff_Suc_1)
qed

lemma victim_loop_one:
  assumes "a < n" and "b < n"
  shows "victim_loop c n b (Suc 0) victim a 0 0 =
    (case List.find (\<lambda>k. status (c ! k) \<noteq> FIXED) [a..<n] of
       Some v \<Rightarrow> Inr (int v, Suc 0)
     | None \<Rightarrow> (case List.find (\<lambda>k. status (c ! k) \<noteq> FIXED) [b..<n] of
                 Some v \<Rightarrow> Inr (int v, Suc 0)
               | None \<Rightarrow> Inl (Panic ''no more victims in the coremap'')))"
proof (cases "List.find (\<lambda>k. status (c ! k) \<noteq> FIXED) [a..<n]")
  case (Some v)
  then have "v < n" by (simp add: find_upt_Some_iff)
  with Some assms show ?thesis
    by (simp add: victim_loop.simps [of c n b "Suc 0" victim a 0 0] victim_scan_find Let_def)
next
  case None
  have first: "victim_loop c n b (Suc 0) victim a 0 0 = victim_loop c n b (Suc 0) victim b 0 (Suc 0)"
    using None assms by (simp add: victim_loop.simps [of c n b "Suc 0" victim a 0 0] victim_scan_find Let_def)
  show ?thesis
  proof (cases "List.find (\<lambda>k. status (c ! k) \<noteq> FIXED) [b..<n]")
    case (Some v)
    with None assms have "Suc v < n" by (intro second_pass_not_last)
    with Some None assms show ?thesis
      unfolding first by (simp add: victim_loop.simps [of c n b "Suc 0" victim b 0 "Suc 0"] victim_scan_find Let_def)
  next
    case b: None
    with None assms show ?thesis
      unfolding first by (simp add: victim_loop.simps [of c n b "Suc 0" victim b 0 "Suc 0"] victim_scan_find Let_def)
  qed
qed

lemma coremap_victim_selection_one:
  assumes "cm_wf cs" and "firstFreeFrame cs < nRamFrames cs"
  shows "coremap_victim_selection (Suc 0) cs =
    (case round_robin_victim cs of
       Some v \<Rightarrow> Inr (int v, cs\<lparr>next_victim := Suc v\<rparr>)
     | None \<Rightarrow> Inl (Panic ''no more victims in the coremap''))"
proof -
  have unfixed: "unfixed cs = (\<lambda>k. status (coremap cs ! k) \<noteq> FIXED)"
    by (rule ext) (simp add: unfixed_def)
  have start: "(let start = (if next_victim cs = 0 then firstFreeFrame cs else next_victim cs)
       in if start \<ge> nRamFrames cs then firstFreeFrame cs else start) = victim_start cs"
    using assms(2) by (simp add: victim_start_def)
  show ?thesis
    using victim_start_bounds(2) [OF assms] assms(2) start
    by (simp add: coremap_victim_selection_def victim_loop_one round_robin_victim_def unfixed
        Let_def nat_add_distrib split: option.split)
qed

lemma round_robin_victim_Some:
  assumes "cm_wf cs" and "firstFreeFrame cs < nRamFrames cs" and "round_robin_victim cs = Some v"
  shows "firstFreeFrame cs \<le> v" "v < nRamFrames cs" "status (coremap cs ! v) \<noteq> FIXED"
  using assms victim_start_bounds(1) [OF assms(1,2)]
  by (auto simp: round_robin_victim_def find_upt_Some_iff unfixed_def split: option.splits)

lemma round_robin_victim_None_iff:
  assumes "cm_wf cs" and "firstFreeFrame cs < nRamFrames cs"
  shows "round_robin_victim cs = None \<longleftrightarrow>
    (\<forall>i. firstFreeFrame cs \<le> i \<and> i < nRamFrames cs \<longrightarrow> status (coremap cs ! i) = FIXED)"
  using assms victim_start_bounds(1) [OF assms(1,2)]
  by (auto simp: round_robin_victim_def find_upt_None_iff find_upt_Some_iff unfixed_def split: option.splits)

section \<open>Setting the table up\<close>

lemma page_round_up_ge: "n \<le> page_round_up n * PAGE_SIZE"
  unfolding page_round_up_def by (auto split: if_splits)

lemma page_round_up_eq_0_iff: "page_round_up n = 0 \<longleftrightarrow> n = 0"
  using page_round_up_ge [of n] by (auto simp: page_round_up_def)

text \<open>
  The table after \<open>coremap_init\<close>: the frames below \<open>firstFreeFrame\<close> cover the kernel
  image and the table itself, and are \<open>FIXED\<close>; all others are \<open>CLEAN\<close>.
\<close>

definition boot_table :: "ram_st \<Rightarrow> coremap_st \<Rightarrow> bool" where
  "boot_table r cs \<longleftrightarrow> cm_wf cs \<and> nRamFrames cs = unat (lastpaddr r) div PAGE_SIZE \<and>
     unat (firstpaddr r) + nRamFrames cs * sizeof_coremap_entry \<le> firstFreeFrame cs * PAGE_SIZE \<and>
     (\<forall>i < nRamFrames cs. status (coremap cs ! i) = (if i < firstFreeFrame cs then FIXED else CLEAN))"

lemma coremap_init_boot_table:
  assumes "coremap_init junk r cs = Inr (r', cs')" and "unat (lastpaddr r) \<le> 2 ^ 29"
    and "0 < firstpaddr r" and "next_victim cs = 0"
  shows "boot_table r cs'"
proof -
  define kp where "kp = page_round_up (unat (firstpaddr r))"
  define n where "n = unat (lastpaddr r) div PAGE_SIZE"
  define cp where "cp = page_round_up (n * sizeof_coremap_entry)"
  have n: "n \<le> 2 ^ 17" using assms(2) by (auto simp: n_def)
  have "0 < unat (firstpaddr r)" using assms(3) by (simp add: word_less_nat_alt)
  then have kp: "0 < kp" using page_round_up_eq_0_iff [of "unat (firstpaddr r)"]
    unfolding kp_def by linarith
  have fits: "kp + cp \<le> n" and not0: "frame_addr kp \<noteq> 0"
    using assms(1) kp n
    by (auto simp: coremap_init_def Let_def ram_getfirstfree_def ram_getsize_def frame_addr_eq_0_iff
        split: if_splits simp flip: kp_def n_def cp_def)
  have cs': "coremap cs' =
      map (\<lambda>i. \<lparr>status = FIXED, ce_paddr = frame_addr i, ce_vaddr = junk i, ce_size = kp\<rparr>) [0..<kp] @
      map (\<lambda>i. \<lparr>status = FIXED, ce_paddr = frame_addr kp, ce_vaddr = junk i, ce_size = cp\<rparr>) [kp..<kp + cp] @
      map (\<lambda>i. \<lparr>status = CLEAN, ce_paddr = -1, ce_vaddr = junk i, ce_size = 0\<rparr>) [kp + cp..<n]"
    and rest: "nRamFrames cs' = n" "firstFreeFrame cs' = kp + cp" "allocTableActive cs'"
      "next_victim cs' = 0"
    using assms(1,4) fits not0
    by (auto simp: coremap_init_def Let_def ram_getfirstfree_def ram_getsize_def
        simp flip: kp_def n_def cp_def)
  have "unat (firstpaddr r) + n * sizeof_coremap_entry \<le> (kp + cp) * PAGE_SIZE"
    using page_round_up_ge [of "unat (firstpaddr r)"] page_round_up_ge [of "n * sizeof_coremap_entry"]
    by (simp add: kp_def cp_def algebra_simps)
  moreover have "status (coremap cs' ! i) = (if i < kp + cp then FIXED else CLEAN)" if "i < n" for i
    using that fits by (auto simp: cs' nth_append)
  ultimately show ?thesis
    using kp n fits rest by (auto simp: boot_table_def cm_wf_def cs' n_def)
qed

end
