(* ===== verification/PageTable.thy ===== *)
theory PageTable
  imports Prelude
begin

text \<open>
  The page table of \<open>kern/vm/pt.c\<close>: a circular list with a sentinel, searched from the
  front, one entry per page the process has touched. The model is the list of entries from
  \<open>nil->next\<close> on; a pointer to an entry is its position. This theory holds the data and
  the search; the operations that allocate memory are in \<open>AddrSpace\<close>. \<open>pte_ptr\<close>,
  \<open>pt_ptr\<close> and \<open>pt_nil\<close> are the addresses of the structures in the kernel heap.
\<close>

record ptentry =
  pte_ptr :: vaddr_t
  pte_vaddr :: vaddr_t
  ppage_index :: nat
  swapped :: bool
  swap_index :: nat

record pt_t =
  pt_ptr :: vaddr_t
  pt_nil :: vaddr_t
  pt_entries :: "ptentry list"
  pt_npages :: nat

definition pte_covers :: "ptentry \<Rightarrow> vaddr_t \<Rightarrow> bool" where
  "pte_covers pte vaddr \<longleftrightarrow> vaddr \<ge> pte_vaddr pte \<and> vaddr < pte_vaddr pte + of_nat PAGE_SIZE"

definition pt_search :: "pt_t \<Rightarrow> vaddr_t \<Rightarrow> nat option" where
  "pt_search pt vaddr =
     List.find (\<lambda>k. pte_covers (pt_entries pt ! k) vaddr) [0..<length (pt_entries pt)]"

text \<open>An entry changed through its pointer.\<close>

definition pte_update :: "nat \<Rightarrow> (ptentry \<Rightarrow> ptentry) \<Rightarrow> pt_t \<Rightarrow> pt_t" where
  "pte_update k f pt = pt\<lparr>pt_entries := (pt_entries pt)[k := f (pt_entries pt ! k)]\<rparr>"

section \<open>Well-formed tables\<close>

definition pt_wf :: "ptentry list \<Rightarrow> bool" where
  "pt_wf es \<longleftrightarrow> distinct (map pte_vaddr es) \<and>
     (\<forall>e \<in> set es. page_aligned (pte_vaddr e) \<and> pte_vaddr e < MIPS_KSEG0)"

lemma pt_wf_Nil [simp]: "pt_wf []"
  by (simp add: pt_wf_def)

lemma pt_wf_Cons: "pt_wf (e # es) \<longleftrightarrow> pt_wf es \<and> pte_vaddr e \<notin> pte_vaddr ` set es \<and>
    page_aligned (pte_vaddr e) \<and> pte_vaddr e < MIPS_KSEG0"
  by (auto simp: pt_wf_def)

lemma pt_wf_update:
  assumes "pt_wf es" and "k < length es" and "pte_vaddr e = pte_vaddr (es ! k)"
  shows "pt_wf (es[k := e])"
proof -
  have "map pte_vaddr (es[k := e]) = map pte_vaddr es"
    by (metis assms(2,3) list_update_id map_update nth_map)
  moreover have "e' \<in> set es \<or> e' = e" if "e' \<in> set (es[k := e])" for e'
    using that set_update_subset_insert [of es k e] by blast
  ultimately show ?thesis
    using assms nth_mem [OF assms(2)] unfolding pt_wf_def by metis
qed

lemma pt_wf_inj:
  "pt_wf es \<Longrightarrow> i < length es \<Longrightarrow> j < length es \<Longrightarrow> pte_vaddr (es ! i) = pte_vaddr (es ! j) \<Longrightarrow> i = j"
  by (metis (no_types, lifting) distinct_conv_nth length_map nth_map pt_wf_def)

lemma pte_covers_iff:
  assumes "pt_wf es" and "e \<in> set es" and "page_aligned v"
  shows "pte_covers e v \<longleftrightarrow> pte_vaddr e = v"
  using aligned_in_page_iff [of v "pte_vaddr e"] assms by (auto simp: pte_covers_def pt_wf_def)

lemma pt_search_Some_iff:
  assumes "pt_wf (pt_entries pt)" and "page_aligned v"
  shows "pt_search pt v = Some k \<longleftrightarrow> k < length (pt_entries pt) \<and> pte_vaddr (pt_entries pt ! k) = v"
    (is "_ \<longleftrightarrow> ?R")
proof -
  let ?es = "pt_entries pt"
  have cov: "pte_covers (?es ! j) v \<longleftrightarrow> pte_vaddr (?es ! j) = v" if "j < length ?es" for j
    using pte_covers_iff [OF assms(1) nth_mem [OF that] assms(2)] .
  show ?thesis
  proof
    assume "pt_search pt v = Some k"
    then show ?R using cov by (auto simp: pt_search_def find_upt_Some_iff)
  next
    assume R: ?R
    have "pte_vaddr (?es ! j) \<noteq> v" if "j < k" for j
      using pt_wf_inj [OF assms(1), of j k] R that by fastforce
    with R cov show "pt_search pt v = Some k"
      by (auto simp: pt_search_def find_upt_Some_iff)
  qed
qed

lemma pt_search_None_iff:
  assumes "pt_wf (pt_entries pt)" and "page_aligned v"
  shows "pt_search pt v = None \<longleftrightarrow> v \<notin> pte_vaddr ` set (pt_entries pt)"
  using pt_search_Some_iff [OF assms]
  by (metis (no_types, lifting) imageE image_eqI in_set_conv_nth not_Some_eq)

end
