(* ===== verification/Tlb.thy ===== *)
theory Tlb
  imports Prelude
begin

text \<open>
  The TLB of the MIPS processor as \<open>kern/arch/mips/include/tlb.h\<close> describes it, the
  round-robin choice of an entry to replace (\<open>kern/vm/vm_tlb.c\<close>) and the counters of
  \<open>kern/vm/vmstats.c\<close>.
\<close>

section \<open>Statistics\<close>

text \<open>The counters are C \<open>int\<close>s; they are kept at their width.\<close>

record stats_t =
  tlb_faults :: u32
  tlb_faults_w_free :: u32
  tlb_faults_w_replace :: u32
  tlb_invalidation :: u32
  tlb_reloads :: u32
  page_faults_zero :: u32
  page_faults_disk :: u32
  page_faults_elf :: u32
  page_faults_swapfile :: u32
  swapfile_writes :: u32

definition stats_init :: stats_t where
  "stats_init = \<lparr>tlb_faults = 0, tlb_faults_w_free = 0, tlb_faults_w_replace = 0,
     tlb_invalidation = 0, tlb_reloads = 0, page_faults_zero = 0, page_faults_disk = 0,
     page_faults_elf = 0, page_faults_swapfile = 0, swapfile_writes = 0\<rparr>"

text \<open>The lines \<open>print_stats\<close> prints, each with the number it shows.\<close>

definition print_stats :: "stats_t \<Rightarrow> (string \<times> int option) list" where
  "print_stats s =
     (if tlb_faults s \<noteq> tlb_faults_w_free s + tlb_faults_w_replace s
      then [(''WARNING! TLB faults != TLB faults with free + TLB faults with replace'', None)] else []) @
     (if tlb_faults s \<noteq> page_faults_zero s + page_faults_disk s + tlb_reloads s
      then [(''WARNING! TLB faults != Page faults (zeroed) + Page faults (disk) + TLB faults reloads'', None)] else []) @
     (if page_faults_disk s \<noteq> page_faults_elf s + page_faults_swapfile s
      then [(''WARNING! Page faults (disk) != Page faults (elf) + Page faults (swapfile)'', None)] else []) @
     [(''TLB faults: '', Some (sint (tlb_faults s))),
      (''TLB faults with Free: '', Some (sint (tlb_faults_w_free s))),
      (''TLB faults with Replace: '', Some (sint (tlb_faults_w_replace s))),
      (''TLB invalidations: '', Some (sint (tlb_invalidation s))),
      (''TLB reloads: '', Some (sint (tlb_reloads s))),
      (''Page faults (zeroed): '', Some (sint (page_faults_zero s))),
      (''Page faults (disk): '', Some (sint (page_faults_disk s))),
      (''Page faults elf: '', Some (sint (page_faults_elf s))),
      (''Page faults swapfile: '', Some (sint (page_faults_swapfile s))),
      (''Swapfile writes: '', Some (sint (swapfile_writes s)))]"

text \<open>The three equations whose failure \<open>print_stats\<close> warns about.\<close>

definition stats_consistent :: "stats_t \<Rightarrow> bool" where
  "stats_consistent s \<longleftrightarrow>
     tlb_faults s = tlb_faults_w_free s + tlb_faults_w_replace s \<and>
     tlb_faults s = page_faults_zero s + page_faults_disk s + tlb_reloads s \<and>
     page_faults_disk s = page_faults_elf s + page_faults_swapfile s"

lemma stats_consistent_init: "stats_consistent stats_init"
  by (simp add: stats_consistent_def stats_init_def)

section \<open>The TLB\<close>

definition NUM_TLB :: nat where
  "NUM_TLB = 64"

abbreviation (input) TLBHI_VPAGE :: u32 where "TLBHI_VPAGE \<equiv> 0xfffff000"
abbreviation (input) TLBLO_PPAGE :: u32 where "TLBLO_PPAGE \<equiv> 0xfffff000"
abbreviation (input) TLBLO_DIRTY :: u32 where "TLBLO_DIRTY \<equiv> 0x400"
abbreviation (input) TLBLO_VALID :: u32 where "TLBLO_VALID \<equiv> 0x200"

definition TLBHI_INVALID :: "nat \<Rightarrow> u32" where
  "TLBHI_INVALID entryno = push_bit 12 (0x80000 + of_nat entryno)"

definition TLBLO_INVALID :: u32 where
  "TLBLO_INVALID = 0"

definition tlb_lo :: "paddr_t \<Rightarrow> u32" where
  "tlb_lo paddr = paddr OR TLBLO_DIRTY OR TLBLO_VALID"

text \<open>An entry is the pair of its high and its low word.\<close>

record tlb_st =
  tlb_entry :: "nat \<Rightarrow> u32 \<times> u32"
  tlb_next_victim :: nat

definition tlb_write :: "u32 \<Rightarrow> u32 \<Rightarrow> nat \<Rightarrow> tlb_st \<Rightarrow> tlb_st" where
  "tlb_write entryhi entrylo index t = t\<lparr>tlb_entry := (tlb_entry t)(index := (entryhi, entrylo))\<rparr>"

definition tlb_read :: "nat \<Rightarrow> tlb_st \<Rightarrow> u32 \<times> u32" where
  "tlb_read index t = tlb_entry t index"

definition tlb_probe :: "u32 \<Rightarrow> tlb_st \<Rightarrow> int" where
  "tlb_probe entryhi t =
     (case List.find (\<lambda>i. fst (tlb_entry t i) AND TLBHI_VPAGE = entryhi AND TLBHI_VPAGE) [0..<NUM_TLB] of
        Some i \<Rightarrow> int i | None \<Rightarrow> -1)"

definition tlb_get_rr_victim :: "tlb_st \<Rightarrow> nat \<times> tlb_st" where
  "tlb_get_rr_victim t =
     (tlb_next_victim t, t\<lparr>tlb_next_victim := (tlb_next_victim t + 1) mod NUM_TLB\<rparr>)"

text \<open>What the processor does with an address in a mapped segment: a valid entry for the page
  gives the frame, no such entry is a TLB miss.\<close>

definition tlb_valid :: "tlb_st \<Rightarrow> nat \<Rightarrow> bool" where
  "tlb_valid t i \<longleftrightarrow> snd (tlb_entry t i) AND TLBLO_VALID \<noteq> 0"

definition tlb_translate :: "tlb_st \<Rightarrow> vaddr_t \<Rightarrow> paddr_t option" where
  "tlb_translate t page =
     (case List.find (\<lambda>i. tlb_valid t i \<and> fst (tlb_entry t i) = page) [0..<NUM_TLB] of
        Some i \<Rightarrow> Some (snd (tlb_entry t i) AND TLBLO_PPAGE) | None \<Rightarrow> None)"

section \<open>Well-formed contents\<close>

text \<open>
  No page is mapped twice, and an entry that is not valid holds an address of an unmapped
  segment, so that \<open>tlb_probe\<close> on a user page finds a valid entry or none.
\<close>

definition tlb_wf :: "tlb_st \<Rightarrow> bool" where
  "tlb_wf t \<longleftrightarrow> tlb_next_victim t < NUM_TLB \<and>
     (\<forall>i < NUM_TLB. page_aligned (fst (tlb_entry t i)) \<and>
        (tlb_valid t i \<longleftrightarrow> fst (tlb_entry t i) < MIPS_KSEG0)) \<and>
     (\<forall>i < NUM_TLB. \<forall>j < NUM_TLB. tlb_valid t i \<longrightarrow> tlb_valid t j \<longrightarrow>
        fst (tlb_entry t i) = fst (tlb_entry t j) \<longrightarrow> i = j)"

lemma TLBHI_INVALID_props:
  assumes "i < NUM_TLB"
  shows "page_aligned (TLBHI_INVALID i)" "\<not> TLBHI_INVALID i < MIPS_KSEG0"
proof -
  have "TLBHI_INVALID i = of_nat ((0x80000 + i) * 4096)"
    by (simp add: TLBHI_INVALID_def push_bit_eq_mult algebra_simps)
  then have u: "unat (TLBHI_INVALID i) = (0x80000 + i) * 4096"
    using assms by (simp only: unat_of_nat NUM_TLB_def) simp
  show "page_aligned (TLBHI_INVALID i)" by (simp add: page_aligned_iff u)
  show "\<not> TLBHI_INVALID i < MIPS_KSEG0" by (simp add: word_less_nat_alt u)
qed

lemma tlb_lo_valid [simp]: "tlb_lo p AND TLBLO_VALID = TLBLO_VALID"
proof -
  have "tlb_lo p AND TLBLO_VALID = (p AND TLBLO_VALID) OR TLBLO_VALID"
    by (simp add: tlb_lo_def bit.conj_disj_distrib2)
  then show ?thesis by (simp only: word_ao_absorbs)
qed

lemma tlb_lo_ppage [simp]: "page_aligned p \<Longrightarrow> tlb_lo p AND TLBLO_PPAGE = p"
  by (simp add: tlb_lo_def bit.conj_disj_distrib2 page_aligned_def)

lemma tlb_valid_write:
  "tlb_valid (tlb_write hi lo k t) i \<longleftrightarrow> (if i = k then lo AND TLBLO_VALID \<noteq> 0 else tlb_valid t i)"
  by (simp add: tlb_valid_def tlb_write_def)

lemma tlb_entry_write: "tlb_entry (tlb_write hi lo k t) i = (if i = k then (hi, lo) else tlb_entry t i)"
  by (simp add: tlb_write_def)

lemma tlb_translate_Some_iff:
  assumes "tlb_wf t"
  shows "tlb_translate t page = Some pa \<longleftrightarrow>
    (\<exists>i < NUM_TLB. tlb_valid t i \<and> fst (tlb_entry t i) = page \<and> snd (tlb_entry t i) AND TLBLO_PPAGE = pa)"
    (is "_ \<longleftrightarrow> ?R")
proof
  assume "tlb_translate t page = Some pa"
  then show ?R by (auto simp: tlb_translate_def find_upt_Some_iff split: option.splits)
next
  assume ?R
  then obtain i where i: "i < NUM_TLB" "tlb_valid t i" "fst (tlb_entry t i) = page"
    "snd (tlb_entry t i) AND TLBLO_PPAGE = pa" by blast
  have "List.find (\<lambda>i. tlb_valid t i \<and> fst (tlb_entry t i) = page) [0..<NUM_TLB] = Some i"
    unfolding find_upt_Some_iff using i assms unfolding tlb_wf_def
    by (metis le0 less_trans nat_neq_iff)
  with i show "tlb_translate t page = Some pa" by (simp add: tlb_translate_def)
qed

lemma tlb_translate_None_iff:
  "tlb_translate t page = None \<longleftrightarrow> (\<forall>i < NUM_TLB. tlb_valid t i \<longrightarrow> fst (tlb_entry t i) \<noteq> page)"
  by (auto simp: tlb_translate_def find_upt_None_iff find_upt_Some_iff split: option.splits)

text \<open>
  The two ways the code writes an entry keep the contents well-formed: an invalid entry in
  its own slot, and a mapping of a user page that the TLB does not hold yet.
\<close>

lemma tlb_wf_write:
  assumes "tlb_wf t" and "k < NUM_TLB" and "page_aligned hi"
    and "lo AND TLBLO_VALID \<noteq> 0 \<longleftrightarrow> hi < MIPS_KSEG0"
    and "\<And>i. i < NUM_TLB \<Longrightarrow> i \<noteq> k \<Longrightarrow> tlb_valid t i \<Longrightarrow> fst (tlb_entry t i) \<noteq> hi"
  shows "tlb_wf (tlb_write hi lo k t)"
  unfolding tlb_wf_def
proof (intro conjI allI impI)
  show "tlb_next_victim (tlb_write hi lo k t) < NUM_TLB"
    using assms(1) by (simp add: tlb_wf_def tlb_write_def)
  fix i assume i: "i < NUM_TLB"
  show "page_aligned (fst (tlb_entry (tlb_write hi lo k t) i))"
    "tlb_valid (tlb_write hi lo k t) i \<longleftrightarrow> fst (tlb_entry (tlb_write hi lo k t) i) < MIPS_KSEG0"
    using assms(1-4) i by (auto simp: tlb_wf_def tlb_valid_write tlb_entry_write)
  fix j assume j: "j < NUM_TLB" "tlb_valid (tlb_write hi lo k t) i" "tlb_valid (tlb_write hi lo k t) j"
    "fst (tlb_entry (tlb_write hi lo k t) i) = fst (tlb_entry (tlb_write hi lo k t) j)"
  show "i = j"
  proof (cases "i = k \<or> j = k")
    case True
    then show ?thesis using j i assms(5) [of i] assms(5) [of j]
      by (auto simp: tlb_valid_write tlb_entry_write split: if_splits)
  next
    case False
    then show ?thesis using j i assms(1)
      by (auto simp: tlb_valid_write tlb_entry_write tlb_wf_def)
  qed
qed

lemma tlb_wf_write_invalid:
  assumes "tlb_wf t" and "k < NUM_TLB"
  shows "tlb_wf (tlb_write (TLBHI_INVALID k) TLBLO_INVALID k t)"
  using TLBHI_INVALID_props [OF assms(2)] assms
  by (intro tlb_wf_write) (auto simp: TLBLO_INVALID_def tlb_wf_def)

lemma tlb_wf_write_map:
  assumes "tlb_wf t" and "k < NUM_TLB" and "page_aligned page" and "page < MIPS_KSEG0"
    and "tlb_translate t page = None"
  shows "tlb_wf (tlb_write page (tlb_lo pa) k t)"
  using assms by (intro tlb_wf_write) (auto simp: tlb_translate_None_iff)

end
