(* ===== verification/VmState.thy ===== *)
theory VmState
  imports Coremap PageTable Tlb
begin

text \<open>
  The state of the virtual memory system: the coremap, the swap table and its file, the TLB,
  the counters, the contents of the physical frames and the address space of the running
  process; and the invariant that ties them together.

  The contents of a page are opaque (the type \<open>'p\<close>); the swap file is a vnode, whose
  type \<open>'v\<close> and read and write operations are parameters.
\<close>

section \<open>Data\<close>

text \<open>\<open>kern/include/addrspace.h\<close>: the regions of the program and its page table. The list of
  regions is null when it is empty; \<open>as_ptr\<close> and \<open>reg_ptr\<close> are the addresses of the
  structures in the kernel heap.\<close>

record region =
  reg_ptr :: vaddr_t
  reg_start :: vaddr_t
  reg_size :: size_t
  reg_npages :: size_t

record addrspace =
  as_ptr :: vaddr_t
  start_region :: "region list"
  as_pt :: pt_t

record proc_t =
  p_addrspace :: "addrspace option"

text \<open>\<open>kern/vm/swapfile.c\<close>: \<open>swaptable i\<close> is the \<open>empty\<close> flag of slot \<open>i\<close>.\<close>

definition SWAPSLOTS :: nat where
  "SWAPSLOTS = 9 * 1024 * 1024 div PAGE_SIZE"

record 'v swap_st =
  swaptable :: "nat \<Rightarrow> bool"
  swapspace :: 'v

text \<open>
  Reading and writing one page of a vnode at a byte offset: the error code, the page read
  (with the old contents of the buffer, which a short or failed read leaves in place) and
  the new state of the file.
\<close>

record ('v, 'p) vnode_ops =
  vop_write :: "'v \<Rightarrow> int \<Rightarrow> 'p \<Rightarrow> int \<times> 'v"
  vop_read :: "'v \<Rightarrow> int \<Rightarrow> 'p \<Rightarrow> int \<times> 'p \<times> 'v"

record ('v, 'p) vm =
  ram :: ram_st
  cm :: coremap_st
  sw :: "'v swap_st"
  tlb :: tlb_st
  stats :: stats_t
  mem :: "nat \<Rightarrow> 'p"
  curproc :: "proc_t option"
  curcpu_exists :: bool
  c_spinlocks :: nat
  t_in_interrupt :: bool

section \<open>The current address space\<close>

definition proc_getas :: "('v, 'p) vm \<Rightarrow> addrspace option" where
  "proc_getas s = (case curproc s of None \<Rightarrow> None | Some p \<Rightarrow> p_addrspace p)"

definition proc_setas :: "addrspace option \<Rightarrow> ('v, 'p) vm \<Rightarrow> (addrspace option \<times> ('v, 'p) vm) res" where
  "proc_setas newas s =
     (case curproc s of None \<Rightarrow> Inl (Assert ''proc != NULL'')
      | Some p \<Rightarrow> Inr (p_addrspace p, s\<lparr>curproc := Some (p\<lparr>p_addrspace := newas\<rparr>)\<rparr>))"

text \<open>The page table of the current process, an update of it, and the rest of the address
  space.\<close>

definition cur_entries :: "('v, 'p) vm \<Rightarrow> ptentry list" where
  "cur_entries s = (case proc_getas s of None \<Rightarrow> [] | Some as \<Rightarrow> pt_entries (as_pt as))"

definition upd_as :: "(addrspace \<Rightarrow> addrspace) \<Rightarrow> ('v, 'p) vm \<Rightarrow> ('v, 'p) vm" where
  "upd_as f s = s\<lparr>curproc := map_option (\<lambda>p. p\<lparr>p_addrspace := map_option f (p_addrspace p)\<rparr>) (curproc s)\<rparr>"

definition as_frame :: "addrspace \<Rightarrow> addrspace" where
  "as_frame as = as\<lparr>as_pt := (as_pt as)\<lparr>pt_entries := []\<rparr>\<rparr>"

definition upd_pt :: "(pt_t \<Rightarrow> pt_t) \<Rightarrow> ('v, 'p) vm \<Rightarrow> ('v, 'p) vm" where
  "upd_pt f = upd_as (\<lambda>as. as\<lparr>as_pt := f (as_pt as)\<rparr>)"

text \<open>Reading and changing one entry of the coremap; an index outside the table is undefined
  behaviour.\<close>

definition cm_at :: "int \<Rightarrow> ('v, 'p) vm \<Rightarrow> coremap_entry res" where
  "cm_at i s = (if 0 \<le> i \<and> i < int (length (coremap (cm s))) then Inr (coremap (cm s) ! nat i)
                else Inl (Undefined ''coremap index''))"

definition cm_upd :: "nat \<Rightarrow> (coremap_entry \<Rightarrow> coremap_entry) \<Rightarrow> ('v, 'p) vm \<Rightarrow> ('v, 'p) vm" where
  "cm_upd i f s = s\<lparr>cm := (cm s)\<lparr>coremap := (coremap (cm s))[i := f (coremap (cm s) ! i)]\<rparr>\<rparr>"

lemma proc_getas_upd_as [simp]: "proc_getas (upd_as f s) = map_option f (proc_getas s)"
  by (auto simp: proc_getas_def upd_as_def split: option.split)

lemma upd_as_simps [simp]:
  "ram (upd_as f s) = ram s" "cm (upd_as f s) = cm s" "sw (upd_as f s) = sw s"
  "tlb (upd_as f s) = tlb s" "stats (upd_as f s) = stats s" "mem (upd_as f s) = mem s"
  "curcpu_exists (upd_as f s) = curcpu_exists s" "c_spinlocks (upd_as f s) = c_spinlocks s"
  "t_in_interrupt (upd_as f s) = t_in_interrupt s"
  by (simp_all add: upd_as_def)

lemma proc_getas_cong:
  "proc_getas (s\<lparr>ram := r\<rparr>) = proc_getas s" "proc_getas (s\<lparr>cm := c\<rparr>) = proc_getas s"
  "proc_getas (s\<lparr>sw := w\<rparr>) = proc_getas s" "proc_getas (s\<lparr>tlb := t\<rparr>) = proc_getas s"
  "proc_getas (s\<lparr>stats := st\<rparr>) = proc_getas s" "proc_getas (s\<lparr>mem := m\<rparr>) = proc_getas s"
  by (simp_all add: proc_getas_def)

lemma cur_entries_cong [simp]:
  "cur_entries (s\<lparr>ram := r\<rparr>) = cur_entries s" "cur_entries (s\<lparr>cm := c\<rparr>) = cur_entries s"
  "cur_entries (s\<lparr>sw := w\<rparr>) = cur_entries s" "cur_entries (s\<lparr>tlb := t\<rparr>) = cur_entries s"
  "cur_entries (s\<lparr>stats := st\<rparr>) = cur_entries s" "cur_entries (s\<lparr>mem := m\<rparr>) = cur_entries s"
  by (simp_all add: cur_entries_def proc_getas_cong)

declare proc_getas_cong [simp]

lemma cm_upd_simps [simp]:
  "ram (cm_upd i f s) = ram s" "sw (cm_upd i f s) = sw s" "tlb (cm_upd i f s) = tlb s"
  "stats (cm_upd i f s) = stats s" "mem (cm_upd i f s) = mem s" "curproc (cm_upd i f s) = curproc s"
  "proc_getas (cm_upd i f s) = proc_getas s" "cur_entries (cm_upd i f s) = cur_entries s"
  "coremap (cm (cm_upd i f s)) = (coremap (cm s))[i := f (coremap (cm s) ! i)]"
  "nRamFrames (cm (cm_upd i f s)) = nRamFrames (cm s)"
  "firstFreeFrame (cm (cm_upd i f s)) = firstFreeFrame (cm s)"
  "next_victim (cm (cm_upd i f s)) = next_victim (cm s)"
  "allocTableActive (cm (cm_upd i f s)) = allocTableActive (cm s)"
  by (simp_all add: cm_upd_def)

lemma cm_wf_cm_upd [simp]: "cm_wf (cm (cm_upd i f s)) = cm_wf (cm s)"
  by (simp add: cm_wf_def)

section \<open>The invariant\<close>

text \<open>
  \<open>stored v k\<close> is the page the swap file \<open>v\<close> holds in its \<open>k\<close>-th slot.
  \<open>page_store_ok\<close> is what the code relies on: a write that reports no error stores the
  page and no other slot changes, and a read that reports no error returns what is stored.
\<close>

definition slot_pos :: "nat \<Rightarrow> int" where
  "slot_pos k = int k * int PAGE_SIZE"

definition page_store_ok :: "('v, 'p) vnode_ops \<Rightarrow> ('v \<Rightarrow> nat \<Rightarrow> 'p option) \<Rightarrow> bool" where
  "page_store_ok ops stored \<longleftrightarrow>
     (\<forall>v k p v'. vop_write ops v (slot_pos k) p = (0, v') \<longrightarrow> stored v' = (stored v)(k \<mapsto> p)) \<and>
     (\<forall>v k p err v' j. vop_write ops v (slot_pos k) p = (err, v') \<longrightarrow> j \<noteq> k \<longrightarrow> stored v' j = stored v j) \<and>
     (\<forall>v k old err p v'. vop_read ops v (slot_pos k) old = (err, p, v') \<longrightarrow> stored v' = stored v) \<and>
     (\<forall>v k old p v' q. vop_read ops v (slot_pos k) old = (0, p, v') \<longrightarrow> stored v k = Some q \<longrightarrow> p = q)"

lemma page_store_write:
  "page_store_ok ops stored \<Longrightarrow> vop_write ops v (slot_pos k) p = (0, v') \<Longrightarrow>
   stored v' = (stored v)(k \<mapsto> p)"
  unfolding page_store_ok_def by metis

lemma page_store_read_frame:
  "page_store_ok ops stored \<Longrightarrow> vop_read ops v (slot_pos k) old = (err, p, v') \<Longrightarrow> stored v' = stored v"
  unfolding page_store_ok_def by blast

lemma page_store_read:
  "page_store_ok ops stored \<Longrightarrow> vop_read ops v (slot_pos k) old = (0, p, v') \<Longrightarrow>
   stored v k = Some q \<Longrightarrow> p = q"
  unfolding page_store_ok_def by blast

text \<open>A frame of memory that a page-table entry uses.\<close>

definition frame_mapped :: "coremap_st \<Rightarrow> nat set \<Rightarrow> ptentry \<Rightarrow> bool" where
  "frame_mapped c X e \<longleftrightarrow>
     firstFreeFrame c \<le> ppage_index e \<and> ppage_index e < nRamFrames c \<and> ppage_index e \<notin> X \<and>
     status (coremap c ! ppage_index e) = DIRTY \<and>
     ce_vaddr (coremap c ! ppage_index e) = pte_vaddr e \<and>
     ce_paddr (coremap c ! ppage_index e) = frame_addr (ppage_index e)"

definition slot_used :: "('v \<Rightarrow> nat \<Rightarrow> 'p option) \<Rightarrow> 'v swap_st \<Rightarrow> ptentry \<Rightarrow> bool" where
  "slot_used stored w e \<longleftrightarrow> swap_index e < SWAPSLOTS \<and> \<not> swaptable w (swap_index e) \<and>
     stored (swapspace w) (swap_index e) \<noteq> None"

definition tlb_maps :: "tlb_st \<Rightarrow> ptentry list \<Rightarrow> bool" where
  "tlb_maps t es \<longleftrightarrow> (\<forall>i < NUM_TLB. tlb_valid t i \<longrightarrow>
     (\<exists>e \<in> set es. \<not> swapped e \<and> pte_vaddr e = fst (tlb_entry t i) \<and>
        snd (tlb_entry t i) = tlb_lo (frame_addr (ppage_index e))))"

text \<open>
  The invariant. Every page of the process is in a frame of its own or in a used swap slot
  of its own; every \<open>DIRTY\<close> frame belongs to such a page, except the frames \<open>X\<close> that
  have been taken and not yet been entered in the page table; the TLB maps only pages that
  are in memory, to their frames.
\<close>

definition vm_inv :: "('v \<Rightarrow> nat \<Rightarrow> 'p option) \<Rightarrow> nat set \<Rightarrow> ('v, 'p) vm \<Rightarrow> bool" where
  "vm_inv stored X s \<longleftrightarrow>
     cm_wf (cm s) \<and> pt_wf (cur_entries s) \<and> tlb_wf (tlb s) \<and> tlb_maps (tlb s) (cur_entries s) \<and>
     (\<forall>e \<in> set (cur_entries s). \<not> swapped e \<longrightarrow> frame_mapped (cm s) X e) \<and>
     (\<forall>e \<in> set (cur_entries s). swapped e \<longrightarrow> slot_used stored (sw s) e) \<and>
     (\<forall>e \<in> set (cur_entries s). \<forall>e' \<in> set (cur_entries s). swapped e \<longrightarrow> swapped e' \<longrightarrow>
        swap_index e = swap_index e' \<longrightarrow> e = e') \<and>
     (\<forall>i. firstFreeFrame (cm s) \<le> i \<longrightarrow> i < nRamFrames (cm s) \<longrightarrow> i \<notin> X \<longrightarrow>
        status (coremap (cm s) ! i) = DIRTY \<longrightarrow> (\<exists>e \<in> set (cur_entries s). \<not> swapped e \<and> ppage_index e = i)) \<and>
     (\<forall>i \<in> X. firstFreeFrame (cm s) \<le> i \<and> i < nRamFrames (cm s) \<and> status (coremap (cm s) ! i) = DIRTY)"

lemma vm_invI:
  assumes "cm_wf (cm s)" and "pt_wf (cur_entries s)" and "tlb_wf (tlb s)"
    and "tlb_maps (tlb s) (cur_entries s)"
    and "\<And>e. e \<in> set (cur_entries s) \<Longrightarrow> \<not> swapped e \<Longrightarrow> frame_mapped (cm s) X e"
    and "\<And>e. e \<in> set (cur_entries s) \<Longrightarrow> swapped e \<Longrightarrow> slot_used stored (sw s) e"
    and "\<And>e e'. e \<in> set (cur_entries s) \<Longrightarrow> e' \<in> set (cur_entries s) \<Longrightarrow> swapped e \<Longrightarrow> swapped e' \<Longrightarrow>
       swap_index e = swap_index e' \<Longrightarrow> e = e'"
    and "\<And>i. firstFreeFrame (cm s) \<le> i \<Longrightarrow> i < nRamFrames (cm s) \<Longrightarrow> i \<notin> X \<Longrightarrow>
       status (coremap (cm s) ! i) = DIRTY \<Longrightarrow> \<exists>e \<in> set (cur_entries s). \<not> swapped e \<and> ppage_index e = i"
    and "\<And>i. i \<in> X \<Longrightarrow> firstFreeFrame (cm s) \<le> i \<and> i < nRamFrames (cm s) \<and> status (coremap (cm s) ! i) = DIRTY"
  shows "vm_inv stored X s"
  unfolding vm_inv_def by (intro conjI ballI allI impI; (rule assms; assumption)?) (use assms(9) in auto)

text \<open>The memory the process sees: the contents of each of its pages, wherever they are.\<close>

definition pte_content :: "('v \<Rightarrow> nat \<Rightarrow> 'p option) \<Rightarrow> ('v, 'p) vm \<Rightarrow> ptentry \<Rightarrow> 'p option" where
  "pte_content stored s e =
     (if swapped e then stored (swapspace (sw s)) (swap_index e) else Some (mem s (ppage_index e)))"

definition user_view :: "('v \<Rightarrow> nat \<Rightarrow> 'p option) \<Rightarrow> ('v, 'p) vm \<Rightarrow> vaddr_t \<Rightarrow> 'p option" where
  "user_view stored s page =
     (case List.find (\<lambda>e. pte_vaddr e = page) (cur_entries s) of
        None \<Rightarrow> None | Some e \<Rightarrow> pte_content stored s e)"

section \<open>The view of the process\<close>

lemma find_page:
  assumes "pt_wf es" and "k < length es"
  shows "List.find (\<lambda>e. pte_vaddr e = pte_vaddr (es ! k)) es = Some (es ! k)"
proof -
  have "pte_vaddr (es ! j) \<noteq> pte_vaddr (es ! k)" if "j < k" for j
    using pt_wf_inj [OF assms(1), of j k] assms(2) that by auto
  with assms(2) show ?thesis by (auto simp: find_Some_iff)
qed

lemma user_view_nth:
  assumes "pt_wf (cur_entries s)" and "k < length (cur_entries s)"
  shows "user_view stored s (pte_vaddr (cur_entries s ! k)) = pte_content stored s (cur_entries s ! k)"
  by (simp add: user_view_def find_page [OF assms])

lemma user_view_None: "page \<notin> pte_vaddr ` set (cur_entries s) \<Longrightarrow> user_view stored s page = None"
  by (auto simp: user_view_def find_Some_iff split: option.split)

lemma user_view_eqI:
  assumes wf: "pt_wf (cur_entries s)" "pt_wf (cur_entries s')"
    and pages: "map pte_vaddr (cur_entries s') = map pte_vaddr (cur_entries s)"
    and same: "\<And>k. k < length (cur_entries s) \<Longrightarrow>
      pte_content stored s' (cur_entries s' ! k) = pte_content stored s (cur_entries s ! k)"
  shows "user_view stored s' = user_view stored s"
proof
  fix page
  have set: "pte_vaddr ` set (cur_entries s') = pte_vaddr ` set (cur_entries s)"
    using pages by (metis list.set_map)
  show "user_view stored s' page = user_view stored s page"
  proof (cases "page \<in> pte_vaddr ` set (cur_entries s)")
    case True
    then obtain k where k: "k < length (cur_entries s)" "page = pte_vaddr (cur_entries s ! k)"
      by (metis (no_types, lifting) imageE in_set_conv_nth)
    have len: "length (cur_entries s') = length (cur_entries s)"
      using pages by (metis length_map)
    then have "pte_vaddr (cur_entries s' ! k) = page"
      using pages k by (metis nth_map)
    then have "user_view stored s' page = pte_content stored s' (cur_entries s' ! k)"
      using user_view_nth [OF wf(2), of k] len k(1) by simp
    then show ?thesis using user_view_nth [OF wf(1) k(1)] k same by simp
  next
    case False
    then show ?thesis using user_view_None set by metis
  qed
qed

lemma cur_entries_upd_pt:
  assumes "proc_getas s = Some as"
  shows "cur_entries (upd_pt f s) = pt_entries (f (as_pt as))"
  using assms by (simp add: cur_entries_def upd_pt_def)

end
