(* ===== verification/Swapfile.thy ===== *)
theory Swapfile
  imports VmState
begin

text \<open>
  \<open>kern/vm/swapfile.c\<close>: the swap table and the transfer of pages between memory and the
  swap file. \<open>vfs_open\<close>, \<open>vfs_close\<close> and the vnode operations are parameters.
\<close>

definition swap_init :: "int \<times> 'v \<Rightarrow> ('v, 'p) vm \<Rightarrow> ('v, 'p) vm res" where
  "swap_init vfs_open_result s =
     (case vfs_open_result of (res, v) \<Rightarrow>
        if res \<noteq> 0 then Inl (Panic ''CAN'T OPEN SWAP FILE'')
        else Inr (s\<lparr>sw := \<lparr>swaptable = (\<lambda>i. i < SWAPSLOTS \<or> swaptable (sw s) i), swapspace = v\<rparr>\<rparr>))"

definition write_page :: "('v, 'p) vnode_ops \<Rightarrow> nat \<Rightarrow> paddr_t \<Rightarrow> ('v, 'p) vm \<Rightarrow> int \<times> ('v, 'p) vm" where
  "write_page ops index page s =
     (case vop_write ops (swapspace (sw s)) (slot_pos index) (mem s (addr_frame page)) of (err, v) \<Rightarrow>
        (err, s\<lparr>sw := (sw s)\<lparr>swapspace := v\<rparr>\<rparr>))"

definition read_page :: "('v, 'p) vnode_ops \<Rightarrow> nat \<Rightarrow> paddr_t \<Rightarrow> ('v, 'p) vm \<Rightarrow> int \<times> ('v, 'p) vm" where
  "read_page ops index page s =
     (case vop_read ops (swapspace (sw s)) (slot_pos index) (mem s (addr_frame page)) of (err, p, v) \<Rightarrow>
        (err, s\<lparr>sw := (sw s)\<lparr>swapspace := v\<rparr>, mem := (mem s)(addr_frame page := p)\<rparr>))"

definition set_slot :: "nat \<Rightarrow> bool \<Rightarrow> ('v, 'p) vm \<Rightarrow> ('v, 'p) vm" where
  "set_slot index b s = s\<lparr>sw := (sw s)\<lparr>swaptable := (swaptable (sw s))(index := b)\<rparr>\<rparr>"

text \<open>\<open>swap_out\<close> takes the first empty slot, and marks it used even when the write fails.\<close>

definition swap_out :: "('v, 'p) vnode_ops \<Rightarrow> paddr_t \<Rightarrow> ('v, 'p) vm \<Rightarrow> (int \<times> ('v, 'p) vm) res" where
  "swap_out ops page s =
     (case List.find (\<lambda>i. swaptable (sw s) i) [0..<SWAPSLOTS] of
        None \<Rightarrow> Inl (Panic ''no more space in the swap file'')
      | Some index \<Rightarrow>
          (case write_page ops index page s of (err, s1) \<Rightarrow>
             let s2 = set_slot index False s1 in
             if err \<noteq> 0 then Inr (-1, s2)
             else Inr (int index,
                       s2\<lparr>stats := (stats s2)\<lparr>swapfile_writes := swapfile_writes (stats s2) + 1\<rparr>\<rparr>)))"

definition swap_in :: "('v, 'p) vnode_ops \<Rightarrow> nat \<Rightarrow> paddr_t \<Rightarrow> ('v, 'p) vm \<Rightarrow> (int \<times> ('v, 'p) vm) res" where
  "swap_in ops index paddr s =
     (case read_page ops index paddr s of (err, s1) \<Rightarrow>
        if err \<noteq> 0 then Inr (-1, s1)
        else if SWAPSLOTS \<le> index then Inl (Undefined ''swaptable index'')
        else Inr (0, set_slot index True s1))"

definition swap_unmark :: "nat \<Rightarrow> ('v, 'p) vm \<Rightarrow> ('v, 'p) vm res" where
  "swap_unmark index s =
     (if SWAPSLOTS \<le> index then Inl (Undefined ''swaptable index'')
      else kbind (kassert (\<not> swaptable (sw s) index) ''swaptable[index].empty == 0'') (\<lambda>_.
           Inr (set_slot index True s)))"

definition swap_dealloc :: "('v \<Rightarrow> 'v) \<Rightarrow> ('v, 'p) vm \<Rightarrow> ('v, 'p) vm" where
  "swap_dealloc vfs_close s = s\<lparr>sw := (sw s)\<lparr>swapspace := vfs_close (swapspace (sw s))\<rparr>\<rparr>"

section \<open>What the transfers do\<close>

lemma set_slot_simps [simp]:
  "ram (set_slot i b s) = ram s" "cm (set_slot i b s) = cm s" "tlb (set_slot i b s) = tlb s"
  "stats (set_slot i b s) = stats s" "mem (set_slot i b s) = mem s" "curproc (set_slot i b s) = curproc s"
  "proc_getas (set_slot i b s) = proc_getas s" "cur_entries (set_slot i b s) = cur_entries s"
  "swaptable (sw (set_slot i b s)) = (swaptable (sw s))(i := b)"
  "swapspace (sw (set_slot i b s)) = swapspace (sw s)"
  by (simp_all add: set_slot_def)

text \<open>A successful \<open>swap_out\<close>: the page is in a slot that was empty, everything else but the
  counter is as before.\<close>

lemma swap_out_ok:
  assumes "page_store_ok ops stored" and "swap_out ops page s = Inr (r, s')" and "0 \<le> r"
  obtains j v where "r = int j" "j < SWAPSLOTS" "swaptable (sw s) j"
    "stored v = (stored (swapspace (sw s)))(j \<mapsto> mem s (addr_frame page))"
    "s' = s\<lparr>sw := \<lparr>swaptable = (swaptable (sw s))(j := False), swapspace = v\<rparr>,
            stats := (stats s)\<lparr>swapfile_writes := swapfile_writes (stats s) + 1\<rparr>\<rparr>"
proof -
  obtain j where j: "List.find (\<lambda>i. swaptable (sw s) i) [0..<SWAPSLOTS] = Some j"
    using assms(2) by (auto simp: swap_out_def split: option.splits)
  obtain err v where w: "vop_write ops (swapspace (sw s)) (slot_pos j) (mem s (addr_frame page)) = (err, v)"
    by fastforce
  have "err = 0"
    using assms(2,3) j w by (auto simp: swap_out_def write_page_def Let_def split: if_splits)
  moreover have "stored v = (stored (swapspace (sw s)))(j \<mapsto> mem s (addr_frame page))"
    using page_store_write [OF assms(1)] w \<open>err = 0\<close> by simp
  moreover have "j < SWAPSLOTS" "swaptable (sw s) j"
    using j by (simp_all add: find_upt_Some_iff)
  ultimately show thesis
    using j w assms(2) that [of j v] by (auto simp: swap_out_def write_page_def set_slot_def)
qed

lemma swap_out_panics_iff:
  "swap_out ops page s = Inl e \<longleftrightarrow>
     e = Panic ''no more space in the swap file'' \<and> (\<forall>i < SWAPSLOTS. \<not> swaptable (sw s) i)"
  by (auto simp: swap_out_def find_upt_None_iff find_upt_Some_iff Let_def
      split: option.splits prod.splits if_splits)

text \<open>A successful \<open>swap_in\<close> of a slot that holds a page: the frame holds the page and the
  slot is empty again.\<close>

lemma swap_in_ok:
  assumes "page_store_ok ops stored" and "swap_in ops j paddr s = Inr (0, s')"
    and "stored (swapspace (sw s)) j = Some p"
  obtains v where "stored v = stored (swapspace (sw s))" "j < SWAPSLOTS"
    "s' = s\<lparr>sw := \<lparr>swaptable = (swaptable (sw s))(j := True), swapspace = v\<rparr>,
            mem := (mem s)(addr_frame paddr := p)\<rparr>"
proof -
  obtain err q v where r: "vop_read ops (swapspace (sw s)) (slot_pos j) (mem s (addr_frame paddr)) = (err, q, v)"
    by (metis prod_cases3)
  have "err = 0" "j < SWAPSLOTS"
    using assms(2) r by (auto simp: swap_in_def read_page_def split: if_splits)
  moreover have "stored v = stored (swapspace (sw s))"
    using page_store_read_frame [OF assms(1) r] .
  moreover have "q = p"
    using page_store_read [OF assms(1) _ assms(3)] r \<open>err = 0\<close> by simp
  ultimately show thesis
    using assms(2) r that [of v] by (auto simp: swap_in_def read_page_def set_slot_def)
qed

end
