(* ===== verification/VmAlloc.thy ===== *)
theory VmAlloc
  imports Swapfile
begin

text \<open>
  The frame allocator of \<open>kern/arch/mips/vm/vm.c\<close>: frames for user pages
  (\<open>getuserppage\<close>, \<open>freeuserppage\<close>), runs of frames for the kernel heap
  (\<open>getppages\<close>, \<open>alloc_kpages\<close>, \<open>free_kpages\<close>), and the eviction of pages to the
  swap file when no frame is free.
\<close>

section \<open>Definitions\<close>

definition isTableActive :: "('v, 'p) vm \<Rightarrow> bool" where
  "isTableActive s = allocTableActive (cm s)"

definition vm_bootstrap :: "('v, 'p) vm \<Rightarrow> ('v, 'p) vm" where
  "vm_bootstrap s = s"

definition dumbvm_can_sleep :: "('v, 'p) vm \<Rightarrow> unit res" where
  "dumbvm_can_sleep s =
     (if curcpu_exists s
      then kbind (kassert (c_spinlocks s = 0) ''curcpu->c_spinlocks == 0'') (\<lambda>_.
           kassert (\<not> t_in_interrupt s) ''curthread->t_in_interrupt == 0'')
      else Inr ())"

definition vm_tlbshootdown :: "('v, 'p) vm \<Rightarrow> ('v, 'p) vm res" where
  "vm_tlbshootdown s = Inl (Panic ''dumbvm tried to do tlb shootdown?!'')"

definition tlb_invalidate_entry :: "vaddr_t \<Rightarrow> ('v, 'p) vm \<Rightarrow> ('v, 'p) vm" where
  "tlb_invalidate_entry remove_vaddr s =
     (let index = tlb_probe remove_vaddr (tlb s) in
      if index \<ge> 0
      then s\<lparr>tlb := tlb_write (TLBHI_INVALID (nat index)) TLBLO_INVALID (nat index) (tlb s),
             stats := (stats s)\<lparr>tlb_invalidation := tlb_invalidation (stats s) + 1\<rparr>\<rparr>
      else s)"

definition frame_free :: "coremap_entry \<Rightarrow> bool" where
  "frame_free e \<longleftrightarrow> status e = CLEAN \<or> status e = FREE"

text \<open>
  The eviction of the page in one frame, the part that \<open>getuserppage\<close> and the loop of
  \<open>getppages\<close> share: find its entry in the page table of the current process, write the
  page to the swap file, mark the entry swapped and drop its TLB entry.
\<close>

definition evict_frame :: "('v, 'p) vnode_ops \<Rightarrow> int \<Rightarrow> ('v, 'p) vm \<Rightarrow> ('v, 'p) vm res" where
  "evict_frame ops victim s =
     (case proc_getas s of
        None \<Rightarrow> Inl (Undefined ''as is NULL'')
      | Some as \<Rightarrow>
          kbind (cm_at victim s) (\<lambda>e.
          let vvaddr = ce_vaddr e in
          (case pt_search (as_pt as) vvaddr of
             None \<Rightarrow> Inl (Assert ''ptvictim != NULL'')
           | Some k \<Rightarrow>
               let ptvictim = pt_entries (as_pt as) ! k in
               kbind (kassert (int (ppage_index ptvictim) = victim) ''ptvictim->ppage_index == victim'') (\<lambda>_.
               kbind (kassert (pte_vaddr ptvictim = vvaddr) ''ptvictim->vaddr == vvaddr'') (\<lambda>_.
               kbind (swap_out ops (ce_paddr e) s) (\<lambda>(swapix, s1).
               kbind (kassert (swapix \<ge> 0) ''swap_index >= 0'') (\<lambda>_.
               Inr (tlb_invalidate_entry (pte_vaddr ptvictim)
                      (upd_pt (pte_update k (\<lambda>pte. pte\<lparr>swapped := True, swap_index := nat swapix\<rparr>)) s1)))))))))"

definition getuserppage :: "('v, 'p) vnode_ops \<Rightarrow> ('v, 'p) vm \<Rightarrow> (paddr_t \<times> ('v, 'p) vm) res" where
  "getuserppage ops s =
     (if \<not> isTableActive s then Inl (Panic ''getuserppage called while table not active'')
      else
        kbind
          (case List.find (\<lambda>i. frame_free (coremap (cm s) ! i)) [firstFreeFrame (cm s)..<nRamFrames (cm s)] of
             Some victim \<Rightarrow> Inr (int victim, s)
           | None \<Rightarrow>
               kbind (coremap_victim_selection 1 (cm s)) (\<lambda>(victim, cs).
               kbind (evict_frame ops victim (s\<lparr>cm := cs\<rparr>)) (\<lambda>s1.
               Inr (victim, s1))))
          (\<lambda>(victim, s1).
             Inr (frame_addr (nat victim),
                  cm_upd (nat victim) (\<lambda>e. e\<lparr>status := DIRTY, ce_paddr := frame_addr (nat victim), ce_size := 1\<rparr>) s1)))"

text \<open>The search for \<open>npages\<close> consecutive free frames: \<open>freePages\<close> at the end of the loop and
  the index of the run.\<close>

function free_run :: "coremap_entry list \<Rightarrow> nat \<Rightarrow> nat \<Rightarrow> nat \<Rightarrow> nat \<Rightarrow> nat \<times> nat option" where
  "free_run c n npages i freePages =
     (if i < n then
        (let fp = (if frame_free (c ! i) then freePages + 1 else 0) in
         if fp = npages then (fp, Some (i + 1 - npages))
         else free_run c n npages (Suc i) fp)
      else (freePages, None))"
  by pat_completeness auto
termination
  by (relation "measure (\<lambda>(c, n, npages, i, fp). n - i)") auto

declare free_run.simps [simp del]

text \<open>The loop that swaps the frames \<open>victim + i\<close>, \<open>\<dots>\<close>, \<open>victim + npages - 1\<close> out.\<close>

fun evict_run :: "('v, 'p) vnode_ops \<Rightarrow> int \<Rightarrow> nat \<Rightarrow> ('v, 'p) vm \<Rightarrow> ('v, 'p) vm res" where
  "evict_run ops victim 0 s = Inr s"
| "evict_run ops victim (Suc m) s =
     kbind (evict_frame ops victim s) (\<lambda>s1.
     evict_run ops (victim + 1) m (cm_upd (nat victim) (\<lambda>e. e\<lparr>status := FIXED\<rparr>) s1))"

definition getppages :: "('v, 'p) vnode_ops \<Rightarrow> nat \<Rightarrow> ('v, 'p) vm \<Rightarrow> (paddr_t \<times> ('v, 'p) vm) res" where
  "getppages ops npages s =
     (if \<not> isTableActive s
      then (case ram_stealmem npages (ram s) of (paddr, r) \<Rightarrow> Inr (paddr, s\<lparr>ram := r\<rparr>))
      else
        (case free_run (coremap (cm s)) (nRamFrames (cm s)) npages (firstFreeFrame (cm s)) 0 of
           (freePages, run) \<Rightarrow>
             kbind
               (if freePages \<noteq> npages
                then kbind (coremap_victim_selection npages (cm s)) (\<lambda>(victim, cs).
                     kbind (evict_run ops victim npages (s\<lparr>cm := cs\<rparr>)) (\<lambda>s1.
                     Inr (nat victim, s1)))
                else Inr (case run of Some index \<Rightarrow> index | None \<Rightarrow> 0, s))
               (\<lambda>(index, s1).
                  let paddr = frame_addr index in
                  Inr (paddr,
                    cm_upd index (\<lambda>e. e\<lparr>ce_size := npages, ce_paddr := paddr,
                        ce_vaddr := PADDR_TO_KVADDR paddr, status := FIXED\<rparr>) s1))))"

definition freeuserppage :: "paddr_t \<Rightarrow> ('v, 'p) vm \<Rightarrow> ('v, 'p) vm res" where
  "freeuserppage addr s =
     kbind (kassert (unat addr mod PAGE_SIZE = 0) ''(addr % PAGE_SIZE) == 0'') (\<lambda>_.
     let index = addr_frame addr in
     kbind (cm_at (int index) s) (\<lambda>e.
     kbind (kassert (status e \<noteq> FIXED) ''coremap[index].status != FIXED'') (\<lambda>_.
     Inr (cm_upd index (\<lambda>e. e\<lparr>status := FREE, ce_size := 0, ce_vaddr := 0, ce_paddr := 0\<rparr>) s))))"

definition alloc_kpages :: "('v, 'p) vnode_ops \<Rightarrow> nat \<Rightarrow> ('v, 'p) vm \<Rightarrow> (vaddr_t \<times> ('v, 'p) vm) res" where
  "alloc_kpages ops npages s =
     kbind (dumbvm_can_sleep s) (\<lambda>_.
     kbind (getppages ops npages s) (\<lambda>(pa, s1).
     Inr (if pa = 0 then 0 else PADDR_TO_KVADDR pa, s1)))"

text \<open>The loop of \<open>free_kpages\<close>, over \<open>size\<close> frames from \<open>first\<close>.\<close>

fun free_frames :: "nat \<Rightarrow> nat \<Rightarrow> ('v, 'p) vm \<Rightarrow> ('v, 'p) vm res" where
  "free_frames first 0 s = Inr s"
| "free_frames first (Suc m) s =
     (if first < length (coremap (cm s))
      then free_frames (Suc first) m (cm_upd first (\<lambda>e. e\<lparr>status := FREE, ce_size := 0\<rparr>) s)
      else Inl (Undefined ''coremap index''))"

definition free_kpages :: "vaddr_t \<Rightarrow> ('v, 'p) vm \<Rightarrow> ('v, 'p) vm res" where
  "free_kpages addr s =
     (if \<not> isTableActive s then Inr s
      else
        let paddr = addr - MIPS_KSEG0 in
        kbind (kassert (coremap (cm s) \<noteq> []) ''coremap != NULL'') (\<lambda>_.
        kbind (kassert (unat paddr mod PAGE_SIZE = 0) ''paddr % PAGE_SIZE == 0'') (\<lambda>_.
        let first = addr_frame paddr in
        kbind (kassert (nRamFrames (cm s) > first) ''nRamFrames > first'') (\<lambda>_.
        free_frames first (ce_size (coremap (cm s) ! first)) s))))"

section \<open>One frame of the table\<close>

text \<open>
  A frame that no page uses can be given any state: it is taken when it becomes
  \<open>DIRTY\<close>, and given back (or handed to the kernel) otherwise.
\<close>

lemma vm_inv_unused_frame:
  assumes "vm_inv stored X s" and "e \<in> set (cur_entries s)" and "\<not> swapped e"
    and "f \<in> X \<or> status (coremap (cm s) ! f) \<noteq> DIRTY"
  shows "ppage_index e \<noteq> f"
  using assms unfolding vm_inv_def frame_mapped_def by blast

lemma frame_mapped_upd:
  assumes "frame_mapped (cm s) X e" and "ppage_index e \<noteq> f" and "X' \<subseteq> insert f X"
  shows "frame_mapped (cm (cm_upd f g s)) X' e"
  using assms by (auto simp: frame_mapped_def)

lemma vm_inv_frame_update:
  assumes inv: "vm_inv stored X s" and f: "firstFreeFrame (cm s) \<le> f" "f < nRamFrames (cm s)"
    and unused: "f \<in> X \<or> status (coremap (cm s) ! f) \<noteq> DIRTY"
    and X': "X' = (if status (g (coremap (cm s) ! f)) = DIRTY then insert f X else X - {f})"
  shows "vm_inv stored X' (cm_upd f g s)"
proof -
  have len: "f < length (coremap (cm s))"
    using inv f by (simp add: vm_inv_def cm_wf_def)
  have sub: "X' \<subseteq> insert f X" using X' by auto
  have mapped: "frame_mapped (cm (cm_upd f g s)) X' e" if "e \<in> set (cur_entries s)" "\<not> swapped e" for e
    using inv that vm_inv_unused_frame [OF inv that unused]
    by (intro frame_mapped_upd [OF _ _ sub]) (auto simp: vm_inv_def)
  have dirty: "\<exists>e \<in> set (cur_entries s). \<not> swapped e \<and> ppage_index e = i"
    if "firstFreeFrame (cm s) \<le> i" "i < nRamFrames (cm s)" "i \<notin> X'"
      "status ((coremap (cm s))[f := g (coremap (cm s) ! f)] ! i) = DIRTY" for i
  proof -
    have "i \<noteq> f" using that X' len by auto
    then have "i \<notin> X" "status (coremap (cm s) ! i) = DIRTY" using that X' by (auto split: if_splits)
    then show ?thesis using inv that(1,2) by (simp add: vm_inv_def)
  qed
  have taken: "firstFreeFrame (cm s) \<le> i \<and> i < nRamFrames (cm s) \<and>
      status ((coremap (cm s))[f := g (coremap (cm s) ! f)] ! i) = DIRTY" if "i \<in> X'" for i
    using that inv X' f len by (cases "i = f") (auto simp: vm_inv_def split: if_splits)
  show ?thesis
    using inv mapped dirty taken by (simp add: vm_inv_def)
qed

lemma user_view_cm_upd [simp]: "user_view stored (cm_upd f g s) = user_view stored s"
  by (rule ext) (simp add: user_view_def pte_content_def split: option.split)

section \<open>What the allocator leaves alone\<close>

text \<open>
  The allocator may move pages to the swap file. It does not add or remove pages, it does not
  touch the entry of a page that is swapped out already, and of the counters it changes the
  two of the swap file and the TLB invalidations only.
\<close>

definition pages_kept :: "ptentry list \<Rightarrow> ptentry list \<Rightarrow> bool" where
  "pages_kept = list_all2 (\<lambda>e e'. pte_vaddr e' = pte_vaddr e \<and> pte_ptr e' = pte_ptr e \<and> (swapped e \<longrightarrow> e' = e))"

definition stats_kept :: "stats_t \<Rightarrow> stats_t \<Rightarrow> bool" where
  "stats_kept st st' \<longleftrightarrow> tlb_faults st' = tlb_faults st \<and> tlb_faults_w_free st' = tlb_faults_w_free st \<and>
     tlb_faults_w_replace st' = tlb_faults_w_replace st \<and> tlb_reloads st' = tlb_reloads st \<and>
     page_faults_zero st' = page_faults_zero st \<and> page_faults_disk st' = page_faults_disk st \<and>
     page_faults_elf st' = page_faults_elf st \<and> page_faults_swapfile st' = page_faults_swapfile st"

definition evolves :: "('v, 'p) vm \<Rightarrow> ('v, 'p) vm \<Rightarrow> bool" where
  "evolves s s' \<longleftrightarrow> pages_kept (cur_entries s) (cur_entries s') \<and> stats_kept (stats s) (stats s') \<and>
     map_option as_frame (proc_getas s') = map_option as_frame (proc_getas s) \<and>
     (curproc s' = None \<longleftrightarrow> curproc s = None) \<and> ram s' = ram s \<and>
     nRamFrames (cm s') = nRamFrames (cm s) \<and> firstFreeFrame (cm s') = firstFreeFrame (cm s) \<and>
     curcpu_exists s' = curcpu_exists s \<and> c_spinlocks s' = c_spinlocks s \<and>
     t_in_interrupt s' = t_in_interrupt s"

lemma pages_kept_refl [simp]: "pages_kept es es"
  by (simp add: pages_kept_def list_all2_refl)

lemma pages_kept_trans: "pages_kept a b \<Longrightarrow> pages_kept b c \<Longrightarrow> pages_kept a c"
  unfolding pages_kept_def by (rule list_all2_trans) auto

lemma pages_kept_nth:
  "pages_kept es es' \<Longrightarrow> k < length es \<Longrightarrow>
     length es' = length es \<and> pte_vaddr (es' ! k) = pte_vaddr (es ! k) \<and> (swapped (es ! k) \<longrightarrow> es' ! k = es ! k)"
  by (auto simp: pages_kept_def list_all2_conv_all_nth)

lemma pages_kept_vaddrs: "pages_kept es es' \<Longrightarrow> map pte_vaddr es' = map pte_vaddr es"
  by (auto simp: pages_kept_def list_all2_conv_all_nth intro!: nth_equalityI)

lemma stats_kept_refl [simp]: "stats_kept st st"
  by (simp add: stats_kept_def)

lemma stats_kept_trans: "stats_kept a b \<Longrightarrow> stats_kept b c \<Longrightarrow> stats_kept a c"
  by (auto simp: stats_kept_def)

lemma stats_kept_consistent: "stats_kept st st' \<Longrightarrow> stats_consistent st' = stats_consistent st"
  by (auto simp: stats_kept_def stats_consistent_def)

lemma evolves_refl [simp]: "evolves s s"
  by (simp add: evolves_def)

lemma evolves_trans [trans]: "evolves a b \<Longrightarrow> evolves b c \<Longrightarrow> evolves a c"
  unfolding evolves_def by (metis pages_kept_trans stats_kept_trans)

lemma evolves_cm_upd [simp]: "evolves s (cm_upd f g s)"
  by (simp add: evolves_def) (simp add: cm_upd_def)

section \<open>Evicting a page\<close>

lemma tlb_probe_page:
  assumes "tlb_wf t" and "page_aligned v"
  shows "tlb_probe v t = (case List.find (\<lambda>i. fst (tlb_entry t i) = v) [0..<NUM_TLB] of
           Some i \<Rightarrow> int i | None \<Rightarrow> -1)"
proof -
  have "List.find (\<lambda>i. fst (tlb_entry t i) AND TLBHI_VPAGE = v AND TLBHI_VPAGE) [0..<NUM_TLB] =
        List.find (\<lambda>i. fst (tlb_entry t i) = v) [0..<NUM_TLB]"
    using assms by (intro find_cong) (auto simp: tlb_wf_def page_aligned_def)
  then show ?thesis by (simp add: tlb_probe_def)
qed

lemma tlb_invalidate_entry_simps [simp]:
  "ram (tlb_invalidate_entry v s) = ram s" "cm (tlb_invalidate_entry v s) = cm s"
  "sw (tlb_invalidate_entry v s) = sw s" "mem (tlb_invalidate_entry v s) = mem s"
  "curproc (tlb_invalidate_entry v s) = curproc s" "proc_getas (tlb_invalidate_entry v s) = proc_getas s"
  "cur_entries (tlb_invalidate_entry v s) = cur_entries s"
  "curcpu_exists (tlb_invalidate_entry v s) = curcpu_exists s"
  "c_spinlocks (tlb_invalidate_entry v s) = c_spinlocks s"
  "t_in_interrupt (tlb_invalidate_entry v s) = t_in_interrupt s"
  "stats_kept (stats s) (stats (tlb_invalidate_entry v s))"
  by (simp_all add: tlb_invalidate_entry_def Let_def stats_kept_def proc_getas_def cur_entries_def)

lemma tlb_invalidate_entry_wf:
  assumes "tlb_wf (tlb s)" and "page_aligned v" and "v < MIPS_KSEG0"
  shows "tlb_wf (tlb (tlb_invalidate_entry v s))"
  using assms
  by (auto simp: tlb_invalidate_entry_def tlb_probe_page find_upt_Some_iff Let_def
      intro!: tlb_wf_write_invalid split: option.split)

text \<open>The entries that stay valid are those of the other pages.\<close>

lemma tlb_invalidate_entry_valid:
  assumes "tlb_wf (tlb s)" and "page_aligned v" and "v < MIPS_KSEG0" and "i < NUM_TLB"
    and "tlb_valid (tlb (tlb_invalidate_entry v s)) i"
  shows "tlb_valid (tlb s) i \<and> tlb_entry (tlb (tlb_invalidate_entry v s)) i = tlb_entry (tlb s) i \<and>
     fst (tlb_entry (tlb s) i) \<noteq> v"
proof (cases "List.find (\<lambda>i. fst (tlb_entry (tlb s) i) = v) [0..<NUM_TLB]")
  case None
  then have "tlb (tlb_invalidate_entry v s) = tlb s"
    using assms by (simp add: tlb_invalidate_entry_def tlb_probe_page)
  moreover have "fst (tlb_entry (tlb s) i) \<noteq> v"
    using None assms(4) by (auto simp: find_upt_None_iff)
  ultimately show ?thesis using assms(5) by simp
next
  case (Some k)
  have k: "k < NUM_TLB" "fst (tlb_entry (tlb s) k) = v"
    using Some by (auto simp: find_upt_Some_iff)
  have tlb': "tlb (tlb_invalidate_entry v s) = tlb_write (TLBHI_INVALID k) TLBLO_INVALID k (tlb s)"
    using Some assms by (simp add: tlb_invalidate_entry_def tlb_probe_page)
  have "i \<noteq> k" "tlb_valid (tlb s) i"
    using assms(5) unfolding tlb' by (auto simp: tlb_valid_write TLBLO_INVALID_def split: if_splits)
  moreover have "tlb_valid (tlb s) k" using assms k by (auto simp: tlb_wf_def)
  ultimately show ?thesis
    using assms(1,4) k unfolding tlb' by (auto simp: tlb_entry_write tlb_wf_def)
qed

text \<open>Two pages in memory are in different frames.\<close>

lemma vm_inv_frames_inj:
  assumes "vm_inv stored X s" and "i < length (cur_entries s)" and "k < length (cur_entries s)"
    and "\<not> swapped (cur_entries s ! i)" and "\<not> swapped (cur_entries s ! k)"
    and "ppage_index (cur_entries s ! i) = ppage_index (cur_entries s ! k)"
  shows "i = k"
proof -
  have "frame_mapped (cm s) X (cur_entries s ! i)" "frame_mapped (cm s) X (cur_entries s ! k)"
    using assms by (auto simp: vm_inv_def)
  then have "pte_vaddr (cur_entries s ! i) = pte_vaddr (cur_entries s ! k)"
    using assms(6) by (simp add: frame_mapped_def)
  then show ?thesis using pt_wf_inj assms by (auto simp: vm_inv_def)
qed

lemma set_list_update_cases:
  assumes "e \<in> set (es[k := x])"
  obtains "e = x" | i where "i < length es" "i \<noteq> k" "e = es ! i"
proof -
  obtain i where i: "i < length es" "es[k := x] ! i = e"
    using assms by (auto simp: in_set_conv_nth)
  then show thesis using that by (cases "i = k") auto
qed

lemma vm_inv_swap_entry:
  fixes s s' :: "('v, 'p) vm"
  assumes inv: "vm_inv stored X s" and k: "k < length (cur_entries s)"
    and e: "e = cur_entries s ! k" "\<not> swapped e"
    and j: "j < SWAPSLOTS" "swaptable (sw s) j"
    and es': "cur_entries s' = (cur_entries s)[k := e\<lparr>swapped := True, swap_index := j\<rparr>]"
    and same: "cm s' = cm s" "mem s' = mem s"
    and sw': "swaptable (sw s') = (swaptable (sw s))(j := False)"
      "stored (swapspace (sw s')) = (stored (swapspace (sw s)))(j \<mapsto> mem s (ppage_index e))"
    and tlb': "tlb_wf (tlb s')"
      "\<And>i. i < NUM_TLB \<Longrightarrow> tlb_valid (tlb s') i \<Longrightarrow> tlb_valid (tlb s) i \<and>
         tlb_entry (tlb s') i = tlb_entry (tlb s) i \<and> fst (tlb_entry (tlb s) i) \<noteq> pte_vaddr e"
  shows "vm_inv stored (insert (ppage_index e) X) s'" and "user_view stored s' = user_view stored s"
proof -
  let ?es = "cur_entries s" and ?new = "e\<lparr>swapped := True, swap_index := j\<rparr>"
  have wf: "pt_wf ?es" using inv by (simp add: vm_inv_def)
  then have wf': "pt_wf (cur_entries s')"
    unfolding es' using k e by (intro pt_wf_update) auto
  have mapped: "frame_mapped (cm s) X e" using inv e nth_mem [OF k] by (simp add: vm_inv_def)
  have free_j: "swap_index e' \<noteq> j" if "e' \<in> set ?es" "swapped e'" for e'
    using inv that j by (auto simp: vm_inv_def slot_used_def)
  have keep: "e' \<in> set (cur_entries s')" if e': "e' \<in> set ?es" "e' \<noteq> e" for e'
  proof -
    obtain i where i: "i < length ?es" "?es ! i = e'"
      using e'(1) by (auto simp: in_set_conv_nth)
    then have "i \<noteq> k" using e' e by auto
    then have "(cur_entries s') ! i = e'" "i < length (cur_entries s')"
      unfolding es' using i by simp_all
    then show ?thesis by (metis nth_mem)
  qed
  have fm: "frame_mapped (cm s') (insert (ppage_index e) X) e'"
    if "e' \<in> set (cur_entries s')" "\<not> swapped e'" for e'
    using that(1) unfolding es'
  proof (cases rule: set_list_update_cases)
    case 1
    then show ?thesis using that(2) by simp
  next
    case (2 i)
    then have "ppage_index e' \<noteq> ppage_index e"
      using vm_inv_frames_inj [OF inv, of i k] k e that(2) by auto
    moreover have "frame_mapped (cm s) X e'" using inv 2 that(2) by (simp add: vm_inv_def)
    ultimately show ?thesis by (simp add: frame_mapped_def same)
  qed
  have su: "slot_used stored (sw s') e'" if "e' \<in> set (cur_entries s')" "swapped e'" for e'
    using that(1) unfolding es'
  proof (cases rule: set_list_update_cases)
    case 1
    then show ?thesis using j by (simp add: slot_used_def sw')
  next
    case (2 i)
    then have "e' \<in> set ?es" by simp
    then have "slot_used stored (sw s) e'" "swap_index e' \<noteq> j"
      using inv that(2) free_j by (simp_all add: vm_inv_def)
    then show ?thesis by (simp add: slot_used_def sw')
  qed
  have inj: "e1 = e2" if "e1 \<in> set (cur_entries s')" "e2 \<in> set (cur_entries s')"
      "swapped e1" "swapped e2" "swap_index e1 = swap_index e2" for e1 e2
  proof -
    have "e1 = ?new \<or> e1 \<in> set ?es" "e2 = ?new \<or> e2 \<in> set ?es"
      using that(1,2) set_update_subset_insert [of ?es k ?new] unfolding es' by auto
    then show ?thesis
      using that(3-5) free_j [of e1] free_j [of e2] inv by (auto simp: vm_inv_def)
  qed
  have dirty: "\<exists>e' \<in> set (cur_entries s'). \<not> swapped e' \<and> ppage_index e' = i"
    if i: "firstFreeFrame (cm s) \<le> i" "i < nRamFrames (cm s)" "i \<notin> insert (ppage_index e) X"
      "status (coremap (cm s) ! i) = DIRTY" for i
  proof -
    have "\<exists>e' \<in> set ?es. \<not> swapped e' \<and> ppage_index e' = i"
      using inv i by (simp add: vm_inv_def)
    then show ?thesis using keep i(3) by blast
  qed
  have tm: "tlb_maps (tlb s') (cur_entries s')"
    unfolding tlb_maps_def
  proof (intro allI impI)
    fix i assume i: "i < NUM_TLB" "tlb_valid (tlb s') i"
    note old = tlb'(2) [OF i]
    then obtain e' where e': "e' \<in> set ?es" "\<not> swapped e'" "pte_vaddr e' = fst (tlb_entry (tlb s) i)"
      "snd (tlb_entry (tlb s) i) = tlb_lo (frame_addr (ppage_index e'))"
      using inv i by (auto simp: vm_inv_def tlb_maps_def)
    then have "e' \<noteq> e" using old by auto
    then show "\<exists>e \<in> set (cur_entries s'). \<not> swapped e \<and> pte_vaddr e = fst (tlb_entry (tlb s') i) \<and>
        snd (tlb_entry (tlb s') i) = tlb_lo (frame_addr (ppage_index e))"
      using keep e' old by auto
  qed
  have taken: "firstFreeFrame (cm s) \<le> i \<and> i < nRamFrames (cm s) \<and> status (coremap (cm s) ! i) = DIRTY"
    if "i \<in> insert (ppage_index e) X" for i
    using that inv mapped by (auto simp: vm_inv_def frame_mapped_def)
  have "cm_wf (cm s)" using inv by (simp add: vm_inv_def)
  then show "vm_inv stored (insert (ppage_index e) X) s'"
    by (intro vm_invI [OF _ wf' tlb'(1) tm fm su inj]) (simp_all add: same(1) dirty taken)
  show "user_view stored s' = user_view stored s"
  proof (rule user_view_eqI [OF wf wf'])
    show "map pte_vaddr (cur_entries s') = map pte_vaddr ?es"
      unfolding es' map_update using k e by (auto simp: list_update_same_conv)
    fix i assume i: "i < length ?es"
    show "pte_content stored s' (cur_entries s' ! i) = pte_content stored s (?es ! i)"
    proof (cases "i = k")
      case True
      then show ?thesis using k e by (simp add: es' pte_content_def sw')
    next
      case False
      then show ?thesis using free_j [of "?es ! i"] i by (auto simp: es' pte_content_def sw' same)
    qed
  qed
qed

lemma evict_frame_ok:
  assumes ok: "page_store_ok ops stored" and inv: "vm_inv stored X s"
    and f: "firstFreeFrame (cm s) \<le> f" "f < nRamFrames (cm s)" "f \<notin> X"
      "status (coremap (cm s) ! f) = DIRTY"
    and ev: "evict_frame ops (int f) s = Inr s'"
  shows "vm_inv stored (insert f X) s'" "user_view stored s' = user_view stored s" "evolves s s'"
    "cm s' = cm s" "mem s' = mem s"
proof -
  obtain as where as: "proc_getas s = Some as"
    using ev by (auto simp: evict_frame_def split: option.splits)
  then have es: "cur_entries s = pt_entries (as_pt as)" by (simp add: cur_entries_def)
  obtain e0 where "e0 \<in> set (cur_entries s)" "\<not> swapped e0" "ppage_index e0 = f"
    using inv f by (auto simp: vm_inv_def)
  then obtain k where k: "k < length (cur_entries s)" "\<not> swapped (cur_entries s ! k)"
    "ppage_index (cur_entries s ! k) = f" by (auto simp: in_set_conv_nth)
  define e where "e = cur_entries s ! k"
  have wf: "pt_wf (cur_entries s)" "tlb_wf (tlb s)" and len: "f < length (coremap (cm s))"
    using inv f by (auto simp: vm_inv_def cm_wf_def)
  have fm: "frame_mapped (cm s) X e" using inv k nth_mem [OF k(1)] by (simp add: vm_inv_def e_def)
  then have ce: "ce_vaddr (coremap (cm s) ! f) = pte_vaddr e" "ce_paddr (coremap (cm s) ! f) = frame_addr f"
    using k(3) by (simp_all add: frame_mapped_def e_def)
  have page: "page_aligned (pte_vaddr e)" "pte_vaddr e < MIPS_KSEG0"
    using wf(1) nth_mem [OF k(1)] by (auto simp: pt_wf_def e_def)
  have srch: "pt_search (as_pt as) (pte_vaddr e) = Some k"
    using pt_search_Some_iff wf(1) page k(1) by (simp add: es e_def)
  obtain r s1 where out: "swap_out ops (frame_addr f) s = Inr (r, s1)" and r: "0 \<le> r"
    and s': "s' = tlb_invalidate_entry (pte_vaddr e)
        (upd_pt (pte_update k (\<lambda>pte. pte\<lparr>swapped := True, swap_index := nat r\<rparr>)) s1)"
    using ev as srch len ce k(3)
    by (auto simp: evict_frame_def cm_at_def Let_def es e_def)
  have fr: "addr_frame (frame_addr f) = f"
    using f inv by (intro addr_frame_frame_addr) (auto simp: vm_inv_def cm_wf_def)
  obtain j v where j: "r = int j" "j < SWAPSLOTS" "swaptable (sw s) j"
    and v: "stored v = (stored (swapspace (sw s)))(j \<mapsto> mem s f)"
    and s1: "s1 = s\<lparr>sw := \<lparr>swaptable = (swaptable (sw s))(j := False), swapspace = v\<rparr>,
            stats := (stats s)\<lparr>swapfile_writes := swapfile_writes (stats s) + 1\<rparr>\<rparr>"
    using swap_out_ok [OF ok out r] unfolding fr by metis
  let ?s2 = "upd_pt (pte_update k (\<lambda>pte. pte\<lparr>swapped := True, swap_index := nat r\<rparr>)) s1"
  have as1: "proc_getas s1 = Some as" by (simp add: s1 as)
  have es': "cur_entries s' = (cur_entries s)[k := e\<lparr>swapped := True, swap_index := j\<rparr>]"
    unfolding s' by (simp add: cur_entries_upd_pt [OF as1] pte_update_def es e_def j(1))
  have tlb2: "tlb ?s2 = tlb s" by (simp add: upd_pt_def s1)
  have tlb_ok: "tlb_wf (tlb s')" unfolding s'
    using tlb_invalidate_entry_wf [of ?s2, OF _ page] wf(2) tlb2 by simp
  note main = vm_inv_swap_entry [OF inv k(1) e_def, of j s']
  have prem: "cm s' = cm s" "mem s' = mem s" "swaptable (sw s') = (swaptable (sw s))(j := False)"
    "stored (swapspace (sw s')) = (stored (swapspace (sw s)))(j \<mapsto> mem s (ppage_index e))"
    using v k(3) by (simp_all add: s' upd_pt_def s1 e_def)
  have valid: "tlb_valid (tlb s) i \<and> tlb_entry (tlb s') i = tlb_entry (tlb s) i \<and>
      fst (tlb_entry (tlb s) i) \<noteq> pte_vaddr e" if "i < NUM_TLB" "tlb_valid (tlb s') i" for i
    using tlb_invalidate_entry_valid [of ?s2, OF _ page that(1)] that(2) wf(2) tlb2 unfolding s' by simp
  have fe: "ppage_index e = f" using k(3) by (simp add: e_def)
  show "vm_inv stored (insert f X) s'" "user_view stored s' = user_view stored s"
    using main [OF _ j(2,3) es' prem tlb_ok valid] k(2) fe by (simp_all add: e_def)
  show "cm s' = cm s" "mem s' = mem s" by (fact prem)+
  have "pages_kept (cur_entries s) (cur_entries s')"
    using k by (auto simp: es' pages_kept_def list_all2_conv_all_nth nth_list_update e_def)
  moreover have "stats_kept (stats s) (stats ?s2)" by (simp add: upd_pt_def s1 stats_kept_def)
  then have "stats_kept (stats s) (stats s')"
    unfolding s' by (rule stats_kept_trans) simp
  ultimately show "evolves s s'"
    unfolding evolves_def
    by (simp add: prem as s' upd_pt_def s1 as_frame_def pte_update_def) (simp add: upd_as_def)
qed

text \<open>
  The frames \<open>X\<close> that are taken and not yet entered in the page table carry the address of
  the page they will hold, which is not in the page table. The selection of a victim does not
  know about them: when it chooses one of them, the search for its entry fails and the
  assertion of the eviction stops the machine.
\<close>

definition pending_ok :: "nat set \<Rightarrow> ('v, 'p) vm \<Rightarrow> bool" where
  "pending_ok X s \<longleftrightarrow> (\<forall>i \<in> X. page_aligned (ce_vaddr (coremap (cm s) ! i)) \<and>
     ce_vaddr (coremap (cm s) ! i) \<notin> pte_vaddr ` set (cur_entries s))"

lemma evict_frame_pending:
  assumes inv: "vm_inv stored X s" and pend: "pending_ok X s" and ev: "evict_frame ops (int f) s = Inr s'"
  shows "f \<notin> X"
proof
  assume f: "f \<in> X"
  obtain as where as: "proc_getas s = Some as"
    using ev by (auto simp: evict_frame_def split: option.splits)
  then have es: "cur_entries s = pt_entries (as_pt as)" by (simp add: cur_entries_def)
  have "pt_search (as_pt as) (ce_vaddr (coremap (cm s) ! f)) = None"
    using pend f inv by (subst pt_search_None_iff) (auto simp: pending_ok_def vm_inv_def es)
  then show False using ev as by (auto simp: evict_frame_def cm_at_def Let_def split: if_splits)
qed

lemma vm_inv_next_victim:
  assumes "vm_inv stored X s" and "firstFreeFrame (cm s) \<le> m"
  shows "vm_inv stored X (s\<lparr>cm := (cm s)\<lparr>next_victim := m\<rparr>\<rparr>)"
proof -
  have "frame_mapped ((cm s)\<lparr>next_victim := m\<rparr>) X = frame_mapped (cm s) X"
    by (rule ext) (simp add: frame_mapped_def)
  moreover have "cm_wf ((cm s)\<lparr>next_victim := m\<rparr>)" using assms by (simp add: vm_inv_def cm_wf_def)
  ultimately show ?thesis using assms(1) by (simp add: vm_inv_def)
qed

lemma user_view_cm [simp]: "user_view stored (s\<lparr>cm := c\<rparr>) = user_view stored s"
  by (rule ext) (simp add: user_view_def pte_content_def split: option.split)

lemma evolves_next_victim [simp]: "evolves s (s\<lparr>cm := (cm s)\<lparr>next_victim := m\<rparr>\<rparr>)"
  by (simp add: evolves_def)

text \<open>Selecting one victim and swapping it out, the way both allocators do it when no frame is
  free.\<close>

lemma selection_Inr:
  assumes "cm_wf cs" and "coremap_victim_selection (Suc 0) cs = Inr (v, cs')"
  obtains f where "v = int f" "firstFreeFrame cs \<le> f" "f < nRamFrames cs"
    "status (coremap cs ! f) \<noteq> FIXED" "cs' = cs\<lparr>next_victim := Suc f\<rparr>"
proof (cases "firstFreeFrame cs < nRamFrames cs")
  case True
  then obtain f where f: "round_robin_victim cs = Some f" "v = int f" "cs' = cs\<lparr>next_victim := Suc f\<rparr>"
    using assms coremap_victim_selection_one [OF assms(1)] by (auto split: option.splits)
  then show thesis using round_robin_victim_Some [OF assms(1) True f(1)] that by blast
next
  case False
  then have "firstFreeFrame cs = nRamFrames cs" using assms(1) by (simp add: cm_wf_def)
  then have "coremap_victim_selection (Suc 0) cs = Inl (Assert ''victimsfound == nvictims'')"
    using assms(1)
    by (auto simp: kassert_def coremap_victim_selection_def victim_loop.simps victim_scan_find Let_def cm_wf_def)
  then show thesis using assms(2) by simp
qed

lemma select_and_evict:
  assumes ok: "page_store_ok ops stored" and inv: "vm_inv stored X s" and pend: "pending_ok X s"
    and full: "\<And>i. firstFreeFrame (cm s) \<le> i \<Longrightarrow> i < nRamFrames (cm s) \<Longrightarrow> \<not> frame_free (coremap (cm s) ! i)"
    and sel: "coremap_victim_selection (Suc 0) (cm s) = Inr (v, cs)"
    and ev: "evict_frame ops v (s\<lparr>cm := cs\<rparr>) = Inr s'"
  obtains f where "v = int f" "firstFreeFrame (cm s) \<le> f" "f < nRamFrames (cm s)" "f \<notin> X"
    "status (coremap (cm s) ! f) = DIRTY" "vm_inv stored (insert f X) s'"
    "user_view stored s' = user_view stored s" "evolves s s'" "mem s' = mem s"
    "cm s' = (cm s)\<lparr>next_victim := Suc f\<rparr>"
proof -
  have wf: "cm_wf (cm s)" using inv by (simp add: vm_inv_def)
  obtain f where f: "v = int f" "firstFreeFrame (cm s) \<le> f" "f < nRamFrames (cm s)"
    "status (coremap (cm s) ! f) \<noteq> FIXED" "cs = (cm s)\<lparr>next_victim := Suc f\<rparr>"
    using selection_Inr [OF wf sel] by blast
  have dirty: "status (coremap (cm s) ! f) = DIRTY"
    using full [OF f(2,3)] f(4) by (cases "status (coremap (cm s) ! f)") (auto simp: frame_free_def)
  let ?s1 = "s\<lparr>cm := (cm s)\<lparr>next_victim := Suc f\<rparr>\<rparr>"
  have inv1: "vm_inv stored X ?s1" using inv f(2) by (intro vm_inv_next_victim) auto
  have ev1: "evict_frame ops (int f) ?s1 = Inr s'" using ev f by simp
  have "pending_ok X ?s1" using pend by (simp add: pending_ok_def)
  then have X: "f \<notin> X" by (rule evict_frame_pending [OF inv1 _ ev1])
  note r = evict_frame_ok [OF ok inv1 _ _ X _ ev1]
  have "evolves ?s1 s'" using r f dirty by simp
  then have "evolves s s'" using evolves_next_victim evolves_trans by blast
  then show thesis using that f dirty X r by simp
qed

section \<open>A frame for a page of the process\<close>

lemma getuserppage_ok:
  assumes ok: "page_store_ok ops stored" and inv: "vm_inv stored {} s"
    and get: "getuserppage ops s = Inr (pa, s')"
  obtains f where "pa = frame_addr f" "firstFreeFrame (cm s) \<le> f" "f < nRamFrames (cm s)"
    "status (coremap (cm s) ! f) \<noteq> FIXED"
    "vm_inv stored {f} s'" "user_view stored s' = user_view stored s" "evolves s s'" "mem s' = mem s"
    "coremap (cm s') = (coremap (cm s))[f := (coremap (cm s) ! f)
       \<lparr>status := DIRTY, ce_paddr := frame_addr f, ce_size := 1\<rparr>]"
proof -
  let ?g = "\<lambda>f e. e\<lparr>status := DIRTY, ce_paddr := frame_addr f, ce_size := 1\<rparr>"
  have act: "isTableActive s" using inv by (simp add: vm_inv_def cm_wf_def isTableActive_def)
  show thesis
  proof (cases "List.find (\<lambda>i. frame_free (coremap (cm s) ! i)) [firstFreeFrame (cm s)..<nRamFrames (cm s)]")
    case (Some f)
    have f: "firstFreeFrame (cm s) \<le> f" "f < nRamFrames (cm s)" "frame_free (coremap (cm s) ! f)"
      using Some by (auto simp: find_upt_Some_iff)
    have "pa = frame_addr f" "s' = cm_upd f (?g f) s"
      using get act Some by (auto simp: getuserppage_def)
    then show thesis
      using that [of f] f vm_inv_frame_update [OF inv f(1,2), of "{f}" "?g f"]
      by (auto simp: frame_free_def)
  next
    case None
    have full: "\<And>i. firstFreeFrame (cm s) \<le> i \<Longrightarrow> i < nRamFrames (cm s) \<Longrightarrow> \<not> frame_free (coremap (cm s) ! i)"
      using None by (auto simp: find_upt_None_iff)
    obtain v cs s1 where sel: "coremap_victim_selection (Suc 0) (cm s) = Inr (v, cs)"
      and ev: "evict_frame ops v (s\<lparr>cm := cs\<rparr>) = Inr s1"
      and res: "pa = frame_addr (nat v)" "s' = cm_upd (nat v) (?g (nat v)) s1"
      using get act None by (auto simp: getuserppage_def)
    obtain f where f: "v = int f" "firstFreeFrame (cm s) \<le> f" "f < nRamFrames (cm s)"
      "status (coremap (cm s) ! f) = DIRTY" "vm_inv stored {f} s1"
      "user_view stored s1 = user_view stored s" "evolves s s1" "mem s1 = mem s"
      "cm s1 = (cm s)\<lparr>next_victim := Suc f\<rparr>"
      using select_and_evict [OF ok inv _ full sel ev] by (auto simp: pending_ok_def)
    have "vm_inv stored {f} (cm_upd f (?g f) s1)"
      using f by (intro vm_inv_frame_update [OF f(5)]) simp_all
    moreover have "evolves s (cm_upd f (?g f) s1)" using f(7) evolves_trans evolves_cm_upd by blast
    ultimately show thesis using that [of f] f res by simp
  qed
qed

section \<open>A page for the kernel\<close>

lemma free_run_one:
  "i \<le> n \<Longrightarrow> free_run c n (Suc 0) i 0 =
     (case List.find (\<lambda>i. frame_free (c ! i)) [i..<n] of Some j \<Rightarrow> (Suc 0, Some j) | None \<Rightarrow> (0, None))"
proof (induction "n - i" arbitrary: i)
  case 0
  then show ?case by (simp add: free_run.simps)
next
  case (Suc d)
  then have "free_run c n (Suc 0) (Suc i) 0 = (case List.find (\<lambda>i. frame_free (c ! i)) [Suc i..<n] of
      Some j \<Rightarrow> (Suc 0, Some j) | None \<Rightarrow> (0, None))" by simp
  moreover have "[i..<n] = i # [Suc i..<n]" using Suc by (simp add: upt_conv_Cons)
  ultimately show ?case using Suc(2) by (auto simp: free_run.simps [of c n "Suc 0" i 0])
qed

text \<open>The frames that hold one page of the kernel heap each.\<close>

definition kpages :: "('v, 'p) vm \<Rightarrow> nat set" where
  "kpages s = {i. firstFreeFrame (cm s) \<le> i \<and> i < nRamFrames (cm s) \<and>
     status (coremap (cm s) ! i) = FIXED \<and> ce_size (coremap (cm s) ! i) = Suc 0}"

definition kframe :: "nat \<Rightarrow> coremap_entry \<Rightarrow> coremap_entry" where
  "kframe f e = e\<lparr>ce_size := Suc 0, ce_paddr := frame_addr f,
     ce_vaddr := PADDR_TO_KVADDR (frame_addr f), status := FIXED\<rparr>"

lemma kframe_fixed: "kframe f (e\<lparr>status := FIXED\<rparr>) = kframe f e"
  by (simp add: kframe_def)

lemma getppages_one_ok:
  assumes ok: "page_store_ok ops stored" and inv: "vm_inv stored X s" and pend: "pending_ok X s"
    and get: "getppages ops (Suc 0) s = Inr (pa, s')"
  obtains f where "pa = frame_addr f" "firstFreeFrame (cm s) \<le> f" "f < nRamFrames (cm s)"
    "f \<notin> X" "status (coremap (cm s) ! f) \<noteq> FIXED"
    "vm_inv stored X s'" "user_view stored s' = user_view stored s" "evolves s s'" "mem s' = mem s"
    "coremap (cm s') = (coremap (cm s))[f := kframe f (coremap (cm s) ! f)]"
proof -
  have act: "isTableActive s" using inv by (simp add: vm_inv_def cm_wf_def isTableActive_def)
  have wf: "firstFreeFrame (cm s) \<le> nRamFrames (cm s)" using inv by (simp add: vm_inv_def cm_wf_def)
  note run = free_run_one [OF wf, of "coremap (cm s)"]
  have kf: "(\<lambda>e. e\<lparr>ce_size := Suc 0, ce_paddr := frame_addr f, ce_vaddr := PADDR_TO_KVADDR (frame_addr f),
      status := FIXED\<rparr>) = kframe f" for f by (rule ext) (simp add: kframe_def)
  show thesis
  proof (cases "List.find (\<lambda>i. frame_free (coremap (cm s) ! i)) [firstFreeFrame (cm s)..<nRamFrames (cm s)]")
    case (Some f)
    have f: "firstFreeFrame (cm s) \<le> f" "f < nRamFrames (cm s)" "frame_free (coremap (cm s) ! f)"
      using Some by (auto simp: find_upt_Some_iff)
    have "f \<notin> X" using inv f(3) by (auto simp: vm_inv_def frame_free_def)
    moreover have "pa = frame_addr f" "s' = cm_upd f (kframe f) s"
      using get act Some run by (auto simp: getppages_def Let_def kf)
    ultimately show thesis
      using that [of f] f vm_inv_frame_update [OF inv f(1,2), of X "kframe f"]
      by (auto simp: frame_free_def kframe_def)
  next
    case None
    have full: "\<And>i. firstFreeFrame (cm s) \<le> i \<Longrightarrow> i < nRamFrames (cm s) \<Longrightarrow> \<not> frame_free (coremap (cm s) ! i)"
      using None by (auto simp: find_upt_None_iff)
    obtain v cs s1 where sel: "coremap_victim_selection (Suc 0) (cm s) = Inr (v, cs)"
      and ev: "evict_frame ops v (s\<lparr>cm := cs\<rparr>) = Inr s1"
      and res: "pa = frame_addr (nat v)"
        "s' = cm_upd (nat v) (kframe (nat v)) (cm_upd (nat v) (\<lambda>e. e\<lparr>status := FIXED\<rparr>) s1)"
      using get act None run by (auto simp: getppages_def Let_def kf)
    obtain f where f: "v = int f" "firstFreeFrame (cm s) \<le> f" "f < nRamFrames (cm s)" "f \<notin> X"
      "status (coremap (cm s) ! f) = DIRTY" "vm_inv stored (insert f X) s1"
      "user_view stored s1 = user_view stored s" "evolves s s1" "mem s1 = mem s"
      "cm s1 = (cm s)\<lparr>next_victim := Suc f\<rparr>"
      using select_and_evict [OF ok inv pend full sel ev] by blast
    have len: "f < length (coremap (cm s))" using inv f by (simp add: vm_inv_def cm_wf_def)
    have s': "s' = cm_upd f (kframe f) s1"
      using res f len by (simp add: cm_upd_def kframe_fixed)
    have "vm_inv stored X s'" unfolding s'
      using f by (intro vm_inv_frame_update [OF f(6)]) (auto simp: kframe_def)
    moreover have "evolves s s'" unfolding s' using f(8) evolves_trans evolves_cm_upd by blast
    ultimately show thesis using that [of f] f res(1) by (simp add: s')
  qed
qed

text \<open>Whoever holds a page of the kernel, no one else gets it.\<close>

lemma kpages_getppages:
  assumes "cm_wf (cm s)" and "f < nRamFrames (cm s)" and "firstFreeFrame (cm s) \<le> f" and "evolves s s'"
    and "coremap (cm s') = (coremap (cm s))[f := kframe f (coremap (cm s) ! f)]"
  shows "kpages s' = insert f (kpages s)"
  using assms by (auto simp: kpages_def evolves_def cm_wf_def kframe_def nth_list_update)

lemma pending_ok_kept:
  assumes "pending_ok X s" and "evolves s s'"
    and "\<And>i. i \<in> X \<Longrightarrow> coremap (cm s') ! i = coremap (cm s) ! i"
  shows "pending_ok X s'"
proof -
  have "pte_vaddr ` set (cur_entries s') = pte_vaddr ` set (cur_entries s)"
    using assms(2) pages_kept_vaddrs unfolding evolves_def by (metis list.set_map)
  then show ?thesis using assms by (simp add: pending_ok_def)
qed

lemma alloc_kpages_one:
  assumes inv: "vm_inv stored X s" and "alloc_kpages ops (Suc 0) s = Inr (kv, s')"
    and "page_store_ok ops stored" and pend: "pending_ok X s"
  obtains f where "kv = PADDR_TO_KVADDR (frame_addr f)" "f \<in> kpages s'" "f \<notin> kpages s"
    "kpages s' = insert f (kpages s)" "vm_inv stored X s'" "pending_ok X s'"
    "user_view stored s' = user_view stored s" "evolves s s'" "mem s' = mem s"
    "\<forall>i. i \<noteq> f \<longrightarrow> coremap (cm s') ! i = coremap (cm s) ! i"
proof -
  obtain pa where get: "getppages ops (Suc 0) s = Inr (pa, s')"
    and kv: "kv = (if pa = 0 then 0 else PADDR_TO_KVADDR pa)"
    using assms(2) by (auto simp: alloc_kpages_def)
  obtain f where f: "pa = frame_addr f" "firstFreeFrame (cm s) \<le> f" "f < nRamFrames (cm s)"
    "f \<notin> X" "status (coremap (cm s) ! f) \<noteq> FIXED"
    "vm_inv stored X s'" "user_view stored s' = user_view stored s" "evolves s s'" "mem s' = mem s"
    "coremap (cm s') = (coremap (cm s))[f := kframe f (coremap (cm s) ! f)]"
    using getppages_one_ok [OF assms(3) inv pend get] by blast
  have wf: "cm_wf (cm s)" using inv by (simp add: vm_inv_def)
  then have "pa \<noteq> 0" using f(1-3) by (simp add: frame_addr_eq_0_iff cm_wf_def)
  moreover have "kpages s' = insert f (kpages s)" using kpages_getppages [OF wf f(3,2,8,10)] .
  moreover have "f \<notin> kpages s" using f(5) by (simp add: kpages_def)
  moreover have "pending_ok X s'" using f(4,10) by (intro pending_ok_kept [OF pend f(8)]) (metis nth_list_update_neq)
  ultimately show thesis using that [of f] kv f by auto
qed

lemma PADDR_TO_KVADDR_minus [simp]: "PADDR_TO_KVADDR pa - MIPS_KSEG0 = pa"
  by (simp add: PADDR_TO_KVADDR_def)

lemma free_kpages_one:
  assumes inv: "vm_inv stored X s" and f: "f \<in> kpages s" and pend: "pending_ok X s"
  obtains s' where "free_kpages (PADDR_TO_KVADDR (frame_addr f)) s = Inr s'"
    "vm_inv stored X s'" "pending_ok X s'" "kpages s' = kpages s - {f}"
    "user_view stored s' = user_view stored s" "evolves s s'" "mem s' = mem s"
    "\<forall>i. i \<noteq> f \<longrightarrow> coremap (cm s') ! i = coremap (cm s) ! i"
    "frame_free (coremap (cm s') ! f)"
proof -
  let ?g = "\<lambda>e. e\<lparr>status := FREE, ce_size := 0\<rparr>"
  have wf: "cm_wf (cm s)" using inv by (simp add: vm_inv_def)
  then have b: "firstFreeFrame (cm s) \<le> f" "f < nRamFrames (cm s)" "f < length (coremap (cm s))" "f < 2 ^ 20"
    "status (coremap (cm s) ! f) = FIXED" "ce_size (coremap (cm s) ! f) = Suc 0"
    using f by (auto simp: kpages_def cm_wf_def)
  have X: "f \<notin> X" using inv b by (auto simp: vm_inv_def)
  have "unat (frame_addr f) mod PAGE_SIZE = 0" using b(4) by (simp add: unat_frame_addr)
  then have run: "free_kpages (PADDR_TO_KVADDR (frame_addr f)) s = Inr (cm_upd f ?g s)"
    using wf b by (auto simp: free_kpages_def isTableActive_def cm_wf_def addr_frame_frame_addr Let_def kassert_If)
  have "vm_inv stored X (cm_upd f ?g s)"
    using b X by (intro vm_inv_frame_update [OF inv b(1,2)]) auto
  moreover have "pending_ok X (cm_upd f ?g s)" using X by (intro pending_ok_kept [OF pend]) (simp_all, metis nth_list_update_neq)
  moreover have "kpages (cm_upd f ?g s) = kpages s - {f}"
    using b(3) by (auto simp: kpages_def nth_list_update split: if_splits)
  ultimately show thesis using that [OF run] b(3) by (simp add: frame_free_def)
qed

section \<open>The allocator does not stop the machine\<close>

text \<open>
  A frame that is free is handed out without any eviction. When none is, there must be a
  frame that is not \<open>FIXED\<close>, a free swap slot, and a swap file that can be written.
\<close>

lemma getppages_one_free:
  assumes wf: "cm_wf (cm s)" and f: "firstFreeFrame (cm s) \<le> f" "f < nRamFrames (cm s)"
    "frame_free (coremap (cm s) ! f)"
  shows "\<exists>r. getppages ops (Suc 0) s = Inr r"
proof -
  have "firstFreeFrame (cm s) \<le> nRamFrames (cm s)" using wf by (simp add: cm_wf_def)
  note run = free_run_one [OF this, of "coremap (cm s)"]
  have "List.find (\<lambda>i. frame_free (coremap (cm s) ! i)) [firstFreeFrame (cm s)..<nRamFrames (cm s)] \<noteq> None"
    using f by (auto simp: find_upt_None_iff)
  then show ?thesis using wf run by (auto simp: getppages_def cm_wf_def isTableActive_def Let_def)
qed

lemma getuserppage_free:
  assumes wf: "cm_wf (cm s)" and f: "firstFreeFrame (cm s) \<le> f" "f < nRamFrames (cm s)"
    "frame_free (coremap (cm s) ! f)"
  shows "\<exists>r. getuserppage ops s = Inr r"
proof -
  have "List.find (\<lambda>i. frame_free (coremap (cm s) ! i)) [firstFreeFrame (cm s)..<nRamFrames (cm s)] \<noteq> None"
    using f by (auto simp: find_upt_None_iff)
  then show ?thesis using wf by (auto simp: getuserppage_def cm_wf_def isTableActive_def)
qed

definition writable :: "('v, 'p) vnode_ops \<Rightarrow> bool" where
  "writable ops \<longleftrightarrow> (\<forall>v k p. fst (vop_write ops v (slot_pos k) p) = 0)"

lemma swap_out_returns:
  assumes "writable ops" and "j < SWAPSLOTS" and "swaptable (sw s) j"
  shows "\<exists>r s'. swap_out ops page s = Inr (int r, s')"
proof -
  obtain k where k: "List.find (\<lambda>i. swaptable (sw s) i) [0..<SWAPSLOTS] = Some k"
    using assms(2,3) by (cases "List.find (\<lambda>i. swaptable (sw s) i) [0..<SWAPSLOTS]") (auto simp: find_upt_None_iff)
  obtain v where "vop_write ops (swapspace (sw s)) (slot_pos k) (mem s (addr_frame page)) = (0, v)"
    using assms(1) unfolding writable_def by (metis prod.collapse)
  with k show ?thesis by (auto simp: swap_out_def write_page_def)
qed

lemma evict_frame_returns:
  assumes inv: "vm_inv stored X s" and f: "firstFreeFrame (cm s) \<le> f" "f < nRamFrames (cm s)" "f \<notin> X"
      "status (coremap (cm s) ! f) = DIRTY"
    and disk: "writable ops" "j < SWAPSLOTS" "swaptable (sw s) j"
  shows "\<exists>s'. evict_frame ops (int f) s = Inr s'"
proof -
  obtain e where e: "e \<in> set (cur_entries s)" "\<not> swapped e" "ppage_index e = f"
    using inv f by (auto simp: vm_inv_def)
  then obtain k as where k: "k < length (pt_entries (as_pt as))" "pt_entries (as_pt as) ! k = e"
    and as: "proc_getas s = Some as" by (auto simp: in_set_conv_nth cur_entries_def split: option.splits)
  then have es: "cur_entries s = pt_entries (as_pt as)" by (simp add: cur_entries_def)
  have wf: "pt_wf (pt_entries (as_pt as))" and len: "f < length (coremap (cm s))"
    using inv f es by (auto simp: vm_inv_def cm_wf_def)
  have ce: "ce_vaddr (coremap (cm s) ! f) = pte_vaddr e"
    using inv e by (auto simp: vm_inv_def frame_mapped_def)
  have "page_aligned (pte_vaddr e)" using wf k by (auto simp: pt_wf_def)
  then have "pt_search (as_pt as) (pte_vaddr e) = Some k"
    using pt_search_Some_iff wf k by simp
  moreover obtain r s' where "swap_out ops (ce_paddr (coremap (cm s) ! f)) s = Inr (int r, s')"
    using swap_out_returns [OF disk] by blast
  ultimately show ?thesis using as len ce k e by (simp add: evict_frame_def cm_at_def)
qed

text \<open>There is room for one more page: a free frame, or a page that can be swapped out.\<close>

definition can_take :: "('v, 'p) vnode_ops \<Rightarrow> ('v, 'p) vm \<Rightarrow> bool" where
  "can_take ops s \<longleftrightarrow>
     (\<exists>f. firstFreeFrame (cm s) \<le> f \<and> f < nRamFrames (cm s) \<and> frame_free (coremap (cm s) ! f)) \<or>
     (\<exists>f. firstFreeFrame (cm s) \<le> f \<and> f < nRamFrames (cm s) \<and> status (coremap (cm s) ! f) \<noteq> FIXED) \<and>
     writable ops \<and> (\<exists>j < SWAPSLOTS. swaptable (sw s) j)"

lemma select_and_evict_returns:
  assumes inv: "vm_inv stored {} s" and room: "can_take ops s"
    and full: "\<And>i. firstFreeFrame (cm s) \<le> i \<Longrightarrow> i < nRamFrames (cm s) \<Longrightarrow> \<not> frame_free (coremap (cm s) ! i)"
  shows "\<exists>f s'. coremap_victim_selection (Suc 0) (cm s) = Inr (int f, (cm s)\<lparr>next_victim := Suc f\<rparr>) \<and>
      evict_frame ops (int f) (s\<lparr>cm := (cm s)\<lparr>next_victim := Suc f\<rparr>\<rparr>) = Inr s'"
proof -
  have wf: "cm_wf (cm s)" using inv by (simp add: vm_inv_def)
  obtain j where disk: "writable ops" "j < SWAPSLOTS" "swaptable (sw s) j"
    and ex: "\<exists>f. firstFreeFrame (cm s) \<le> f \<and> f < nRamFrames (cm s) \<and> status (coremap (cm s) ! f) \<noteq> FIXED"
    using room full by (auto simp: can_take_def)
  have nonempty: "firstFreeFrame (cm s) < nRamFrames (cm s)" using ex by auto
  obtain f where f: "round_robin_victim (cm s) = Some f"
    using round_robin_victim_None_iff [OF wf nonempty] ex by fastforce
  note b = round_robin_victim_Some [OF wf nonempty f]
  have dirty: "status (coremap (cm s) ! f) = DIRTY"
    using full [OF b(1,2)] b(3) by (cases "status (coremap (cm s) ! f)") (auto simp: frame_free_def)
  let ?s1 = "s\<lparr>cm := (cm s)\<lparr>next_victim := Suc f\<rparr>\<rparr>"
  have "vm_inv stored {} ?s1" using inv b by (intro vm_inv_next_victim) auto
  then have "\<exists>s'. evict_frame ops (int f) ?s1 = Inr s'"
    using b dirty disk by (intro evict_frame_returns [of stored "{}"]) auto
  then show ?thesis using coremap_victim_selection_one [OF wf nonempty] f by auto
qed

lemma getuserppage_returns:
  assumes inv: "vm_inv stored {} s" and room: "can_take ops s"
  shows "\<exists>r. getuserppage ops s = Inr r"
proof (cases "\<exists>f. firstFreeFrame (cm s) \<le> f \<and> f < nRamFrames (cm s) \<and> frame_free (coremap (cm s) ! f)")
  case True
  then show ?thesis using inv getuserppage_free by (auto simp: vm_inv_def)
next
  case False
  then have "List.find (\<lambda>i. frame_free (coremap (cm s) ! i)) [firstFreeFrame (cm s)..<nRamFrames (cm s)] = None"
    by (auto simp: find_upt_None_iff)
  then show ?thesis using select_and_evict_returns [OF inv room] False inv
    by (auto simp: getuserppage_def vm_inv_def cm_wf_def isTableActive_def)
qed

lemma getppages_one_returns:
  assumes inv: "vm_inv stored {} s" and room: "can_take ops s"
  shows "\<exists>r. getppages ops (Suc 0) s = Inr r"
proof (cases "\<exists>f. firstFreeFrame (cm s) \<le> f \<and> f < nRamFrames (cm s) \<and> frame_free (coremap (cm s) ! f)")
  case True
  then show ?thesis using inv getppages_one_free by (auto simp: vm_inv_def)
next
  case False
  have wf: "firstFreeFrame (cm s) \<le> nRamFrames (cm s)" using inv by (simp add: vm_inv_def cm_wf_def)
  have "List.find (\<lambda>i. frame_free (coremap (cm s) ! i)) [firstFreeFrame (cm s)..<nRamFrames (cm s)] = None"
    using False by (auto simp: find_upt_None_iff)
  then have "free_run (coremap (cm s)) (nRamFrames (cm s)) (Suc 0) (firstFreeFrame (cm s)) 0 = (0, None)"
    using free_run_one [OF wf, of "coremap (cm s)"] by simp
  then show ?thesis using select_and_evict_returns [OF inv room] False inv
    by (auto simp: getppages_def vm_inv_def cm_wf_def isTableActive_def Let_def)
qed

end
