(* ===== verification/KMalloc.thy ===== *)
theory KMalloc
  imports Prelude
begin

text \<open>
  The kernel heap, \<open>kern/vm/kmalloc.c\<close>: pages cut into blocks of one of eight sizes, with a
  free list threaded through the free blocks of each page; the table of \<open>pageref\<close> structures
  that describe those pages; and \<open>kmalloc\<close> and \<open>kfree\<close> on top of them.

  Whole pages come from the virtual memory system. The two functions the heap calls are
  fields of the record \<open>kpage_ops\<close>, over a state of any type; the locale
  \<open>kpage_provider\<close> states what the heap relies on.
\<close>

section \<open>Data\<close>

record 's kpage_ops =
  kp_alloc :: "nat \<Rightarrow> 's \<Rightarrow> (vaddr_t \<times> 's) res"
  kp_free :: "vaddr_t \<Rightarrow> 's \<Rightarrow> 's res"

definition NSIZES :: nat where
  "NSIZES = 8"

definition sizes :: "nat list" where
  "sizes = [16, 32, 64, 128, 256, 512, 1024, 2048]"

definition LARGEST_SUBPAGE_SIZE :: nat where
  "LARGEST_SUBPAGE_SIZE = 2048"

text \<open>
  A \<open>pageref\<close> is addressed by its place in a page of such structures. The two lists each
  \<open>pageref\<close> is on are kept as lists of these addresses, in the order of their links.
\<close>

record pageref =
  pageaddr_and_blocktype :: u32
  freelist_offset :: nat
  nfree :: nat

definition INVALID_OFFSET :: nat where
  "INVALID_OFFSET = 0xffff"

definition PR_PAGEADDR :: "pageref \<Rightarrow> vaddr_t" where
  "PR_PAGEADDR pr = pageaddr_and_blocktype pr AND PAGE_FRAME"

definition PR_BLOCKTYPE :: "pageref \<Rightarrow> nat" where
  "PR_BLOCKTYPE pr = unat (pageaddr_and_blocktype pr AND NOT PAGE_FRAME)"

definition MKPAB :: "vaddr_t \<Rightarrow> nat \<Rightarrow> u32" where
  "MKPAB pa blk = (pa AND PAGE_FRAME) OR (of_nat blk AND NOT PAGE_FRAME)"

definition sizeof_pageref :: nat where
  "sizeof_pageref = 16"

definition NPAGEREFS_PER_PAGE :: nat where
  "NPAGEREFS_PER_PAGE = PAGE_SIZE div sizeof_pageref"

definition INUSE_BITS :: nat where
  "INUSE_BITS = 32"

definition INUSE_WORDS :: nat where
  "INUSE_WORDS = NPAGEREFS_PER_PAGE div INUSE_BITS"

record kheap_root =
  kr_page :: vaddr_t
  pagerefs_inuse :: "u32 list"
  numinuse :: nat

definition NUM_PAGEREFPAGES :: nat where
  "NUM_PAGEREFPAGES = 16"

text \<open>
  \<open>kwords\<close> holds the words of the pages that are cut into blocks, \<open>refs\<close> the structures on
  the pages of the roots.
\<close>

record kheap =
  kheaproots :: "kheap_root list"
  refs :: "vaddr_t \<Rightarrow> pageref"
  kwords :: "vaddr_t \<Rightarrow> u32"
  sizebases :: "vaddr_t list list"
  allbase :: "vaddr_t list"

section \<open>The table of pagerefs\<close>

definition fill_deadbeef :: "vaddr_t \<Rightarrow> nat \<Rightarrow> (vaddr_t \<Rightarrow> u32) \<Rightarrow> vaddr_t \<Rightarrow> u32" where
  "fill_deadbeef ptr len w = fold (\<lambda>i w. w(ptr + of_nat (4 * i) := 0xdeadbeef)) [0..<len div 4] w"

definition allocpagerefpage :: "'s kpage_ops \<Rightarrow> nat \<Rightarrow> kheap \<Rightarrow> 's \<Rightarrow> (kheap \<times> 's) res" where
  "allocpagerefpage kp whichroot h s =
     kbind (kassert (kr_page (kheaproots h ! whichroot) = 0) ''root->page == NULL'') (\<lambda>_.
     kbind (kp_alloc kp 1 s) (\<lambda>(va, s1).
     if va = 0 then Inr (h, s1)
     else
       kbind (kassert (unat va mod PAGE_SIZE = 0) ''va % PAGE_SIZE == 0'') (\<lambda>_.
       if kr_page (kheaproots h ! whichroot) \<noteq> 0
       then kbind (kp_free kp va s1) (\<lambda>s2. Inr (h, s2))
       else Inr (h\<lparr>kheaproots := (kheaproots h)
                     [whichroot := (kheaproots h ! whichroot)\<lparr>kr_page := va\<rparr>]\<rparr>, s1))))"

text \<open>The first word of a root with a free entry, and the first root that has one.\<close>

definition root_slot :: "kheap_root \<Rightarrow> nat option" where
  "root_slot root =
     (if numinuse root \<ge> NPAGEREFS_PER_PAGE then None
      else List.find (\<lambda>i. pagerefs_inuse root ! i \<noteq> 0xffffffff) [0..<INUSE_WORDS])"

fun first_root :: "kheap_root list \<Rightarrow> nat \<Rightarrow> (nat \<times> nat) option" where
  "first_root [] whichroot = None"
| "first_root (root # rs) whichroot =
     (case root_slot root of Some i \<Rightarrow> Some (whichroot, i) | None \<Rightarrow> first_root rs (Suc whichroot))"

definition ref_addr :: "vaddr_t \<Rightarrow> nat \<Rightarrow> vaddr_t" where
  "ref_addr page q = page + of_nat (q * sizeof_pageref)"

definition allocpageref :: "'s kpage_ops \<Rightarrow> kheap \<Rightarrow> 's \<Rightarrow> (vaddr_t \<times> kheap \<times> 's) res" where
  "allocpageref kp h s =
     (case first_root (kheaproots h) 0 of
        None \<Rightarrow> Inr (0, h, s)
      | Some (whichroot, i) \<Rightarrow>
          let root = kheaproots h ! whichroot; word = pagerefs_inuse root ! i in
          (case List.find (\<lambda>j. word AND push_bit j 1 = 0) [0..<INUSE_BITS] of
             None \<Rightarrow> Inl (Assert ''0'')
           | Some j \<Rightarrow>
               let h1 = h\<lparr>kheaproots := (kheaproots h)[whichroot :=
                      root\<lparr>pagerefs_inuse := (pagerefs_inuse root)[i := word OR push_bit j 1],
                           numinuse := numinuse root + 1\<rparr>]\<rparr> in
               kbind (if kr_page root = 0 then allocpagerefpage kp whichroot h1 s else Inr (h1, s)) (\<lambda>(h2, s2).
               let page = kr_page (kheaproots h2 ! whichroot) in
               Inr (if page = 0 then 0 else ref_addr page (i * INUSE_BITS + j), h2, s2))))"

text \<open>The difference of two pointers to \<open>pageref\<close>s, as an unsigned number.\<close>

definition ref_index :: "vaddr_t \<Rightarrow> vaddr_t \<Rightarrow> nat" where
  "ref_index p page = unat (of_int (sint (p - page) div int sizeof_pageref) :: u32)"

fun free_in_roots :: "vaddr_t \<Rightarrow> kheap_root list \<Rightarrow> kheap_root list res" where
  "free_in_roots p [] = Inl (Assert ''0'')"
| "free_in_roots p (root # rs) =
     (if kr_page root = 0
      then kbind (kassert (numinuse root = 0) ''root->numinuse == 0'') (\<lambda>_.
           kbind (free_in_roots p rs) (\<lambda>rs'. Inr (root # rs')))
      else
        let j = ref_index p (kr_page root) in
        if j < NPAGEREFS_PER_PAGE
        then
          let i = j div INUSE_BITS; k = push_bit (j mod INUSE_BITS) 1 in
          kbind (kassert (pagerefs_inuse root ! i AND k \<noteq> 0) ''(root->pagerefs_inuse[i] & k) != 0'') (\<lambda>_.
          kbind (kassert (numinuse root > 0) ''root->numinuse > 0'') (\<lambda>_.
          Inr (root\<lparr>pagerefs_inuse := (pagerefs_inuse root)[i := pagerefs_inuse root ! i AND NOT k],
                    numinuse := numinuse root - 1\<rparr> # rs)))
        else kbind (free_in_roots p rs) (\<lambda>rs'. Inr (root # rs')))"

definition freepageref :: "vaddr_t \<Rightarrow> kheap \<Rightarrow> kheap res" where
  "freepageref p h = kbind (free_in_roots p (kheaproots h)) (\<lambda>rs. Inr (h\<lparr>kheaproots := rs\<rparr>))"

section \<open>Blocks smaller than a page\<close>

definition remove_lists :: "vaddr_t \<Rightarrow> nat \<Rightarrow> kheap \<Rightarrow> kheap res" where
  "remove_lists pr blktype h =
     kbind (kassert (blktype < NSIZES) ''blktype>=0 && blktype<NSIZES'') (\<lambda>_.
     Inr (h\<lparr>sizebases := (sizebases h)[blktype := remove1 pr (sizebases h ! blktype)],
            allbase := remove1 pr (allbase h)\<rparr>))"

definition blocktype :: "nat \<Rightarrow> nat res" where
  "blocktype clientsz =
     (case List.find (\<lambda>i. clientsz \<le> sizes ! i) [0..<NSIZES] of
        Some i \<Rightarrow> Inr i
      | None \<Rightarrow> Inl (Panic ''Subpage allocator cannot handle allocation of size''))"

text \<open>The search for a page of the right size with a free block.\<close>

fun find_free_page :: "(vaddr_t \<Rightarrow> pageref) \<Rightarrow> nat \<Rightarrow> vaddr_t list \<Rightarrow> vaddr_t option res" where
  "find_free_page rf blktype [] = Inr None"
| "find_free_page rf blktype (pr # prs) =
     kbind (kassert (PR_BLOCKTYPE (rf pr) = blktype) ''PR_BLOCKTYPE(pr) == blktype'') (\<lambda>_.
     if nfree (rf pr) > 0 then Inr (Some pr) else find_free_page rf blktype prs)"

text \<open>The part from the label \<open>doalloc\<close> on: take the first block of the free list.\<close>

definition doalloc :: "vaddr_t \<Rightarrow> kheap \<Rightarrow> (vaddr_t \<times> kheap) res" where
  "doalloc pr h =
     (let r = refs h pr in
      kbind (kassert (freelist_offset r < PAGE_SIZE) ''pr->freelist_offset < PAGE_SIZE'') (\<lambda>_.
      let prpage = PR_PAGEADDR r; fla = prpage + of_nat (freelist_offset r);
          next = kwords h fla; nf = nfree r - 1 in
      if next \<noteq> 0
      then kbind (kassert (nf > 0) ''pr->nfree > 0'') (\<lambda>_.
           kbind (kassert (next - prpage < of_nat PAGE_SIZE) ''fla - prpage < PAGE_SIZE'') (\<lambda>_.
           Inr (fla, h\<lparr>refs := (refs h)(pr := r\<lparr>nfree := nf, freelist_offset := unat (next - prpage)\<rparr>)\<rparr>)))
      else kbind (kassert (nf = 0) ''pr->nfree == 0'') (\<lambda>_.
           Inr (fla, h\<lparr>refs := (refs h)(pr := r\<lparr>nfree := nf, freelist_offset := INVALID_OFFSET\<rparr>)\<rparr>))))"

text \<open>The loop that links block \<open>i\<close> to block \<open>i - 1\<close>.\<close>

fun thread_blocks :: "vaddr_t \<Rightarrow> nat \<Rightarrow> nat list \<Rightarrow> (vaddr_t \<Rightarrow> u32) \<Rightarrow> (vaddr_t \<Rightarrow> u32) res" where
  "thread_blocks prpage sz [] w = Inr w"
| "thread_blocks prpage sz (i # is) w =
     (let fl = prpage + of_nat (i * sz); next = prpage + of_nat ((i - 1) * sz) in
      kbind (kassert (fl \<noteq> next) ''fl != fl->next'') (\<lambda>_. thread_blocks prpage sz is (w(fl := next))))"

definition new_heap_page :: "vaddr_t \<Rightarrow> vaddr_t \<Rightarrow> nat \<Rightarrow> kheap \<Rightarrow> kheap res" where
  "new_heap_page pr prpage blktype h =
     (let n = PAGE_SIZE div sizes ! blktype in
      kbind (thread_blocks prpage (sizes ! blktype) [1..<n] ((kwords h)(prpage := 0))) (\<lambda>w.
      let fla = prpage + of_nat ((n - 1) * sizes ! blktype); off = unat (fla - prpage) in
      kbind (kassert (off = (n - 1) * sizes ! blktype)
               ''pr->freelist_offset == (pr->nfree-1)*sizes[blktype]'') (\<lambda>_.
      Inr (h\<lparr>kwords := w,
             refs := (refs h)(pr := \<lparr>pageaddr_and_blocktype = MKPAB prpage blktype,
                                     freelist_offset = off, nfree = n\<rparr>),
             sizebases := (sizebases h)[blktype := pr # sizebases h ! blktype],
             allbase := pr # allbase h\<rparr>))))"

definition subpage_kmalloc :: "'s kpage_ops \<Rightarrow> nat \<Rightarrow> kheap \<Rightarrow> 's \<Rightarrow> (vaddr_t \<times> kheap \<times> 's) res" where
  "subpage_kmalloc kp sz h s =
     kbind (blocktype sz) (\<lambda>blktype.
     kbind (find_free_page (refs h) blktype (sizebases h ! blktype)) (\<lambda>found.
     case found of
       Some pr \<Rightarrow> kbind (doalloc pr h) (\<lambda>(retptr, h1). Inr (retptr, h1, s))
     | None \<Rightarrow>
         kbind (kp_alloc kp 1 s) (\<lambda>(prpage, s1).
         if prpage = 0 then Inr (0, h, s1)
         else
           kbind (kassert (unat prpage mod PAGE_SIZE = 0) ''prpage % PAGE_SIZE == 0'') (\<lambda>_.
           kbind (allocpageref kp h s1) (\<lambda>(pr, h1, s2).
           if pr = 0 then kbind (kp_free kp prpage s2) (\<lambda>s3. Inr (0, h1, s3))
           else
             kbind (new_heap_page pr prpage blktype h1) (\<lambda>h2.
             kbind (doalloc pr h2) (\<lambda>(retptr, h3). Inr (retptr, h3, s2))))))))"

text \<open>The search for the page a pointer is on.\<close>

fun find_owner :: "(vaddr_t \<Rightarrow> pageref) \<Rightarrow> vaddr_t \<Rightarrow> vaddr_t list \<Rightarrow> vaddr_t option res" where
  "find_owner rf ptraddr [] = Inr None"
| "find_owner rf ptraddr (pr # prs) =
     kbind (kassert (PR_BLOCKTYPE (rf pr) < NSIZES) ''blktype >= 0 && blktype < NSIZES'') (\<lambda>_.
     if ptraddr \<ge> PR_PAGEADDR (rf pr) \<and> ptraddr < PR_PAGEADDR (rf pr) + of_nat PAGE_SIZE
     then Inr (Some pr) else find_owner rf ptraddr prs)"

definition subpage_kfree :: "'s kpage_ops \<Rightarrow> vaddr_t \<Rightarrow> kheap \<Rightarrow> 's \<Rightarrow> (int \<times> kheap \<times> 's) res" where
  "subpage_kfree kp ptr h s =
     kbind (find_owner (refs h) ptr (allbase h)) (\<lambda>found.
     case found of
       None \<Rightarrow> Inr (-1, h, s)
     | Some pr \<Rightarrow>
         let r = refs h pr; prpage = PR_PAGEADDR r; blktype = PR_BLOCKTYPE r;
             offset = unat (ptr - prpage) in
         if offset \<ge> PAGE_SIZE \<or> offset mod (sizes ! blktype) \<noteq> 0
         then Inl (Panic ''kfree: subpage free of invalid addr'')
         else
           let w1 = fill_deadbeef ptr (sizes ! blktype) (kwords h);
               fl = prpage + of_nat offset;
               next = (if freelist_offset r = INVALID_OFFSET then 0 else prpage + of_nat (freelist_offset r));
               nf = nfree r + 1;
               h1 = h\<lparr>kwords := w1(fl := next),
                      refs := (refs h)(pr := r\<lparr>freelist_offset := offset, nfree := nf\<rparr>)\<rparr> in
           kbind (kassert (freelist_offset r = INVALID_OFFSET \<or> fl \<noteq> next) ''fl != fl->next'') (\<lambda>_.
           kbind (kassert (nf \<le> PAGE_SIZE div sizes ! blktype) ''pr->nfree <= PAGE_SIZE / sizes[blktype]'') (\<lambda>_.
           if nf = PAGE_SIZE div sizes ! blktype
           then kbind (remove_lists pr blktype h1) (\<lambda>h2.
                kbind (freepageref pr h2) (\<lambda>h3.
                kbind (kp_free kp prpage s) (\<lambda>s1. Inr (0, h3, s1))))
           else Inr (0, h1, s))))"

definition kmalloc :: "'s kpage_ops \<Rightarrow> size_t \<Rightarrow> kheap \<Rightarrow> 's \<Rightarrow> (vaddr_t \<times> kheap \<times> 's) res" where
  "kmalloc kp sz h s =
     (if unat sz \<ge> LARGEST_SUBPAGE_SIZE
      then
        let npages = unat (sz + of_nat PAGE_SIZE - 1) div PAGE_SIZE in
        kbind (kp_alloc kp npages s) (\<lambda>(address, s1).
        if address = 0 then Inr (0, h, s1)
        else kbind (kassert (unat address mod PAGE_SIZE = 0) ''address % PAGE_SIZE == 0'') (\<lambda>_.
             Inr (address, h, s1)))
      else subpage_kmalloc kp (unat sz) h s)"

definition kfree :: "'s kpage_ops \<Rightarrow> vaddr_t \<Rightarrow> kheap \<Rightarrow> 's \<Rightarrow> (kheap \<times> 's) res" where
  "kfree kp ptr h s =
     (if ptr = 0 then Inr (h, s)
      else kbind (subpage_kfree kp ptr h s) (\<lambda>(r, h1, s1).
           if r \<noteq> 0
           then kbind (kassert (unat ptr mod PAGE_SIZE = 0) ''(vaddr_t)ptr%PAGE_SIZE==0'') (\<lambda>_.
                kbind (kp_free kp ptr s1) (\<lambda>s2. Inr (h1, s2)))
           else Inr (h1, s1)))"

section \<open>Addresses in a page\<close>

lemma unat_page_offset:
  assumes "page_aligned P" and "k < PAGE_SIZE"
  shows "unat (P + of_nat k) = unat P + k"
proof -
  obtain a where a: "unat P = PAGE_SIZE * a" using assms(1) by (auto simp: page_aligned_iff elim!: dvdE)
  have "unat P < 2 ^ 32" using unsigned_less [of P] by simp
  then have "unat P + k < 2 ^ 32" using a assms(2) by simp
  moreover have "unat (of_nat k :: u32) = k" using assms(2) by (simp add: unat_of_nat)
  ultimately show ?thesis by (subst unat_add_lem [THEN iffD1]) simp_all
qed

lemma page_of_offset:
  assumes "page_aligned P" and "k < PAGE_SIZE"
  shows "(P + of_nat k) AND PAGE_FRAME = P"
proof -
  obtain a where a: "unat P = PAGE_SIZE * a" using assms(1) by (auto simp: page_aligned_iff elim!: dvdE)
  have "unat ((P + of_nat k) AND PAGE_FRAME) = unat P"
    using assms(2) by (simp add: unat_and_PAGE_FRAME unat_page_offset [OF assms] a)
  then show ?thesis by (simp add: word_unat_eq_iff)
qed

lemma unat_offset_diff: "k < PAGE_SIZE \<Longrightarrow> unat (P + of_nat k - P) = k" for P :: u32
  by (simp add: unat_of_nat)

lemma page_offset_inj:
  assumes "page_aligned P" "page_aligned Q" "j < PAGE_SIZE" "k < PAGE_SIZE"
  shows "P + of_nat j = Q + of_nat k \<longleftrightarrow> P = Q \<and> j = k"
  using page_of_offset [OF assms(1,3)] page_of_offset [OF assms(2,4)]
    unat_page_offset [OF assms(1,3)] unat_page_offset [OF assms(2,4)] by auto

text \<open>An address is its page and an offset, and the test \<open>find_owner\<close> makes finds its page.\<close>

lemma page_decompose: "\<exists>k < PAGE_SIZE. a = (a AND PAGE_FRAME) + of_nat k"
proof -
  have "unat a = unat (a AND PAGE_FRAME) + unat a mod PAGE_SIZE"
    by (simp add: unat_and_PAGE_FRAME)
  then have "a = (a AND PAGE_FRAME) + of_nat (unat a mod PAGE_SIZE)"
    using unat_page_offset [OF page_aligned_and, of "unat a mod PAGE_SIZE" a] by (simp add: word_unat_eq_iff)
  then show ?thesis by (intro exI [of _ "unat a mod PAGE_SIZE"]) simp
qed

lemma kseg_in_page_iff:
  assumes "page_aligned P" and "P < 0xa0000000"
  shows "P \<le> a \<and> a < P + of_nat PAGE_SIZE \<longleftrightarrow> a AND PAGE_FRAME = P"
proof -
  have "unat P < 0xa0000000" using assms(2) by (simp add: word_less_nat_alt)
  then have sum: "unat (P + 4096) = unat P + 4096" by (subst unat_add_lem [THEN iffD1]) simp_all
  have "P \<le> a \<and> a < P + 4096 \<longleftrightarrow> unat P \<le> unat a \<and> unat a < unat P + 4096"
    by (simp add: word_le_nat_alt word_less_nat_alt sum)
  also have "\<dots> \<longleftrightarrow> unat a div 4096 * 4096 = unat P"
    using assms(1) by (auto simp: page_aligned_iff elim!: dvdE)
  also have "\<dots> \<longleftrightarrow> a AND PAGE_FRAME = P"
    unfolding word_unat_eq_iff unat_and_PAGE_FRAME by simp
  finally show ?thesis by simp
qed

section \<open>Block sizes\<close>

lemma sizes_nth: "b < NSIZES \<Longrightarrow> sizes ! b = 2 ^ (b + 4)"
  by (auto simp: NSIZES_def sizes_def less_Suc_eq numeral_eq_Suc)

lemma sizes_facts:
  assumes "b < NSIZES"
  shows "16 \<le> sizes ! b" "sizes ! b \<le> 2048" "4 dvd sizes ! b" "PAGE_SIZE div sizes ! b * sizes ! b = PAGE_SIZE"
    "2 \<le> PAGE_SIZE div sizes ! b"
proof -
  have e: "sizes ! b = 2 ^ b * 16" using sizes_nth [OF assms] by (simp add: power_add)
  have b: "b \<le> 7" using assms by (simp add: NSIZES_def)
  then have "(2::nat) ^ b \<le> 2 ^ 7" by (intro power_increasing) simp_all
  then show "sizes ! b \<le> 2048" using e by simp
  show "16 \<le> sizes ! b" "4 dvd sizes ! b" using e by (simp_all add: dvd_mult)
  have "(4096::nat) = 2 ^ 12" by simp
  moreover have "sizes ! b dvd 2 ^ 12"
    unfolding sizes_nth [OF assms] using b by (intro le_imp_power_dvd) simp
  ultimately show "PAGE_SIZE div sizes ! b * sizes ! b = PAGE_SIZE" by simp
  show "2 \<le> PAGE_SIZE div sizes ! b"
    using \<open>sizes ! b \<le> 2048\<close> \<open>16 \<le> sizes ! b\<close> by (subst less_eq_div_iff_mult_less_eq) auto
qed

lemma blocktype_ok:
  assumes "blocktype sz = Inr b"
  shows "b < NSIZES" "sz \<le> sizes ! b"
  using assms by (auto simp: blocktype_def find_upt_Some_iff split: option.splits)

lemma blocktype_returns:
  assumes "sz \<le> LARGEST_SUBPAGE_SIZE"
  shows "\<exists>b. blocktype sz = Inr b"
proof -
  have "\<exists>i < NSIZES. sz \<le> sizes ! i"
    using assms by (intro exI [of _ 7]) (simp add: NSIZES_def sizes_def LARGEST_SUBPAGE_SIZE_def)
  then show ?thesis
    by (auto simp: blocktype_def find_upt_None_iff split: option.split)
qed

lemma mask_parts:
  fixes x m :: u32
  shows "x AND m = 0 \<Longrightarrow> x AND NOT m = x" and "x AND m = x \<Longrightarrow> x AND NOT m = 0"
proof -
  have "x = (x AND m) OR (x AND NOT m)" by (simp flip: bit.conj_disj_distrib)
  then show "x AND m = 0 \<Longrightarrow> x AND NOT m = x" by simp
  have "(x AND m) AND NOT m = 0" by (simp add: and.assoc)
  then show "x AND m = x \<Longrightarrow> x AND NOT m = 0" by simp
qed

lemma MKPAB_facts:
  assumes "page_aligned P" and "b < NSIZES"
  shows "MKPAB P b AND PAGE_FRAME = P" "unat (MKPAB P b AND NOT PAGE_FRAME) = b"
proof -
  have P: "P AND PAGE_FRAME = P" using assms(1) by (simp add: page_aligned_def)
  have b: "(of_nat b :: u32) AND PAGE_FRAME = 0"
    using page_of_offset [of 0 b] assms(2) by (simp add: page_aligned_def NSIZES_def)
  then have b': "(of_nat b :: u32) AND NOT PAGE_FRAME = of_nat b" by (rule mask_parts)
  show "MKPAB P b AND PAGE_FRAME = P"
    unfolding MKPAB_def P b' by (simp only: bit.conj_disj_distrib2 P b or.right_neutral)
  have "P AND NOT PAGE_FRAME = 0" using P by (rule mask_parts)
  then have "MKPAB P b AND NOT PAGE_FRAME = of_nat b"
    unfolding MKPAB_def P b' by (simp only: bit.conj_disj_distrib2 b' or.left_neutral)
  then show "unat (MKPAB P b AND NOT PAGE_FRAME) = b"
    using assms(2) by (simp add: unat_of_nat NSIZES_def)
qed

section \<open>The free list of a page\<close>

definition block_at :: "vaddr_t \<Rightarrow> nat \<Rightarrow> nat \<Rightarrow> vaddr_t" where
  "block_at P b k = P + of_nat (k * sizes ! b)"

definition nblocks :: "nat \<Rightarrow> nat" where
  "nblocks b = PAGE_SIZE div sizes ! b"

definition blocks :: "vaddr_t \<Rightarrow> nat \<Rightarrow> vaddr_t set" where
  "blocks P b = block_at P b ` {..<nblocks b}"

text \<open>The list of addresses that a null-terminated chain of links runs through, and its first
  \<open>n\<close> elements.\<close>

fun chain :: "(vaddr_t \<Rightarrow> u32) \<Rightarrow> vaddr_t \<Rightarrow> vaddr_t list \<Rightarrow> bool" where
  "chain w a [] \<longleftrightarrow> a = 0"
| "chain w a (x # xs) \<longleftrightarrow> a = x \<and> a \<noteq> 0 \<and> chain w (w x) xs"

fun follow :: "(vaddr_t \<Rightarrow> u32) \<Rightarrow> vaddr_t \<Rightarrow> nat \<Rightarrow> vaddr_t list" where
  "follow w a 0 = []"
| "follow w a (Suc n) = a # follow w (w a) n"

definition fl_start :: "pageref \<Rightarrow> vaddr_t" where
  "fl_start r = (if freelist_offset r = INVALID_OFFSET then 0 else PR_PAGEADDR r + of_nat (freelist_offset r))"

definition fl_blocks :: "(vaddr_t \<Rightarrow> u32) \<Rightarrow> pageref \<Rightarrow> vaddr_t list" where
  "fl_blocks w r = follow w (fl_start r) (nfree r)"

definition page_ok :: "(vaddr_t \<Rightarrow> u32) \<Rightarrow> pageref \<Rightarrow> bool" where
  "page_ok w r \<longleftrightarrow> PR_BLOCKTYPE r < NSIZES \<and> MIPS_KSEG0 \<le> PR_PAGEADDR r \<and> PR_PAGEADDR r < 0xa0000000 \<and>
     (freelist_offset r = INVALID_OFFSET \<or> freelist_offset r < PAGE_SIZE) \<and>
     chain w (fl_start r) (fl_blocks w r) \<and> distinct (fl_blocks w r) \<and>
     set (fl_blocks w r) \<subseteq> blocks (PR_PAGEADDR r) (PR_BLOCKTYPE r)"

lemma chain_follow: "chain w a xs \<Longrightarrow> follow w a (length xs) = xs"
  by (induction xs arbitrary: a) auto

lemma length_follow [simp]: "length (follow w a n) = n"
  by (induction n arbitrary: a) auto

lemma chain_cong: "(\<And>x. x \<in> set xs \<Longrightarrow> w' x = w x) \<Longrightarrow> chain w' a xs = chain w a xs"
  by (induction xs arbitrary: a) auto

lemma length_fl_blocks [simp]: "length (fl_blocks w r) = nfree r"
  by (simp add: fl_blocks_def)

lemma page_okI:
  assumes "PR_BLOCKTYPE r < NSIZES" "MIPS_KSEG0 \<le> PR_PAGEADDR r" "PR_PAGEADDR r < 0xa0000000"
    "freelist_offset r = INVALID_OFFSET \<or> freelist_offset r < PAGE_SIZE"
    and "chain w (fl_start r) fl" "distinct fl" "length fl = nfree r"
    "set fl \<subseteq> blocks (PR_PAGEADDR r) (PR_BLOCKTYPE r)"
  shows "page_ok w r" "fl_blocks w r = fl"
  using assms chain_follow [OF assms(5)] by (auto simp: page_ok_def fl_blocks_def)

lemma page_aligned_PR [simp]: "page_aligned (PR_PAGEADDR r)"
  by (simp add: PR_PAGEADDR_def)

lemma block_offset: "b < NSIZES \<Longrightarrow> k < nblocks b \<Longrightarrow> k * sizes ! b < PAGE_SIZE"
  using sizes_facts [of b] unfolding nblocks_def
  by (metis mult_less_cancel2 gr0I not_numeral_le_zero)

lemma block_at_inj:
  assumes "page_aligned P" "b < NSIZES" "j < nblocks b" "k < nblocks b"
  shows "block_at P b j = block_at P b k \<longleftrightarrow> j = k"
proof -
  have "block_at P b j = block_at P b k \<longleftrightarrow> j * sizes ! b = k * sizes ! b"
    unfolding block_at_def using assms by (subst page_offset_inj) (auto simp: block_offset)
  then show ?thesis using sizes_facts(1) [OF assms(2)] by auto
qed

lemma card_blocks: "page_aligned P \<Longrightarrow> b < NSIZES \<Longrightarrow> card (blocks P b) = nblocks b"
  unfolding blocks_def by (subst card_image) (auto intro!: inj_onI simp: block_at_inj)

lemma finite_blocks [simp]: "finite (blocks P b)"
  by (simp add: blocks_def)

lemma blocks_page:
  assumes "page_aligned P" "b < NSIZES" "x \<in> blocks P b"
  shows "x AND PAGE_FRAME = P"
  using assms by (auto simp: blocks_def block_at_def simp del: of_nat_mult intro!: page_of_offset block_offset)

lemma blocks_iff:
  assumes "page_aligned P" "b < NSIZES" and that: "k < PAGE_SIZE"
  shows "P + of_nat k \<in> blocks P b \<longleftrightarrow> k mod sizes ! b = 0"
proof
  assume "P + of_nat k \<in> blocks P b"
  then obtain j where j: "j < nblocks b" "P + of_nat k = P + of_nat (j * sizes ! b)"
    by (auto simp: blocks_def block_at_def)
  then have "k = j * sizes ! b" using page_offset_inj assms that block_offset by blast
  then show "k mod sizes ! b = 0" by simp
next
  assume "k mod sizes ! b = 0"
  then have k: "k = k div sizes ! b * sizes ! b" by auto
  then have "k div sizes ! b * sizes ! b < nblocks b * sizes ! b"
    using that sizes_facts(4) [OF assms(2)] by (simp add: nblocks_def)
  then have "k div sizes ! b < nblocks b" by (metis mult_less_cancel2)
  then show "P + of_nat k \<in> blocks P b" unfolding blocks_def block_at_def using k by (metis (no_types, lifting) image_eqI lessThan_iff)
qed

lemma page_ok_not_full:
  assumes "page_ok w r" "x \<in> blocks (PR_PAGEADDR r) (PR_BLOCKTYPE r)" "x \<notin> set (fl_blocks w r)"
  shows "nfree r < nblocks (PR_BLOCKTYPE r)"
proof -
  have "set (fl_blocks w r) \<subset> blocks (PR_PAGEADDR r) (PR_BLOCKTYPE r)"
    using assms by (auto simp: page_ok_def)
  then have "card (set (fl_blocks w r)) < nblocks (PR_BLOCKTYPE r)"
    using assms(1) psubset_card_mono [OF finite_blocks] card_blocks [OF page_aligned_PR]
    by (metis page_ok_def)
  moreover have "card (set (fl_blocks w r)) = nfree r"
    using assms(1) by (simp add: page_ok_def distinct_card fl_blocks_def)
  ultimately show ?thesis by simp
qed

lemma page_ok_start:
  assumes "page_ok w r"
  shows "freelist_offset r = INVALID_OFFSET \<longleftrightarrow> nfree r = 0"
    and "nfree r > 0 \<Longrightarrow> fl_blocks w r = fl_start r # follow w (w (fl_start r)) (nfree r - 1)"
proof -
  have ch: "chain w (fl_start r) (fl_blocks w r)" using assms by (simp add: page_ok_def)
  show "nfree r > 0 \<Longrightarrow> fl_blocks w r = fl_start r # follow w (w (fl_start r)) (nfree r - 1)"
    by (cases "nfree r") (simp_all add: fl_blocks_def)
  have "unat (PR_PAGEADDR r + of_nat (freelist_offset r)) > 0" if "freelist_offset r < PAGE_SIZE"
  proof -
    have "unat (0x80000000::u32) \<le> unat (PR_PAGEADDR r)"
      using assms by (simp add: page_ok_def word_le_nat_alt)
    then show ?thesis using that by (simp add: unat_page_offset)
  qed
  then have "fl_start r = 0 \<longleftrightarrow> freelist_offset r = INVALID_OFFSET"
    using assms by (auto simp: page_ok_def fl_start_def)
  moreover have "fl_start r = 0 \<longleftrightarrow> nfree r = 0"
    using ch by (cases "nfree r") (auto simp: fl_blocks_def)
  ultimately show "freelist_offset r = INVALID_OFFSET \<longleftrightarrow> nfree r = 0" by simp
qed

text \<open>Taking the first block of a page that has one.\<close>

lemma doalloc_ok:
  assumes ok: "page_ok (kwords h) (refs h pr)" and free: "nfree (refs h pr) > 0"
  obtains r' where "doalloc pr h = Inr (hd (fl_blocks (kwords h) (refs h pr)), h\<lparr>refs := (refs h)(pr := r')\<rparr>)"
    "page_ok (kwords h) r'" "fl_blocks (kwords h) r' = tl (fl_blocks (kwords h) (refs h pr))"
    "PR_PAGEADDR r' = PR_PAGEADDR (refs h pr)" "PR_BLOCKTYPE r' = PR_BLOCKTYPE (refs h pr)"
    "nfree r' = nfree (refs h pr) - 1"
proof -
  define r w P where "r = refs h pr" and "w = kwords h" and "P = PR_PAGEADDR r"
  have ok': "page_ok w r" and nf: "nfree r > 0" using ok free by (simp_all add: r_def w_def)
  have off: "freelist_offset r \<noteq> INVALID_OFFSET" using page_ok_start(1) [OF ok'] nf by simp
  then have st: "fl_start r = P + of_nat (freelist_offset r)" "freelist_offset r < PAGE_SIZE"
    using ok' by (auto simp: fl_start_def P_def page_ok_def)
  define nx rest where "nx = w (fl_start r)" and "rest = follow w nx (nfree r - 1)"
  have fl: "fl_blocks w r = fl_start r # rest"
    using page_ok_start(2) [OF ok' nf] by (simp add: rest_def nx_def)
  then have ch: "chain w nx rest" and d: "distinct rest" and sub: "set rest \<subseteq> blocks P (PR_BLOCKTYPE r)"
    and len: "length rest = nfree r - 1"
    using ok' by (auto simp: page_ok_def nx_def P_def rest_def)
  have P: "page_aligned P" "PR_BLOCKTYPE r < NSIZES" using ok' by (simp_all add: P_def page_ok_def)
  define r' where "r' = (if nx \<noteq> 0 then r\<lparr>nfree := nfree r - 1, freelist_offset := unat (nx - P)\<rparr>
      else r\<lparr>nfree := nfree r - 1, freelist_offset := INVALID_OFFSET\<rparr>)"
  have page: "PR_PAGEADDR r' = P" "PR_BLOCKTYPE r' = PR_BLOCKTYPE r" "nfree r' = nfree r - 1"
    by (simp_all add: r'_def P_def PR_PAGEADDR_def PR_BLOCKTYPE_def)
  have nx: "unat (nx - P) < PAGE_SIZE \<and> nx = P + of_nat (unat (nx - P)) \<and> rest \<noteq> []" if "nx \<noteq> 0"
  proof -
    have "rest \<noteq> []" using ch that by (cases rest) auto
    then have "nx \<in> blocks P (PR_BLOCKTYPE r)" using ch sub by (cases rest) auto
    then have "nx AND PAGE_FRAME = P" using blocks_page [OF P] by simp
    then obtain k where "k < PAGE_SIZE" "nx = P + of_nat k" using page_decompose [of nx] by auto
    then show ?thesis using \<open>rest \<noteq> []\<close> by (simp add: unat_of_nat)
  qed
  have start': "fl_start r' = nx"
  proof (cases "nx = 0")
    case False
    then have "unat (nx - P) \<noteq> INVALID_OFFSET" using nx by (simp add: INVALID_OFFSET_def)
    then show ?thesis using nx False page(1) by (simp add: fl_start_def r'_def)
  qed (simp add: fl_start_def r'_def)
  have "page_ok w r' \<and> fl_blocks w r' = rest"
    using ok' page start' ch d len sub nx
    by (intro conjI page_okI [of r' w rest]) (auto simp: page_ok_def P_def r'_def)
  moreover have "doalloc pr h = Inr (fl_start r, h\<lparr>refs := (refs h)(pr := r')\<rparr>)"
  proof (cases "nx = 0")
    case True
    then have "nfree r - 1 = 0" using ch len by (cases rest) auto
    then show ?thesis using st True
      by (simp add: doalloc_def Let_def P_def r'_def nx_def w_def flip: r_def)
  next
    case False
    then have "nx - P < of_nat PAGE_SIZE" using nx by (simp add: word_less_nat_alt)
    moreover have "nfree r - 1 > 0" using nx [OF False] len by (cases rest) auto
    ultimately show ?thesis using st False
      by (simp add: doalloc_def Let_def P_def r'_def nx_def w_def flip: r_def)
  qed
  ultimately show thesis
    by (intro that [of r']) (simp_all add: fl page flip: r_def w_def P_def)
qed

text \<open>A page keeps its free list when the words of its free blocks are left alone.\<close>

lemma page_ok_frame:
  assumes "page_ok w r" and "\<And>x. x \<in> set (fl_blocks w r) \<Longrightarrow> w' x = w x"
  shows "page_ok w' r" "fl_blocks w' r = fl_blocks w r"
proof -
  have "chain w' (fl_start r) (fl_blocks w r)"
    using assms chain_cong [of "fl_blocks w r" w' w] by (simp add: page_ok_def)
  then show "page_ok w' r" "fl_blocks w' r = fl_blocks w r"
    using assms(1) page_okI [of r w' "fl_blocks w r"] by (auto simp: page_ok_def fl_blocks_def)
qed

text \<open>Clearing a block touches no word outside it, in particular not the link of another block.\<close>

lemma fold_upd_other:
  "(\<And>i. i \<in> set is \<Longrightarrow> f i \<noteq> a) \<Longrightarrow> fold (\<lambda>i w. w(f i := c)) is w a = w a"
  by (induction "is" arbitrary: w) auto

lemma fill_deadbeef_other:
  "(\<And>i. i < len div 4 \<Longrightarrow> ptr + of_nat (4 * i) \<noteq> a) \<Longrightarrow> fill_deadbeef ptr len w a = w a"
  unfolding fill_deadbeef_def by (rule fold_upd_other) auto

lemma word_in_block:
  assumes "page_aligned P" "b < NSIZES" "x \<in> blocks P b" "i < sizes ! b div 4"
  obtains k where "k < nblocks b" "x = block_at P b k" "k * sizes ! b + 4 * i < PAGE_SIZE"
    "x + of_nat (4 * i) = P + of_nat (k * sizes ! b + 4 * i)"
proof -
  obtain k where k: "k < nblocks b" "x = block_at P b k" using assms(3) by (auto simp: blocks_def)
  have "4 * i < sizes ! b" using assms(4) by auto
  moreover have "Suc k * sizes ! b \<le> nblocks b * sizes ! b" using k(1) by (intro mult_right_mono) auto
  ultimately have "k * sizes ! b + 4 * i < PAGE_SIZE"
    using sizes_facts(4) [OF assms(2)] by (simp add: nblocks_def)
  then show thesis using that [OF k] k(2) by (simp add: block_at_def)
qed

lemma clear_block_other:
  assumes "page_aligned P" "b < NSIZES" "x \<in> blocks P b"
    and y: "y AND PAGE_FRAME \<noteq> P \<or> y \<in> blocks P b \<and> y \<noteq> x"
  shows "fill_deadbeef x (sizes ! b) w y = w y"
proof (rule fill_deadbeef_other)
  fix i assume "i < sizes ! b div 4"
  then obtain k where k: "k < nblocks b" "x = block_at P b k" "k * sizes ! b + 4 * i < PAGE_SIZE"
    "x + of_nat (4 * i) = P + of_nat (k * sizes ! b + 4 * i)"
    using word_in_block [OF assms(1-3)] by blast
  show "x + of_nat (4 * i) \<noteq> y"
  proof
    assume eq: "x + of_nat (4 * i) = y"
    then have "y AND PAGE_FRAME = P" using page_of_offset [OF assms(1) k(3)] k(4) by simp
    then have "y \<in> blocks P b" "y \<noteq> x" using y by auto
    then have "(k * sizes ! b + 4 * i) mod sizes ! b = 0"
      using blocks_iff [OF assms(1,2) k(3)] eq k(4) by simp
    moreover have "4 * i < sizes ! b" using \<open>i < sizes ! b div 4\<close> by auto
    ultimately have "i = 0" by simp
    then show False using eq \<open>y \<noteq> x\<close> by simp
  qed
qed

text \<open>Giving a block back.\<close>

lemma put_block:
  assumes ok: "page_ok w r" and P: "P = PR_PAGEADDR r" and b: "b = PR_BLOCKTYPE r"
    and x: "x \<in> blocks P b" "x \<notin> set (fl_blocks w r)"
    and w': "w' = (fill_deadbeef x (sizes ! b) w)(x := fl_start r)"
    and r': "r' = r\<lparr>freelist_offset := unat (x - P), nfree := nfree r + 1\<rparr>"
  shows "page_ok w' r'" "fl_blocks w' r' = x # fl_blocks w r"
proof -
  have al: "page_aligned P" "b < NSIZES" using ok by (simp_all add: P b page_ok_def)
  have "x AND PAGE_FRAME = P" using blocks_page [OF al x(1)] .
  then obtain k where k: "k < PAGE_SIZE" "x = P + of_nat k" using page_decompose [of x] by auto
  then have "unat (x - P) = k" by (simp add: unat_of_nat)
  then have page: "PR_PAGEADDR r' = P" "PR_BLOCKTYPE r' = b" "fl_start r' = x" "freelist_offset r' < PAGE_SIZE"
    using k by (simp_all add: r' P b PR_PAGEADDR_def PR_BLOCKTYPE_def fl_start_def INVALID_OFFSET_def)
  have "unat (0x80000000::u32) \<le> unat P" using ok by (simp add: P page_ok_def word_le_nat_alt)
  then have "0 < unat x" using k unat_page_offset [OF al(1) k(1)] by simp
  then have x0: "x \<noteq> 0" by auto
  have "w' y = w y" if "y \<in> set (fl_blocks w r)" for y
  proof -
    have "y \<in> blocks P b" "y \<noteq> x" using that ok x by (auto simp: page_ok_def P b)
    then show ?thesis using clear_block_other [OF al x(1)] by (simp add: w')
  qed
  then have "chain w' (fl_start r) (fl_blocks w r)"
    using ok chain_cong [of "fl_blocks w r" w' w] by (simp add: page_ok_def)
  then have ch: "chain w' (fl_start r') (x # fl_blocks w r)" using x0 page(3) by (simp add: w')
  have "length (x # fl_blocks w r) = nfree r'" by (simp add: r' fl_blocks_def)
  then show "page_ok w' r'" "fl_blocks w' r' = x # fl_blocks w r"
    using ok x page al by (intro page_okI [OF _ _ _ _ ch]; force simp: page_ok_def P b)+
qed

text \<open>A fresh page: all its blocks are on the free list.\<close>

lemma thread_blocks_append:
  "thread_blocks P sz (xs @ ys) w = kbind (thread_blocks P sz xs w) (thread_blocks P sz ys)"
  by (induction xs arbitrary: w) (auto simp: Let_def kassert_If)

lemma thread_blocks_ok:
  assumes "page_aligned P" "b < NSIZES"
  shows "m < nblocks b \<Longrightarrow> \<exists>w'. thread_blocks P (sizes ! b) [1..<Suc m] w = Inr w' \<and>
     (\<forall>k. 0 < k \<and> k \<le> m \<longrightarrow> w' (block_at P b k) = block_at P b (k - 1)) \<and>
     (\<forall>a. a \<notin> block_at P b ` {1..m} \<longrightarrow> w' a = w a)"
proof (induction m)
  case 0
  then show ?case by simp
next
  case (Suc m)
  then obtain w1 where w1: "thread_blocks P (sizes ! b) [1..<Suc m] w = Inr w1"
    "\<forall>k. 0 < k \<and> k \<le> m \<longrightarrow> w1 (block_at P b k) = block_at P b (k - 1)"
    "\<forall>a. a \<notin> block_at P b ` {1..m} \<longrightarrow> w1 a = w a" by auto
  let ?w' = "w1(block_at P b (Suc m) := block_at P b m)"
  have ne: "block_at P b (Suc m) \<noteq> block_at P b k" if "k \<le> m" for k
    using block_at_inj [OF assms, of "Suc m" k] Suc.prems that by simp
  have "[1..<Suc (Suc m)] = [1..<Suc m] @ [Suc m]" by simp
  then have "thread_blocks P (sizes ! b) [1..<Suc (Suc m)] w = Inr ?w'"
    using w1(1) ne [of m] by (simp only: thread_blocks_append) (simp add: block_at_def)
  moreover have "?w' (block_at P b k) = block_at P b (k - 1)" if "0 < k" "k \<le> Suc m" for k
    using that w1(2) ne [of k] by (cases "k = Suc m") auto
  moreover have "?w' a = w a" if "a \<notin> block_at P b ` {1..Suc m}" for a
    using that w1(3) by (auto simp: image_iff)
  ultimately show ?case by blast
qed

text \<open>The addresses the kernel sees memory at, without the cache bypass: \<open>kseg0\<close>.\<close>

definition kseg0_page :: "vaddr_t \<Rightarrow> bool" where
  "kseg0_page P \<longleftrightarrow> page_aligned P \<and> MIPS_KSEG0 \<le> P \<and> P < 0xa0000000"

lemma kseg0_page_unat: "kseg0_page P \<Longrightarrow> 2147483648 \<le> unat P \<and> unat P < 2684354560"
  by (simp add: kseg0_page_def word_le_nat_alt word_less_nat_alt)

lemma block_nonzero:
  assumes "kseg0_page P" "b < NSIZES" "k < nblocks b"
  shows "block_at P b k \<noteq> 0"
proof -
  have "unat (block_at P b k) = unat P + k * sizes ! b"
    unfolding block_at_def using assms by (intro unat_page_offset block_offset) (simp_all add: kseg0_page_def)
  then show ?thesis using kseg0_page_unat [OF assms(1)] by auto
qed

lemma chain_rev_blocks:
  assumes "kseg0_page P" "b < NSIZES" "w (block_at P b 0) = 0"
  shows "m < nblocks b \<Longrightarrow> (\<And>k. 0 < k \<Longrightarrow> k \<le> m \<Longrightarrow> w (block_at P b k) = block_at P b (k - 1)) \<Longrightarrow>
    chain w (block_at P b m) (map (block_at P b) (rev [0..<Suc m]))"
proof (induction m)
  case 0
  then show ?case using assms block_nonzero [of P b 0] by simp
next
  case (Suc m)
  have "chain w (block_at P b m) (map (block_at P b) (rev [0..<Suc m]))" using Suc by simp
  then show ?case using Suc.prems(2) [of "Suc m"] block_nonzero [OF assms(1,2) Suc.prems(1)] by simp
qed

lemma new_heap_page_ok:
  assumes P: "kseg0_page P" and b: "b < NSIZES"
  obtains w r where "new_heap_page pr P b h = Inr (h\<lparr>kwords := w, refs := (refs h)(pr := r),
       sizebases := (sizebases h)[b := pr # sizebases h ! b], allbase := pr # allbase h\<rparr>)"
    "page_ok w r" "set (fl_blocks w r) = blocks P b" "nfree r = nblocks b"
    "PR_PAGEADDR r = P" "PR_BLOCKTYPE r = b" "\<And>a. a AND PAGE_FRAME \<noteq> P \<Longrightarrow> w a = kwords h a"
proof -
  have al: "page_aligned P" using P by (simp add: kseg0_page_def)
  define n where "n = nblocks b"
  have n: "2 \<le> n" using sizes_facts(5) [OF b] by (simp add: n_def nblocks_def)
  have range: "[1..<n] = [1..<Suc (n - 1)]" using n by simp
  obtain w where w: "thread_blocks P (sizes ! b) [1..<n] ((kwords h)(P := 0)) = Inr w"
    "\<And>k. 0 < k \<Longrightarrow> k \<le> n - 1 \<Longrightarrow> w (block_at P b k) = block_at P b (k - 1)"
    "\<And>a. a \<notin> block_at P b ` {1..n - 1} \<Longrightarrow> w a = ((kwords h)(P := 0)) a"
    using thread_blocks_ok [OF al b, of "n - 1" "(kwords h)(P := 0)"] n unfolding range n_def by fastforce
  define off where "off = (n - 1) * sizes ! b"
  have off: "off < PAGE_SIZE" unfolding off_def using n by (intro block_offset [OF b]) (simp add: n_def)
  define r where "r = \<lparr>pageaddr_and_blocktype = MKPAB P b, freelist_offset = off, nfree = n\<rparr>"
  have r: "PR_PAGEADDR r = P" "PR_BLOCKTYPE r = b" "nfree r = n" "freelist_offset r = off"
    using MKPAB_facts [OF al b] by (simp_all add: r_def PR_PAGEADDR_def PR_BLOCKTYPE_def)
  have start: "fl_start r = block_at P b (n - 1)"
    using off by (simp add: fl_start_def r INVALID_OFFSET_def block_at_def) (simp add: off_def)
  have "block_at P b 0 \<notin> block_at P b ` {1..n - 1}"
    using block_at_inj [OF al b] n by (auto simp: n_def)
  then have "w (block_at P b 0) = 0" using w(3) by (simp add: block_at_def)
  then have ch: "chain w (fl_start r) (map (block_at P b) (rev [0..<n]))"
    using chain_rev_blocks [OF P b, of w "n - 1"] w(2) n start by (simp add: n_def)
  have d: "distinct (map (block_at P b) (rev [0..<n]))"
    using block_at_inj [OF al b] by (auto simp: distinct_map n_def intro!: inj_onI)
  have set: "set (map (block_at P b) (rev [0..<n])) = blocks P b"
    by (simp add: blocks_def n_def atLeast0LessThan)
  have ok: "page_ok w r" "fl_blocks w r = map (block_at P b) (rev [0..<n])"
    using P b off d set by (intro page_okI [OF _ _ _ _ ch]; simp add: r kseg0_page_def)+
  have "w a = kwords h a" if "a AND PAGE_FRAME \<noteq> P" for a
  proof -
    have "a \<notin> blocks P b" using that blocks_page [OF al b] by blast
    moreover have "block_at P b ` {1..n - 1} \<subseteq> blocks P b"
      using n by (auto simp: blocks_def n_def)
    ultimately have "a \<notin> block_at P b ` {1..n - 1}" "a \<noteq> P"
      using that al by (auto simp: page_aligned_def)
    then show ?thesis using w(3) by simp
  qed
  moreover have "new_heap_page pr P b h = Inr (h\<lparr>kwords := w, refs := (refs h)(pr := r),
       sizebases := (sizebases h)[b := pr # sizebases h ! b], allbase := pr # allbase h\<rparr>)"
    using w(1) unat_offset_diff [OF off, of P]
    by (simp add: new_heap_page_def Let_def r_def off_def n_def flip: nblocks_def)
  ultimately show thesis using that [where w = w and r = r] ok r set by (simp add: n_def)
qed

section \<open>The table of pagerefs\<close>

definition root_used :: "kheap_root \<Rightarrow> nat set" where
  "root_used r = {q. q < NPAGEREFS_PER_PAGE \<and> bit (pagerefs_inuse r ! (q div INUSE_BITS)) (q mod INUSE_BITS)}"

definition root_ok :: "kheap_root \<Rightarrow> bool" where
  "root_ok r \<longleftrightarrow> length (pagerefs_inuse r) = INUSE_WORDS \<and> numinuse r = card (root_used r) \<and>
     (if kr_page r = 0 then numinuse r = 0 else kseg0_page (kr_page r))"

definition root_refs :: "kheap_root \<Rightarrow> vaddr_t set" where
  "root_refs r = ref_addr (kr_page r) ` root_used r"

definition roots_ok :: "kheap_root list \<Rightarrow> bool" where
  "roots_ok rs \<longleftrightarrow> (\<forall>r \<in> set rs. root_ok r) \<and> distinct (filter (\<lambda>p. p \<noteq> 0) (map kr_page rs))"

definition root_pages :: "kheap_root list \<Rightarrow> vaddr_t set" where
  "root_pages rs = kr_page ` set rs - {0}"

definition all_refs :: "kheap_root list \<Rightarrow> vaddr_t set" where
  "all_refs rs = (\<Union>r \<in> set rs. root_refs r)"

lemma ref_offset: "q < NPAGEREFS_PER_PAGE \<Longrightarrow> q * sizeof_pageref < PAGE_SIZE"
  by (simp add: NPAGEREFS_PER_PAGE_def sizeof_pageref_def)

lemma unat_of_int_u32:
  "0 \<le> e \<Longrightarrow> e < 2 ^ 32 \<Longrightarrow> unat (of_int e :: u32) = nat e"
  "e < 0 \<Longrightarrow> - (2 ^ 31) \<le> e \<Longrightarrow> unat (of_int e :: u32) = nat (e + 2 ^ 32)"
proof -
  show "0 \<le> e \<Longrightarrow> e < 2 ^ 32 \<Longrightarrow> unat (of_int e :: u32) = nat e"
    by (simp add: unsigned_of_int take_bit_int_eq_self)
  assume e: "e < 0" "- (2 ^ 31) \<le> e"
  then have "(e + 2 ^ 32) mod 2 ^ 32 = e + 2 ^ 32" by (intro mod_pos_pos_trivial) auto
  then have "e mod 2 ^ 32 = e + 2 ^ 32" by simp
  then show "unat (of_int e :: u32) = nat (e + 2 ^ 32)" by (simp add: unsigned_of_int take_bit_eq_mod)
qed

lemma ref_index_diff:
  assumes "kseg0_page P" "kseg0_page Q" "q < NPAGEREFS_PER_PAGE"
  shows "sint (ref_addr Q q - P) = int (unat Q) + int (q * sizeof_pageref) - int (unat P)"
proof -
  define m k j d where "m = unat Q" and "k = unat P" and "j = q * sizeof_pageref" and "d = int m + int j - int k"
  have un: "unat (ref_addr Q q) = m + j"
    unfolding ref_addr_def m_def j_def using assms by (intro unat_page_offset ref_offset) (simp_all add: kseg0_page_def)
  have "ref_addr Q q - P = of_nat (unat (ref_addr Q q)) - of_nat (unat P)" by simp
  then have eq: "ref_addr Q q - P = of_int d" by (simp only: un k_def [symmetric]) (simp add: d_def)
  have "- (2 ^ 31) \<le> d" "d < 2 ^ 31"
    using kseg0_page_unat [OF assms(1)] kseg0_page_unat [OF assms(2)] ref_offset [OF assms(3)]
    by (simp_all add: d_def flip: m_def k_def j_def)
  then have "sint (of_int d :: u32) = d" by (simp add: signed_of_int signed_take_bit_int_eq_self)
  then show ?thesis by (simp only: eq d_def m_def k_def j_def)
qed

lemma ref_index_same:
  assumes "kseg0_page P" "q < NPAGEREFS_PER_PAGE"
  shows "ref_index (ref_addr P q) P = q"
proof -
  have "sint (ref_addr P q - P) div int sizeof_pageref = int q"
    using ref_index_diff [OF assms(1,1,2)] by (simp add: sizeof_pageref_def)
  then show ?thesis using assms(2)
    by (simp add: ref_index_def unat_of_nat NPAGEREFS_PER_PAGE_def sizeof_pageref_def)
qed

lemma ref_index_other:
  assumes "kseg0_page P" "kseg0_page Q" "P \<noteq> Q" "q < NPAGEREFS_PER_PAGE"
  shows "\<not> ref_index (ref_addr Q q) P < NPAGEREFS_PER_PAGE"
proof -
  obtain a c where ac: "unat P = PAGE_SIZE * a" "unat Q = PAGE_SIZE * c"
    using assms(1,2) by (auto simp: kseg0_page_def page_aligned_iff elim!: dvdE)
  then have "a \<noteq> c" using assms(3) by (auto simp: word_unat_eq_iff)
  define e where "e = 256 * (int c - int a) + int q"
  have q: "q < 256" using assms(4) by (simp add: NPAGEREFS_PER_PAGE_def sizeof_pageref_def)
  have bnd: "a < 655360" "c < 655360"
    using kseg0_page_unat [OF assms(1)] kseg0_page_unat [OF assms(2)] ac by auto
  have "sint (ref_addr Q q - P) = 16 * e"
    unfolding ref_index_diff [OF assms(1,2,4)] by (simp only: ac sizeof_pageref_def e_def) simp
  then have idx: "ref_index (ref_addr Q q) P = unat (of_int e :: u32)"
    unfolding ref_index_def sizeof_pageref_def by simp
  have "256 \<le> e \<and> e < 2 ^ 32 \<or> e < 0 \<and> - (2 ^ 31) \<le> e"
    using \<open>a \<noteq> c\<close> bnd q by (cases "a < c") (auto simp: e_def)
  then have "256 \<le> unat (of_int e :: u32)" using unat_of_int_u32 [of e] by auto
  then show ?thesis unfolding idx by (simp add: NPAGEREFS_PER_PAGE_def sizeof_pageref_def)
qed

lemma inuse_consts: "NPAGEREFS_PER_PAGE = 256" "INUSE_BITS = 32" "INUSE_WORDS = 8"
  by (simp_all add: NPAGEREFS_PER_PAGE_def sizeof_pageref_def INUSE_BITS_def INUSE_WORDS_def)

declare push_bit_of_1 [simp del]

lemma word_bit_set:
  fixes w :: u32
  assumes "j < 32" "k < 32"
  shows "bit (w OR push_bit j 1) k \<longleftrightarrow> bit w k \<or> k = j" "bit (w AND NOT (push_bit j 1)) k \<longleftrightarrow> bit w k \<and> k \<noteq> j"
    "w AND push_bit j 1 = 0 \<longleftrightarrow> \<not> bit w j"
  using assms by (auto simp: bit_simps bit_iff_and_push_bit_not_eq_0 [of w j])

lemma root_used_set:
  assumes "length (pagerefs_inuse r) = INUSE_WORDS" "i < INUSE_WORDS" "j < INUSE_BITS"
  shows "root_used (r\<lparr>pagerefs_inuse := (pagerefs_inuse r)[i := pagerefs_inuse r ! i OR push_bit j 1], numinuse := n\<rparr>)
      = insert (i * INUSE_BITS + j) (root_used r)"
    and "root_used (r\<lparr>pagerefs_inuse := (pagerefs_inuse r)[i := pagerefs_inuse r ! i AND NOT (push_bit j 1)], numinuse := n\<rparr>)
      = root_used r - {i * INUSE_BITS + j}"
proof -
  have "q = i * 32 + j \<longleftrightarrow> q div 32 = i \<and> q mod 32 = j" for q using assms(3) by (auto simp: inuse_consts)
  moreover have "bit ((pagerefs_inuse r)[i := x] ! (q div 32)) (q mod 32) \<longleftrightarrow>
      (if q div 32 = i then bit x (q mod 32) else bit (pagerefs_inuse r ! (q div 32)) (q mod 32))" for x q
    using assms by (auto simp: inuse_consts)
  moreover have "i * 32 + j < 256" using assms by (auto simp: inuse_consts)
  ultimately show "root_used (r\<lparr>pagerefs_inuse := (pagerefs_inuse r)[i := pagerefs_inuse r ! i OR push_bit j 1], numinuse := n\<rparr>)
      = insert (i * INUSE_BITS + j) (root_used r)"
    and "root_used (r\<lparr>pagerefs_inuse := (pagerefs_inuse r)[i := pagerefs_inuse r ! i AND NOT (push_bit j 1)], numinuse := n\<rparr>)
      = root_used r - {i * INUSE_BITS + j}"
    using assms by (auto simp: root_used_def inuse_consts word_bit_set split: if_splits)
qed

lemma finite_root_used [simp]: "finite (root_used r)"
  by (simp add: root_used_def)

lemma ref_addr_inj:
  assumes "page_aligned P" "page_aligned Q" "q < NPAGEREFS_PER_PAGE" "q' < NPAGEREFS_PER_PAGE"
  shows "ref_addr P q = ref_addr Q q' \<longleftrightarrow> P = Q \<and> q = q'"
proof -
  have "sizeof_pageref \<noteq> 0" by (simp add: sizeof_pageref_def)
  then show ?thesis unfolding ref_addr_def using assms by (subst page_offset_inj) (auto simp: ref_offset)
qed

lemma root_refs_page: "root_ok r \<Longrightarrow> x \<in> root_refs r \<Longrightarrow> kseg0_page (kr_page r) \<and> x AND PAGE_FRAME = kr_page r"
  unfolding root_refs_def root_ok_def ref_addr_def
  by (auto simp: root_used_def kseg0_page_def card_gt_0_iff simp del: of_nat_mult
      intro!: page_of_offset ref_offset split: if_splits)

lemma root_refs_nonzero: "root_ok r \<Longrightarrow> x \<in> root_refs r \<Longrightarrow> x \<noteq> 0"
  using root_refs_page [of r x] by (auto simp: kseg0_page_def)

text \<open>Releasing a \<open>pageref\<close> that is in use succeeds, and releases that one only.\<close>

lemma free_in_roots_ok:
  "roots_ok rs \<Longrightarrow> p \<in> all_refs rs \<Longrightarrow> \<exists>rs'. free_in_roots p rs = Inr rs' \<and> roots_ok rs' \<and>
     map kr_page rs' = map kr_page rs \<and> all_refs rs' = all_refs rs - {p}"
proof (induction rs)
  case Nil
  then show ?case by (simp add: all_refs_def)
next
  case (Cons r rs)
  have ok: "root_ok r" "roots_ok rs" using Cons.prems(1) by (auto simp: roots_ok_def split: if_splits)
  have fresh: "kr_page r \<noteq> 0 \<Longrightarrow> kr_page r \<notin> kr_page ` set rs"
    using Cons.prems(1) by (auto simp: roots_ok_def image_iff)
  have others: "x AND PAGE_FRAME \<noteq> kr_page r" if x: "x \<in> all_refs rs" for x
  proof -
    obtain r2 where r2: "r2 \<in> set rs" "x \<in> root_refs r2" "root_ok r2"
      using x ok(2) by (auto simp: all_refs_def roots_ok_def)
    then have "kseg0_page (kr_page r2)" "x AND PAGE_FRAME = kr_page r2" using root_refs_page by blast+
    moreover have "kr_page r2 \<noteq> 0" using calculation(1) by (auto simp: kseg0_page_def)
    ultimately show ?thesis using fresh r2(1) by (metis image_eqI)
  qed
  show ?case
  proof (cases "p \<in> root_refs r")
    case True
    then obtain q where q: "q \<in> root_used r" "p = ref_addr (kr_page r) q" by (auto simp: root_refs_def)
    have q': "q < NPAGEREFS_PER_PAGE" "bit (pagerefs_inuse r ! (q div INUSE_BITS)) (q mod INUSE_BITS)"
      using q(1) by (simp_all add: root_used_def)
    have page: "kseg0_page (kr_page r)" using root_refs_page [OF ok(1) True] by simp
    then have nz: "kr_page r \<noteq> 0" by (auto simp: kseg0_page_def)
    have idx: "ref_index p (kr_page r) = q" using ref_index_same [OF page q'(1)] q(2) by simp
    let ?i = "q div INUSE_BITS" and ?j = "q mod INUSE_BITS"
    let ?r = "r\<lparr>pagerefs_inuse := (pagerefs_inuse r)[?i := pagerefs_inuse r ! ?i AND NOT (push_bit ?j 1)],
        numinuse := numinuse r - 1\<rparr>"
    have ij: "?i < INUSE_WORDS" "?j < INUSE_BITS" using q'(1) by (auto simp: inuse_consts)
    have len: "length (pagerefs_inuse r) = INUSE_WORDS" using ok(1) by (simp add: root_ok_def)
    have used: "root_used ?r = root_used r - {q}" using root_used_set(2) [OF len ij, of "numinuse r - 1"] by simp
    have "0 < numinuse r" using ok(1) q(1) by (auto simp: root_ok_def card_gt_0_iff)
    moreover have "pagerefs_inuse r ! ?i AND push_bit ?j 1 \<noteq> 0"
      using q'(2) ij(2) word_bit_set(3) [of ?j ?j] by (simp add: inuse_consts)
    ultimately have run: "free_in_roots p (r # rs) = Inr (?r # rs)"
      using nz idx q'(1) by (simp add: Let_def)
    have "root_ok ?r" using ok(1) used q(1) nz by (simp add: root_ok_def)
    then have "roots_ok (?r # rs)" using Cons.prems(1) by (simp add: roots_ok_def)
    moreover have "root_refs ?r = root_refs r - {p}"
      using used q ref_addr_inj [of "kr_page r" "kr_page r" _ q] page
      by (auto simp: root_refs_def root_used_def kseg0_page_def)
    moreover have "p \<notin> all_refs rs" using others root_refs_page [OF ok(1) True] by auto
    ultimately show ?thesis using run by (auto simp: all_refs_def)
  next
    case False
    then have p: "p \<in> all_refs rs" using Cons.prems(2) by (auto simp: all_refs_def)
    obtain rs' where rs': "free_in_roots p rs = Inr rs'" "roots_ok rs'" "map kr_page rs' = map kr_page rs"
      "all_refs rs' = all_refs rs - {p}" using Cons.IH [OF ok(2) p] by blast
    have "free_in_roots p (r # rs) = Inr (r # rs')"
    proof (cases "kr_page r = 0")
      case True
      then have "numinuse r = 0" using ok(1) unfolding root_ok_def by metis
      then show ?thesis using True rs'(1) by simp
    next
      case nz: False
      obtain r2 where r2: "r2 \<in> set rs" "p \<in> root_refs r2" "root_ok r2"
        using p ok(2) by (auto simp: all_refs_def roots_ok_def)
      then obtain q where "p = ref_addr (kr_page r2) q" "q < NPAGEREFS_PER_PAGE"
        by (auto simp: root_refs_def root_used_def)
      then have "\<not> ref_index p (kr_page r) < NPAGEREFS_PER_PAGE"
        using ref_index_other [of "kr_page r" "kr_page r2" q] root_refs_page [OF r2(3,2)] ok(1) nz fresh r2(1)
        by (auto simp: root_ok_def)
      then show ?thesis using nz rs'(1) by (simp add: Let_def)
    qed
    moreover have "roots_ok (r # rs')" using Cons.prems(1) rs'(2,3) ok by (simp add: roots_ok_def)
    ultimately show ?thesis using rs' False by (auto simp: all_refs_def)
  qed
qed

lemma distinct_filter_replace:
  assumes "distinct (filter P (as @ a # bs))" and "b = a \<or> \<not> P a \<and> (P b \<longrightarrow> b \<notin> set as \<union> set bs)"
  shows "distinct (filter P (as @ b # bs))"
  using assms by (auto split: if_splits)

lemma roots_replace:
  assumes ok: "roots_ok rs" and w: "w < length rs" and r': "root_ok r'"
    and page: "kr_page r' = kr_page (rs ! w) \<or> kr_page (rs ! w) = 0 \<and> kr_page r' \<notin> root_pages rs"
    and ref: "root_refs r' = insert pr (root_refs (rs ! w))"
  shows "roots_ok (rs[w := r'])" "all_refs (rs[w := r']) = insert pr (all_refs rs)"
    "root_pages (rs[w := r']) = insert (kr_page r') (root_pages rs) - {0}"
proof -
  define xs r ys where "xs = take w rs" and "r = rs ! w" and "ys = drop (Suc w) rs"
  have rs: "rs = xs @ r # ys" using w by (simp add: xs_def r_def ys_def id_take_nth_drop)
  have rs': "rs[w := r'] = xs @ r' # ys" using w by (simp add: xs_def ys_def upd_conv_take_nth_drop)
  have page': "kr_page r' = kr_page r \<or> kr_page r = 0 \<and> kr_page r' \<notin> root_pages (xs @ r # ys)"
    using page unfolding r_def [symmetric] unfolding rs .
  have "distinct (filter (\<lambda>p. p \<noteq> 0) (map kr_page xs @ kr_page r # map kr_page ys))"
    using ok unfolding rs roots_ok_def by simp
  then have "distinct (filter (\<lambda>p. p \<noteq> 0) (map kr_page xs @ kr_page r' # map kr_page ys))"
    by (rule distinct_filter_replace) (use page' in \<open>auto simp: root_pages_def\<close>)
  then show "roots_ok (rs[w := r'])"
    using ok r' unfolding rs' roots_ok_def unfolding rs by auto
  show "all_refs (rs[w := r']) = insert pr (all_refs rs)"
    using ref unfolding rs' r_def [symmetric] unfolding rs by (auto simp: all_refs_def)
  show "root_pages (rs[w := r']) = insert (kr_page r') (root_pages rs) - {0}"
    using page unfolding rs' r_def [symmetric] unfolding rs by (auto simp: root_pages_def)
qed

lemma roots_page_inj:
  "roots_ok rs \<Longrightarrow> r \<in> set rs \<Longrightarrow> r2 \<in> set rs \<Longrightarrow> kr_page r = kr_page r2 \<Longrightarrow> kr_page r \<noteq> 0 \<Longrightarrow> r = r2"
proof (induction rs)
  case (Cons a rs)
  have "roots_ok rs" "kr_page a \<noteq> 0 \<Longrightarrow> kr_page a \<notin> kr_page ` set rs"
    using Cons.prems(1) by (auto simp: roots_ok_def image_iff split: if_splits)
  then show ?case using Cons by (metis image_eqI set_ConsD)
qed simp

lemma first_root_Some:
  "first_root rs w0 = Some (w, i) \<Longrightarrow> w0 \<le> w \<and> w - w0 < length rs \<and> root_slot (rs ! (w - w0)) = Some i"
proof (induction rs arbitrary: w0)
  case (Cons r rs)
  show ?case
  proof (cases "root_slot r")
    case None
    then have "Suc w0 \<le> w \<and> w - Suc w0 < length rs \<and> root_slot (rs ! (w - Suc w0)) = Some i"
      using Cons by simp
    then show ?thesis by (auto simp: nth_Cons split: nat.split) (metis Suc_diff_Suc Suc_le_lessD diff_Suc_Suc old.nat.inject)
  qed (use Cons.prems in auto)
qed simp

lemma root_slot_Some:
  assumes "root_slot r = Some i"
  shows "i < INUSE_WORDS" "\<exists>j < INUSE_BITS. \<not> bit (pagerefs_inuse r ! i) j"
proof -
  have i: "i < INUSE_WORDS" "pagerefs_inuse r ! i \<noteq> 0xffffffff"
    using assms by (auto simp: root_slot_def find_upt_Some_iff split: if_splits)
  then show "i < INUSE_WORDS" by simp
  show "\<exists>j < INUSE_BITS. \<not> bit (pagerefs_inuse r ! i) j"
  proof (rule ccontr)
    assume "\<not> ?thesis"
    then have "pagerefs_inuse r ! i = -1" by (intro bit_word_eqI) (simp add: inuse_consts)
    then show False using i(2) by simp
  qed
qed

section \<open>The heap\<close>

text \<open>
  \<open>PS\<close> is the set of pages the kernel holds: the pages cut into blocks, the pages of
  \<open>pageref\<close>s, and the pages handed out whole. \<open>live\<close> is what clients hold: the blocks
  that are not on a free list, and the whole pages.
\<close>

definition pg :: "kheap \<Rightarrow> vaddr_t \<Rightarrow> vaddr_t" where
  "pg h pr = PR_PAGEADDR (refs h pr)"

definition bt :: "kheap \<Rightarrow> vaddr_t \<Rightarrow> nat" where
  "bt h pr = PR_BLOCKTYPE (refs h pr)"

definition heap_wf :: "vaddr_t set \<Rightarrow> kheap \<Rightarrow> bool" where
  "heap_wf PS h \<longleftrightarrow> roots_ok (kheaproots h) \<and> root_pages (kheaproots h) \<subseteq> PS \<and>
     set (allbase h) = all_refs (kheaproots h) \<and> distinct (allbase h) \<and> length (sizebases h) = NSIZES \<and>
     (\<forall>b < NSIZES. sizebases h ! b = filter (\<lambda>pr. bt h pr = b) (allbase h)) \<and>
     (\<forall>pr \<in> set (allbase h). page_ok (kwords h) (refs h pr) \<and> pg h pr \<in> PS - root_pages (kheaproots h)) \<and>
     inj_on (pg h) (set (allbase h))"

definition heap_inv :: "vaddr_t set \<Rightarrow> kheap \<Rightarrow> bool" where
  "heap_inv PS h \<longleftrightarrow> heap_wf PS h \<and> (\<forall>pr \<in> set (allbase h). nfree (refs h pr) < nblocks (bt h pr))"

definition used_blocks :: "kheap \<Rightarrow> vaddr_t \<Rightarrow> (vaddr_t \<times> nat) set" where
  "used_blocks h pr = (blocks (pg h pr) (bt h pr) - set (fl_blocks (kwords h) (refs h pr))) \<times> {sizes ! bt h pr}"

definition whole_pages :: "vaddr_t set \<Rightarrow> kheap \<Rightarrow> vaddr_t set" where
  "whole_pages PS h = PS - root_pages (kheaproots h) - pg h ` set (allbase h)"

definition live :: "vaddr_t set \<Rightarrow> kheap \<Rightarrow> (vaddr_t \<times> nat) set" where
  "live PS h = (\<Union>pr \<in> set (allbase h). used_blocks h pr) \<union> whole_pages PS h \<times> {PAGE_SIZE}"

lemma heap_wf_page:
  assumes "heap_wf PS h" "pr \<in> set (allbase h)"
  shows "page_ok (kwords h) (refs h pr)" "bt h pr < NSIZES" "page_aligned (pg h pr)" "pg h pr \<in> PS"
    "pg h pr \<notin> root_pages (kheaproots h)"
  using assms by (auto simp: heap_wf_def page_ok_def bt_def pg_def)

lemma free_block_page:
  assumes "heap_wf PS h" "pr \<in> set (allbase h)" "x \<in> set (fl_blocks (kwords h) (refs h pr))"
  shows "x AND PAGE_FRAME = pg h pr" "x \<in> blocks (pg h pr) (bt h pr)"
proof -
  show "x \<in> blocks (pg h pr) (bt h pr)"
    using heap_wf_page [OF assms(1,2)] assms(3) by (auto simp: page_ok_def pg_def bt_def)
  then show "x AND PAGE_FRAME = pg h pr" using heap_wf_page [OF assms(1,2)] blocks_page by blast
qed

lemma used_block_page:
  assumes "heap_wf PS h" "pr \<in> set (allbase h)" "(x, sz) \<in> used_blocks h pr"
  shows "x AND PAGE_FRAME = pg h pr" "sz = sizes ! bt h pr" "x \<in> blocks (pg h pr) (bt h pr)"
    "x \<notin> set (fl_blocks (kwords h) (refs h pr))"
  using assms heap_wf_page [OF assms(1,2)] blocks_page by (auto simp: used_blocks_def)

text \<open>A free block is in no block that is in use.\<close>

lemma free_block_not_live:
  assumes wf: "heap_wf PS h" "\<forall>P \<in> PS. page_aligned P" and pr: "pr \<in> set (allbase h)"
    and x: "x \<in> set (fl_blocks (kwords h) (refs h pr))"
  shows "x \<notin> fst ` live PS h"
proof
  assume "x \<in> fst ` live PS h"
  then consider q sz where "q \<in> set (allbase h)" "(x, sz) \<in> used_blocks h q" | "x \<in> whole_pages PS h"
    by (auto simp: live_def)
  then show False
  proof cases
    case 1
    then have "pg h q = pg h pr" using used_block_page(1) [OF wf(1)] free_block_page(1) [OF wf(1) pr x] by metis
    then have "q = pr" using wf(1) 1(1) pr by (auto simp: heap_wf_def inj_on_def)
    then show False using used_block_page(4) [OF wf(1) 1] x by simp
  next
    case 2
    then have "x AND PAGE_FRAME = x" using wf(2) by (auto simp: whole_pages_def page_aligned_def)
    then show False using free_block_page(1) [OF wf(1) pr x] 2 pr by (auto simp: whole_pages_def)
  qed
qed

text \<open>Changing the free list of one page and nothing else.\<close>

lemma heap_wf_change_page:
  assumes wf: "heap_wf PS h" and pr: "pr \<in> set (allbase h)"
    and h': "h' = h\<lparr>kwords := w', refs := (refs h)(pr := r')\<rparr>"
    and r': "page_ok w' r'" "PR_PAGEADDR r' = pg h pr" "PR_BLOCKTYPE r' = bt h pr"
    and frame: "\<forall>a. a AND PAGE_FRAME \<noteq> pg h pr \<longrightarrow> w' a = kwords h a"
  shows "heap_wf PS h'" "pg h' = pg h" "bt h' = bt h"
    "\<And>q. q \<in> set (allbase h) \<Longrightarrow> q \<noteq> pr \<Longrightarrow> used_blocks h' q = used_blocks h q"
    "whole_pages PS h' = whole_pages PS h"
proof -
  show same: "pg h' = pg h" "bt h' = bt h" using r' by (auto simp: h' pg_def bt_def)
  have keep: "w' x = kwords h x"
    if "q \<in> set (allbase h)" "q \<noteq> pr" "x \<in> set (fl_blocks (kwords h) (refs h q))" for q x
  proof -
    have "pg h q \<noteq> pg h pr" using wf that(1,2) pr by (auto simp: heap_wf_def inj_on_def)
    then show ?thesis using frame free_block_page(1) [OF wf that(1,3)] by simp
  qed
  have other: "page_ok w' (refs h q)" "fl_blocks w' (refs h q) = fl_blocks (kwords h) (refs h q)"
    if "q \<in> set (allbase h)" "q \<noteq> pr" for q
    using page_ok_frame [OF heap_wf_page(1) [OF wf that(1)], of w'] keep [OF that] by auto
  have pok: "page_ok (kwords h') (refs h' q)" if "q \<in> set (allbase h)" for q
    using other(1) [OF that] r'(1) by (simp add: h')
  have fields: "kheaproots h' = kheaproots h" "allbase h' = allbase h" "sizebases h' = sizebases h"
    by (simp_all add: h')
  show "heap_wf PS h'" using wf pok unfolding heap_wf_def same fields by blast
  show "used_blocks h' q = used_blocks h q" if "q \<in> set (allbase h)" "q \<noteq> pr" for q
    using other(2) [OF that] that(2) unfolding used_blocks_def same by (simp add: h')
  show "whole_pages PS h' = whole_pages PS h" unfolding whole_pages_def same by (simp add: h')
qed

lemma live_change_page:
  assumes "pr \<in> set (allbase h)" "allbase h' = allbase h" "whole_pages PS h' = whole_pages PS h"
    and "\<And>q. q \<in> set (allbase h) \<Longrightarrow> q \<noteq> pr \<Longrightarrow> used_blocks h' q = used_blocks h q"
  shows "live PS h' = used_blocks h' pr \<union> (\<Union>q \<in> set (allbase h) - {pr}. used_blocks h q) \<union> whole_pages PS h \<times> {PAGE_SIZE}"
    and "live PS h = used_blocks h pr \<union> (\<Union>q \<in> set (allbase h) - {pr}. used_blocks h q) \<union> whole_pages PS h \<times> {PAGE_SIZE}"
  using assms by (auto simp: live_def)

lemma doalloc_heap:
  assumes wf: "heap_wf PS h" "\<forall>P \<in> PS. page_aligned P" and pr: "pr \<in> set (allbase h)"
    and free: "nfree (refs h pr) > 0"
  obtains x h' where "doalloc pr h = Inr (x, h')" "heap_wf PS h'" "x \<notin> fst ` live PS h" "x \<noteq> 0"
    "live PS h' = insert (x, sizes ! bt h pr) (live PS h)" "allbase h' = allbase h" "bt h' = bt h"
    "nfree (refs h' pr) < nfree (refs h pr)" "\<And>q. q \<noteq> pr \<Longrightarrow> refs h' q = refs h q"
proof -
  let ?w = "kwords h" and ?r = "refs h pr"
  have ok: "page_ok ?w ?r" using heap_wf_page [OF wf(1) pr] by simp
  obtain r' where r': "doalloc pr h = Inr (hd (fl_blocks ?w ?r), h\<lparr>refs := (refs h)(pr := r')\<rparr>)"
    "page_ok ?w r'" "fl_blocks ?w r' = tl (fl_blocks ?w ?r)"
    "PR_PAGEADDR r' = PR_PAGEADDR ?r" "PR_BLOCKTYPE r' = PR_BLOCKTYPE ?r" "nfree r' = nfree ?r - 1"
    using doalloc_ok [OF ok free] by blast
  define h' where "h' = h\<lparr>kwords := ?w, refs := (refs h)(pr := r')\<rparr>"
  have h'_eq: "h\<lparr>refs := (refs h)(pr := r')\<rparr> = h'" by (simp add: h'_def)
  define x rest where "x = hd (fl_blocks ?w ?r)" and "rest = tl (fl_blocks ?w ?r)"
  have ne: "fl_blocks ?w ?r = x # rest"
    using page_ok_start(2) [OF ok free] by (simp add: x_def rest_def)
  then have x: "x \<in> set (fl_blocks ?w ?r)" "x \<notin> set rest" "x \<noteq> 0" using ok by (auto simp: page_ok_def)
  have same: "PR_PAGEADDR r' = pg h pr" "PR_BLOCKTYPE r' = bt h pr" using r'(4,5) by (simp_all add: pg_def bt_def)
  have ch: "heap_wf PS h'" "pg h' = pg h" "bt h' = bt h" "whole_pages PS h' = whole_pages PS h"
    "\<And>q. q \<in> set (allbase h) \<Longrightarrow> q \<noteq> pr \<Longrightarrow> used_blocks h' q = used_blocks h q"
    using heap_wf_change_page [OF wf(1) pr h'_def r'(2) same] by simp_all
  have lv: "live PS h' = used_blocks h' pr \<union> (\<Union>q \<in> set (allbase h) - {pr}. used_blocks h q) \<union> whole_pages PS h \<times> {PAGE_SIZE}"
    "live PS h = used_blocks h pr \<union> (\<Union>q \<in> set (allbase h) - {pr}. used_blocks h q) \<union> whole_pages PS h \<times> {PAGE_SIZE}"
    using live_change_page [OF pr, of h' PS] ch(4,5) by (simp_all add: h'_def)
  have "fl_blocks (kwords h') (refs h' pr) = rest" using r'(3) by (simp add: h'_def rest_def)
  then have "used_blocks h' pr = insert (x, sizes ! bt h pr) (used_blocks h pr)"
    using ne free_block_page(2) [OF wf(1) pr x(1)] x(2) unfolding used_blocks_def ch(2,3) by auto
  then have "live PS h' = insert (x, sizes ! bt h pr) (live PS h)" unfolding lv by auto
  moreover have "x \<notin> fst ` live PS h" by (rule free_block_not_live [OF wf pr x(1)])
  ultimately show thesis
    using that [of x h'] ch(1,3) r'(1,6) free x(3) unfolding h'_eq x_def [symmetric]
    by (simp add: h'_def)
qed

lemma doalloc_returns:
  assumes "heap_wf PS h" "pr \<in> set (allbase h)" "nfree (refs h pr) > 0"
  shows "\<exists>x h'. doalloc pr h = Inr (x, h')"
  by (rule doalloc_ok [OF heap_wf_page(1) [OF assms(1,2)] assms(3)]) blast

text \<open>Giving a block back to its page.\<close>

lemma put_block_heap:
  assumes wf: "heap_wf PS h" and pr: "pr \<in> set (allbase h)"
    and x: "(x, sz) \<in> used_blocks h pr"
    and h': "h' = h\<lparr>kwords := (fill_deadbeef x (sizes ! bt h pr) (kwords h))(x := fl_start (refs h pr)),
          refs := (refs h)(pr := (refs h pr)\<lparr>freelist_offset := unat (x - pg h pr), nfree := nfree (refs h pr) + 1\<rparr>)\<rparr>"
  shows "heap_wf PS h'" "live PS h' = live PS h - {(x, sz)}" "bt h' = bt h" "pg h' = pg h"
proof -
  note u = used_block_page [OF wf pr x]
  note page = heap_wf_page [OF wf pr]
  define w' r' where "w' = (fill_deadbeef x (sizes ! bt h pr) (kwords h))(x := fl_start (refs h pr))"
    and "r' = (refs h pr)\<lparr>freelist_offset := unat (x - pg h pr), nfree := nfree (refs h pr) + 1\<rparr>"
  have r': "page_ok w' r'" "fl_blocks w' r' = x # fl_blocks (kwords h) (refs h pr)"
    using put_block [OF page(1) pg_def bt_def u(3,4) w'_def r'_def] by auto
  have same: "PR_PAGEADDR r' = pg h pr" "PR_BLOCKTYPE r' = bt h pr"
    by (simp_all add: r'_def pg_def bt_def PR_PAGEADDR_def PR_BLOCKTYPE_def)
  have frame: "\<forall>a. a AND PAGE_FRAME \<noteq> pg h pr \<longrightarrow> w' a = kwords h a"
    using clear_block_other [OF page(3,2) u(3)] u(1) by (auto simp: w'_def)
  have h'': "h' = h\<lparr>kwords := w', refs := (refs h)(pr := r')\<rparr>" by (simp add: h' w'_def r'_def)
  note ch = heap_wf_change_page [OF wf pr h'' r'(1) same frame]
  show "heap_wf PS h'" "bt h' = bt h" "pg h' = pg h" by (rule ch)+
  have lv: "live PS h' = used_blocks h' pr \<union> (\<Union>q \<in> set (allbase h) - {pr}. used_blocks h q) \<union> whole_pages PS h \<times> {PAGE_SIZE}"
    "live PS h = used_blocks h pr \<union> (\<Union>q \<in> set (allbase h) - {pr}. used_blocks h q) \<union> whole_pages PS h \<times> {PAGE_SIZE}"
    using live_change_page [OF pr, of h' PS] ch(4,5) by (simp_all add: h'')
  have "fl_blocks (kwords h') (refs h' pr) = x # fl_blocks (kwords h) (refs h pr)" using r'(2) by (simp add: h'')
  then have "used_blocks h' pr = used_blocks h pr - {(x, sz)}"
    unfolding used_blocks_def ch(2,3) using u(2) by auto
  moreover have "(x, sz) \<notin> used_blocks h q" if "q \<in> set (allbase h) - {pr}" for q
  proof
    assume "(x, sz) \<in> used_blocks h q"
    then have "pg h q = pg h pr" using used_block_page(1) [OF wf] that u(1) by (metis Diff_iff)
    then show False using wf that pr by (auto simp: heap_wf_def inj_on_def)
  qed
  moreover have "(x, sz) \<notin> whole_pages PS h \<times> {PAGE_SIZE}"
    using u(2) sizes_facts(2) [OF page(2)] by auto
  ultimately show "live PS h' = live PS h - {(x, sz)}" unfolding lv by auto
qed

text \<open>Pages that come and go whole.\<close>

lemma heap_wf_insert:
  assumes wf: "heap_wf PS h" and P: "P \<notin> PS"
  shows "heap_wf (insert P PS) h" "live (insert P PS) h = insert (P, PAGE_SIZE) (live PS h)"
    "P \<in> whole_pages (insert P PS) h"
proof -
  show "heap_wf (insert P PS) h" using wf unfolding heap_wf_def by blast
  have "whole_pages (insert P PS) h = insert P (whole_pages PS h)"
    using wf P unfolding heap_wf_def whole_pages_def by blast
  then show "live (insert P PS) h = insert (P, PAGE_SIZE) (live PS h)" "P \<in> whole_pages (insert P PS) h"
    by (auto simp: live_def)
qed

lemma whole_not_used:
  assumes "heap_wf PS h" "pr \<in> set (allbase h)"
  shows "(P, PAGE_SIZE) \<notin> used_blocks h pr"
  using used_block_page(2) [OF assms] sizes_facts(2) [OF heap_wf_page(2) [OF assms]] by fastforce

lemma heap_wf_remove:
  assumes wf: "heap_wf PS h" and P: "P \<in> whole_pages PS h"
  shows "heap_wf (PS - {P}) h" "live (PS - {P}) h = live PS h - {(P, PAGE_SIZE)}"
proof -
  show "heap_wf (PS - {P}) h" using wf P unfolding heap_wf_def whole_pages_def by blast
  have "whole_pages (PS - {P}) h = whole_pages PS h - {P}" by (auto simp: whole_pages_def)
  then show "live (PS - {P}) h = live PS h - {(P, PAGE_SIZE)}"
    using whole_not_used [OF wf] by (auto simp: live_def)
qed

text \<open>A whole page becomes a page of blocks, all of them free.\<close>

lemma new_page_heap:
  assumes wf: "heap_wf PS h" and P: "P \<in> whole_pages PS h" "kseg0_page P" and b: "b < NSIZES"
    and rs: "roots_ok rs" "all_refs rs = insert pr (all_refs (kheaproots h))" "pr \<notin> all_refs (kheaproots h)"
      "root_pages rs \<subseteq> PS'" "PS' - root_pages rs = PS - root_pages (kheaproots h)"
  obtains h' where "new_heap_page pr P b (h\<lparr>kheaproots := rs\<rparr>) = Inr h'" "heap_wf PS' h'"
    "live PS' h' = live PS h - {(P, PAGE_SIZE)}" "allbase h' = pr # allbase h" "bt h' pr = b"
    "nfree (refs h' pr) = nblocks b" "\<And>q. q \<noteq> pr \<Longrightarrow> refs h' q = refs h q"
proof -
  obtain w r where run: "new_heap_page pr P b (h\<lparr>kheaproots := rs\<rparr>) = Inr (h\<lparr>kheaproots := rs, kwords := w,
      refs := (refs h)(pr := r), sizebases := (sizebases h)[b := pr # sizebases h ! b], allbase := pr # allbase h\<rparr>)"
    and r: "page_ok w r" "set (fl_blocks w r) = blocks P b" "nfree r = nblocks b" "PR_PAGEADDR r = P" "PR_BLOCKTYPE r = b"
    and w: "\<And>a. a AND PAGE_FRAME \<noteq> P \<Longrightarrow> w a = kwords h a"
    by (rule new_heap_page_ok [OF P(2) b, of pr "h\<lparr>kheaproots := rs\<rparr>"]) auto
  define h' where "h' = h\<lparr>kheaproots := rs, kwords := w, refs := (refs h)(pr := r),
      sizebases := (sizebases h)[b := pr # sizebases h ! b], allbase := pr # allbase h\<rparr>"
  have fields: "kheaproots h' = rs" "kwords h' = w" "allbase h' = pr # allbase h" "refs h' = (refs h)(pr := r)"
    "sizebases h' = (sizebases h)[b := pr # sizebases h ! b]" by (simp_all add: h'_def)
  have pr: "pr \<notin> set (allbase h)" using wf rs(3) by (simp add: heap_wf_def)
  have new: "pg h' pr = P" "bt h' pr = b" using r by (simp_all add: pg_def bt_def fields)
  have old: "pg h' q = pg h q \<and> bt h' q = bt h q \<and> refs h' q = refs h q" if "q \<in> set (allbase h)" for q
    using that pr by (auto simp: pg_def bt_def fields)
  have P_new: "pg h q \<noteq> P" if "q \<in> set (allbase h)" for q using that P(1) by (auto simp: whole_pages_def)
  have keep: "page_ok w (refs h q)" "fl_blocks w (refs h q) = fl_blocks (kwords h) (refs h q)"
    if "q \<in> set (allbase h)" for q
    using page_ok_frame [OF heap_wf_page(1) [OF wf that], of w] w free_block_page(1) [OF wf that] P_new [OF that]
    by auto
  have sb: "sizebases h' ! c = filter (\<lambda>q. bt h' q = c) (allbase h')" if "c < NSIZES" for c
  proof -
    have "sizebases h ! c = filter (\<lambda>q. bt h q = c) (allbase h)" using wf that by (simp add: heap_wf_def)
    also have "\<dots> = filter (\<lambda>q. bt h' q = c) (allbase h)" using old by (intro filter_cong) auto
    finally show ?thesis using wf that b new by (auto simp: fields heap_wf_def nth_list_update)
  qed
  have in_PS: "pg h q \<in> PS' - root_pages rs" if "q \<in> set (allbase h)" for q
    using heap_wf_page [OF wf that] rs(5) by auto
  have P_in: "P \<in> PS' - root_pages rs" using P(1) rs(5) by (auto simp: whole_pages_def)
  have "heap_wf PS' h'"
    unfolding heap_wf_def fields(1-3)
  proof (intro conjI)
    show "set (pr # allbase h) = all_refs rs" using wf rs(2) by (simp add: heap_wf_def)
    show "distinct (pr # allbase h)" using wf pr by (simp add: heap_wf_def)
    show "\<forall>b<NSIZES. sizebases h' ! b = filter (\<lambda>pr. bt h' pr = b) (pr # allbase h)"
      using sb unfolding fields(3) by blast
    show "length (sizebases h') = NSIZES" using wf by (simp add: heap_wf_def fields)
    show "\<forall>q \<in> set (pr # allbase h). page_ok w (refs h' q) \<and> pg h' q \<in> PS' - root_pages rs"
      using keep(1) old in_PS r(1) new P_in by (simp add: fields)
    have "inj_on (pg h) (set (allbase h))" using wf unfolding heap_wf_def by blast
    then have "inj_on (pg h') (set (allbase h))" using old by (auto simp: inj_on_def)
    moreover have "P \<notin> pg h' ` set (allbase h)" using P_new old by (metis imageE)
    ultimately show "inj_on (pg h') (set (pr # allbase h))" using new(1) pr by (simp add: inj_on_insert)
  qed (use rs in auto)
  moreover have "used_blocks h' pr = {}" using r(2) by (simp add: used_blocks_def new) (simp add: fields)
  moreover have "used_blocks h' q = used_blocks h q" if "q \<in> set (allbase h)" for q
    using old [OF that] keep(2) [OF that] by (simp add: used_blocks_def fields(2))
  moreover have "whole_pages PS' h' = whole_pages PS h - {P}"
    using old rs(5) new unfolding whole_pages_def fields(1,3) by auto
  ultimately have "live PS' h' = live PS h - {(P, PAGE_SIZE)}"
    using whole_not_used [OF wf] by (auto simp: live_def fields(3))
  then show thesis
    using that [OF run [folded h'_def]] \<open>heap_wf PS' h'\<close> r(3) new by (simp add: fields)
qed

text \<open>A page whose blocks are all free is given back, with its \<open>pageref\<close>.\<close>

lemma full_page_unused:
  assumes "heap_wf PS h" "pr \<in> set (allbase h)" "nfree (refs h pr) = nblocks (bt h pr)"
  shows "used_blocks h pr = {}"
proof -
  note page = heap_wf_page [OF assms(1,2)]
  have "set (fl_blocks (kwords h) (refs h pr)) \<subseteq> blocks (pg h pr) (bt h pr)"
    "card (set (fl_blocks (kwords h) (refs h pr))) = nblocks (bt h pr)"
    using page(1) assms(3) by (auto simp: page_ok_def pg_def bt_def distinct_card)
  then have "set (fl_blocks (kwords h) (refs h pr)) = blocks (pg h pr) (bt h pr)"
    using card_blocks [OF page(3,2)] by (intro card_subset_eq) auto
  then show ?thesis by (simp add: used_blocks_def)
qed

lemma drop_page_heap:
  assumes wf: "heap_wf PS h" and pr: "pr \<in> set (allbase h)" and full: "nfree (refs h pr) = nblocks (bt h pr)"
  obtains h1 h2 where "remove_lists pr (bt h pr) h = Inr h1" "freepageref pr h1 = Inr h2"
    "heap_wf (PS - {pg h pr}) h2" "live (PS - {pg h pr}) h2 = live PS h"
    "allbase h2 = remove1 pr (allbase h)" "refs h2 = refs h"
proof -
  note page = heap_wf_page [OF wf pr]
  let ?b = "bt h pr" and ?all = "remove1 pr (allbase h)"
  define sb where "sb = (sizebases h)[?b := remove1 pr (sizebases h ! ?b)]"
  have ok: "roots_ok (kheaproots h)" and pr': "pr \<in> all_refs (kheaproots h)"
    and dist: "distinct (allbase h)" and roots: "root_pages (kheaproots h) \<subseteq> PS"
    using wf pr unfolding heap_wf_def by auto
  obtain rs where rs: "free_in_roots pr (kheaproots h) = Inr rs" "roots_ok rs"
    "map kr_page rs = map kr_page (kheaproots h)" "all_refs rs = all_refs (kheaproots h) - {pr}"
    using free_in_roots_ok [OF ok pr'] by blast
  have rp: "root_pages rs = root_pages (kheaproots h)"
    using rs(3) unfolding root_pages_def by (metis list.set_map)
  define h2 where "h2 = h\<lparr>sizebases := sb, allbase := ?all, kheaproots := rs\<rparr>"
  have fields: "kheaproots h2 = rs" "allbase h2 = ?all" "sizebases h2 = sb" "refs h2 = refs h" "kwords h2 = kwords h"
    by (simp_all add: h2_def)
  have same: "pg h2 = pg h" "bt h2 = bt h" by (auto simp: pg_def bt_def fields)
  have set: "set ?all = set (allbase h) - {pr}" using dist by simp
  have sb: "sb ! c = filter (\<lambda>q. bt h q = c) ?all" if "c < NSIZES" for c
  proof -
    have "sizebases h ! c = filter (\<lambda>q. bt h q = c) (allbase h)" using wf that unfolding heap_wf_def by blast
    then show ?thesis using wf that page(2) dist
      by (auto simp: sb_def heap_wf_def nth_list_update filter_remove1 remove1_idem)
  qed
  have inj: "inj_on (pg h) (set (allbase h))" using wf unfolding heap_wf_def by blast
  then have other: "pg h q \<noteq> pg h pr" if "q \<in> set ?all" for q
    using that pr unfolding set inj_on_def by blast
  have "heap_wf (PS - {pg h pr}) h2"
    unfolding heap_wf_def same fields rp
  proof (intro conjI)
    show "set ?all = all_refs rs" using wf rs(4) unfolding set heap_wf_def by blast
    show "distinct ?all" using dist by simp
    show "length sb = NSIZES" using wf by (simp add: heap_wf_def sb_def)
    show "\<forall>b<NSIZES. sb ! b = filter (\<lambda>pr. bt h pr = b) ?all" using sb by blast
    show "\<forall>q \<in> set ?all. page_ok (kwords h) (refs h q) \<and> pg h q \<in> PS - {pg h pr} - root_pages (kheaproots h)"
      using heap_wf_page [OF wf] other unfolding set by blast
    show "inj_on (pg h) (set ?all)" using inj unfolding set by (rule inj_on_subset) auto
    show "root_pages (kheaproots h) \<subseteq> PS - {pg h pr}" using roots page(5) by auto
  qed (use rs in auto)
  moreover have "live (PS - {pg h pr}) h2 = live PS h"
  proof -
    have "used_blocks h2 = used_blocks h" unfolding used_blocks_def same fields by (rule refl)
    moreover have "whole_pages (PS - {pg h pr}) h2 = whole_pages PS h"
      using pr unfolding whole_pages_def same fields rp set by auto
    ultimately show ?thesis
      using full_page_unused [OF wf pr full] unfolding live_def fields(2) set by auto
  qed
  moreover have "remove_lists pr ?b h = Inr (h\<lparr>sizebases := sb, allbase := ?all\<rparr>)"
    using page(2) by (simp add: remove_lists_def sb_def)
  moreover have "freepageref pr (h\<lparr>sizebases := sb, allbase := ?all\<rparr>) = Inr h2"
    using rs(1) by (simp add: freepageref_def h2_def)
  ultimately show thesis using that fields by blast
qed

text \<open>The two searches through the lists, without their assertions.\<close>

lemma find_free_page_find:
  "(\<And>q. q \<in> set prs \<Longrightarrow> PR_BLOCKTYPE (rf q) = b) \<Longrightarrow>
   find_free_page rf b prs = Inr (List.find (\<lambda>q. nfree (rf q) > 0) prs)"
  by (induction prs) auto

lemma find_owner_find:
  "(\<And>q. q \<in> set prs \<Longrightarrow> PR_BLOCKTYPE (rf q) < NSIZES \<and> PR_PAGEADDR (rf q) < 0xa0000000) \<Longrightarrow>
   find_owner rf a prs = Inr (List.find (\<lambda>q. a AND PAGE_FRAME = PR_PAGEADDR (rf q)) prs)"
proof (induction prs)
  case (Cons q prs)
  then have "PR_PAGEADDR (rf q) \<le> a \<and> a < PR_PAGEADDR (rf q) + of_nat PAGE_SIZE \<longleftrightarrow> a AND PAGE_FRAME = PR_PAGEADDR (rf q)"
    by (intro kseg_in_page_iff) auto
  then show ?case using Cons by simp
qed simp

lemma heap_searches:
  assumes wf: "heap_wf PS h"
  shows "b < NSIZES \<Longrightarrow> find_free_page (refs h) b (sizebases h ! b) =
      Inr (List.find (\<lambda>q. nfree (refs h q) > 0) (filter (\<lambda>q. bt h q = b) (allbase h)))"
    and "find_owner (refs h) a (allbase h) = Inr (List.find (\<lambda>q. a AND PAGE_FRAME = pg h q) (allbase h))"
proof -
  assume b: "b < NSIZES"
  have "sizebases h ! b = filter (\<lambda>q. bt h q = b) (allbase h)" using wf b unfolding heap_wf_def by blast
  then show "find_free_page (refs h) b (sizebases h ! b) =
      Inr (List.find (\<lambda>q. nfree (refs h q) > 0) (filter (\<lambda>q. bt h q = b) (allbase h)))"
    using find_free_page_find [of "sizebases h ! b" "refs h" b] by (simp add: bt_def)
next
  show "find_owner (refs h) a (allbase h) = Inr (List.find (\<lambda>q. a AND PAGE_FRAME = pg h q) (allbase h))"
    unfolding pg_def using heap_wf_page(1) [OF wf] by (intro find_owner_find) (auto simp: page_ok_def)
qed

section \<open>What the heap needs from the page allocator\<close>

text \<open>
  The contract of \<open>alloc_kpages(1)\<close> and \<open>free_kpages\<close>. A page that is handed out was
  not in use; a page that is in use can be given back. \<open>owned\<close> is the set of pages in use.
\<close>

locale kpage_provider =
  fixes kp :: "'s kpage_ops" and inv :: "'s \<Rightarrow> bool" and owned :: "'s \<Rightarrow> vaddr_t set"
  assumes alloc: "inv s \<Longrightarrow> kp_alloc kp (Suc 0) s = Inr (va, s') \<Longrightarrow>
      inv s' \<and> va \<notin> owned s \<and> owned s' = insert va (owned s)"
    and free: "inv s \<Longrightarrow> va \<in> owned s \<Longrightarrow>
      \<exists>s'. kp_free kp va s = Inr s' \<and> inv s' \<and> owned s' = owned s - {va}"
    and owned_kseg: "inv s \<Longrightarrow> va \<in> owned s \<Longrightarrow> kseg0_page va"
begin

lemma alloc_page:
  assumes "inv s" "kp_alloc kp (Suc 0) s = Inr (va, s')"
  shows "inv s'" "va \<notin> owned s" "owned s' = insert va (owned s)" "kseg0_page va" "va \<noteq> 0"
    "unat va mod PAGE_SIZE = 0"
proof -
  show *: "inv s'" "va \<notin> owned s" "owned s' = insert va (owned s)" using alloc [OF assms] by auto
  then show "kseg0_page va" using owned_kseg [of s' va] by simp
  then show "va \<noteq> 0" "unat va mod PAGE_SIZE = 0" by (auto simp: kseg0_page_def page_aligned_iff)
qed

lemma allocpageref_ok:
  assumes inv: "inv s" and ok: "roots_ok (kheaproots h)" and own: "root_pages (kheaproots h) \<subseteq> owned s"
    and run: "allocpageref kp h s = Inr (pr, h', s')" and fr: "first_root (kheaproots h) 0 = Some (w, i)"
  obtains rs where "h' = h\<lparr>kheaproots := rs\<rparr>" "roots_ok rs" "pr \<notin> all_refs (kheaproots h)"
    "all_refs rs = insert pr (all_refs (kheaproots h))" "length rs = length (kheaproots h)" "inv s'"
    "owned s \<subseteq> owned s'" "root_pages rs \<subseteq> owned s'"
    "owned s' - root_pages rs = owned s - root_pages (kheaproots h)"
proof -
  define root where "root = kheaproots h ! w"
  have w: "w < length (kheaproots h)" "root_slot root = Some i" using first_root_Some [OF fr] by (auto simp: root_def)
  note i = root_slot_Some [OF w(2)]
  have rok: "root_ok root" using ok w(1) by (simp add: roots_ok_def root_def)
  obtain j where j: "List.find (\<lambda>j. pagerefs_inuse root ! i AND push_bit j 1 = 0) [0..<INUSE_BITS] = Some j"
    using i(2) word_bit_set(3) by (cases "List.find (\<lambda>j. pagerefs_inuse root ! i AND push_bit j 1 = 0) [0..<INUSE_BITS]")
      (auto simp: find_upt_None_iff inuse_consts)
  have j': "j < INUSE_BITS" "\<not> bit (pagerefs_inuse root ! i) j"
    using j word_bit_set(3) by (auto simp: find_upt_Some_iff inuse_consts)
  define q where "q = i * INUSE_BITS + j"
  define root1 where "root1 = root\<lparr>pagerefs_inuse := (pagerefs_inuse root)[i := pagerefs_inuse root ! i OR push_bit j 1],
      numinuse := numinuse root + 1\<rparr>"
  have len: "length (pagerefs_inuse root) = INUSE_WORDS" using rok by (simp add: root_ok_def)
  have used1: "root_used root1 = insert q (root_used root)"
    unfolding root1_def q_def by (rule root_used_set(1) [OF len i(1) j'(1)])
  have q: "q < NPAGEREFS_PER_PAGE" using i(1) j'(1) by (auto simp: q_def inuse_consts)
  have "q div INUSE_BITS = i \<and> q mod INUSE_BITS = j" using j'(1) by (auto simp: q_def inuse_consts)
  then have nq: "q \<notin> root_used root" using j'(2) by (auto simp: root_used_def)
  have root1: "kr_page root1 = kr_page root" "numinuse root1 = card (root_used root1)"
    "length (pagerefs_inuse root1) = INUSE_WORDS"
    using rok nq by (auto simp: used1) (auto simp: root1_def root_ok_def)
  define h1 where "h1 = h\<lparr>kheaproots := (kheaproots h)[w := root1]\<rparr>"
  have run1: "kbind (if kr_page root = 0 then allocpagerefpage kp w h1 s else Inr (h1, s))
      (\<lambda>(h2, s2). let page = kr_page (kheaproots h2 ! w) in
         Inr (if page = 0 then 0 else ref_addr page q, h2, s2)) = Inr (pr, h', s')"
    using run fr j unfolding allocpageref_def root1_def h1_def q_def root_def Let_def by simp
  have not_in: "ref_addr P q \<notin> all_refs (kheaproots h)"
    if P: "kseg0_page P" "P = kr_page root \<or> P \<notin> root_pages (kheaproots h)" for P
  proof
    assume "ref_addr P q \<in> all_refs (kheaproots h)"
    then obtain r2 where r2: "r2 \<in> set (kheaproots h)" "ref_addr P q \<in> root_refs r2"
      by (auto simp: all_refs_def)
    then have page2: "kseg0_page (kr_page r2)" "ref_addr P q AND PAGE_FRAME = kr_page r2"
      using ok root_refs_page [of r2] by (auto simp: roots_ok_def)
    have "ref_addr P q AND PAGE_FRAME = P"
      unfolding ref_addr_def using P(1) ref_offset [OF q] by (intro page_of_offset) (simp_all add: kseg0_page_def)
    then have eq: "kr_page r2 = P" using page2 by simp
    moreover have "P \<noteq> 0" using P(1) by (auto simp: kseg0_page_def)
    ultimately have "P = kr_page root" using P(2) r2(1) by (auto simp: root_pages_def)
    then have "r2 = root"
      using roots_page_inj [OF ok r2(1), of root] w(1) eq \<open>P \<noteq> 0\<close> by (simp add: root_def)
    then obtain q' where "q' \<in> root_used root" "ref_addr P q = ref_addr P q'"
      using r2(2) eq by (auto simp: root_refs_def)
    then have "q = q'" using ref_addr_inj [of P P q q'] P(1) q by (simp add: kseg0_page_def root_used_def)
    then show False using nq \<open>q' \<in> root_used root\<close> by simp
  qed
  show thesis
  proof (cases "kr_page root = 0")
    case False
    have res: "pr = ref_addr (kr_page root) q" "h' = h1" "s' = s"
      using run1 False w(1) root1(1) by (auto simp: h1_def Let_def)
    have page: "kseg0_page (kr_page root)" using rok False by (simp add: root_ok_def)
    have "root_ok root1" using root1 page False unfolding root_ok_def by simp
    moreover have "root_refs root1 = insert pr (root_refs root)"
      by (simp add: root_refs_def root1 used1 res)
    ultimately have "roots_ok ((kheaproots h)[w := root1])"
      "all_refs ((kheaproots h)[w := root1]) = insert pr (all_refs (kheaproots h))"
      "root_pages ((kheaproots h)[w := root1]) = insert (kr_page root1) (root_pages (kheaproots h)) - {0}"
      using roots_replace [OF ok w(1), of root1 pr] root1(1) by (simp_all add: root_def)
    moreover have "insert (kr_page root1) (root_pages (kheaproots h)) - {0} = root_pages (kheaproots h)"
      using w(1) root1(1) by (auto simp: root_pages_def root_def)
    ultimately show thesis
      using that [of "(kheaproots h)[w := root1]"] res inv own not_in [OF page] by (simp add: h1_def)
  next
    case True
    obtain va s1 where al: "kp_alloc kp (Suc 0) s = Inr (va, s1)"
      using run1 True w(1) by (auto simp: allocpagerefpage_def)
    note page = alloc_page [OF inv al]
    have res: "h' = h1\<lparr>kheaproots := (kheaproots h1)[w := root1\<lparr>kr_page := va\<rparr>]\<rparr>" "pr = ref_addr va q" "s' = s1"
      using run1 True w(1) root1(1) al page(5,6)
      by (auto simp: allocpagerefpage_def h1_def Let_def kassert_If split: if_splits)
    note va = page(5)
    let ?root2 = "root1\<lparr>kr_page := va\<rparr>"
    have "numinuse root = 0" using rok True unfolding root_ok_def by metis
    then have "root_used root = {}" using rok by (simp add: root_ok_def)
    moreover have "root_used ?root2 = root_used root1" by (simp add: root_used_def)
    ultimately have used2: "root_used ?root2 = {q}" "root_refs root = {}"
      using used1 by (simp_all add: root_refs_def)
    have "root_ok ?root2"
      using root1(2,3) used1 \<open>root_used root = {}\<close> used2(1) page(4) va unfolding root_ok_def by simp
    moreover have "root_refs ?root2 = insert pr (root_refs root)"
      unfolding used2(2) by (simp add: root_refs_def used2(1) res(2))
    moreover have new: "va \<notin> root_pages (kheaproots h)" using own page(2) by auto
    ultimately have "roots_ok ((kheaproots h)[w := ?root2])"
      "all_refs ((kheaproots h)[w := ?root2]) = insert pr (all_refs (kheaproots h))"
      "root_pages ((kheaproots h)[w := ?root2]) = insert va (root_pages (kheaproots h))"
      using roots_replace [OF ok w(1), of ?root2 pr] True va by (auto simp: root_def root_pages_def)
    moreover have "h' = h\<lparr>kheaproots := (kheaproots h)[w := ?root2]\<rparr>" using res(1) by (simp add: h1_def)
    ultimately show thesis
      using that [of "(kheaproots h)[w := ?root2]"] page(1-3) own not_in [OF page(4)] new res(2,3) by auto
  qed
qed

lemma allocpageref_cases:
  assumes inv: "inv s" and wf: "heap_wf (owned s) h" and run: "allocpageref kp h s = Inr (pr, h', s')"
  obtains "pr = 0" "h' = h" "s' = s" "first_root (kheaproots h) 0 = None"
  | rs where "pr \<noteq> 0" "h' = h\<lparr>kheaproots := rs\<rparr>" "roots_ok rs" "pr \<notin> all_refs (kheaproots h)"
    "all_refs rs = insert pr (all_refs (kheaproots h))" "inv s'" "owned s \<subseteq> owned s'" "root_pages rs \<subseteq> owned s'"
    "owned s' - root_pages rs = owned s - root_pages (kheaproots h)"
proof (cases "first_root (kheaproots h) 0")
  case None
  then show thesis using run that(1) by (simp add: allocpageref_def)
next
  case (Some wi)
  then obtain w i where fr: "first_root (kheaproots h) 0 = Some (w, i)" by (cases wi) auto
  have ok: "roots_ok (kheaproots h)" "root_pages (kheaproots h) \<subseteq> owned s"
    using wf unfolding heap_wf_def by blast+
  obtain rs where rs: "h' = h\<lparr>kheaproots := rs\<rparr>" "roots_ok rs" "pr \<notin> all_refs (kheaproots h)"
    "all_refs rs = insert pr (all_refs (kheaproots h))" "length rs = length (kheaproots h)" "inv s'"
    "owned s \<subseteq> owned s'" "root_pages rs \<subseteq> owned s'"
    "owned s' - root_pages rs = owned s - root_pages (kheaproots h)"
    using allocpageref_ok [OF inv ok run fr] by blast
  have "pr \<in> all_refs rs" using rs(4) by simp
  then have "pr \<noteq> 0" using rs(2) root_refs_nonzero unfolding all_refs_def roots_ok_def by blast
  then show thesis using that(2) rs by blast
qed

lemma pages_aligned: "inv s \<Longrightarrow> \<forall>P \<in> owned s. page_aligned P"
  using owned_kseg by (auto simp: kseg0_page_def)

text \<open>
  What a request for \<open>sz\<close> bytes achieves: no memory, and what clients hold is as before; or a
  block of at least that size that no client holds.
\<close>

lemma subpage_kmalloc_ok:
  assumes inv: "inv s" and hi: "heap_inv (owned s) h" and run: "subpage_kmalloc kp sz h s = Inr (p, h', s')"
  shows "inv s' \<and> heap_inv (owned s') h' \<and>
    (p = 0 \<and> first_root (kheaproots h) 0 = None \<and> live (owned s') h' = live (owned s) h \<or>
     p \<noteq> 0 \<and> p \<notin> fst ` live (owned s) h \<and> (\<exists>bs \<ge> sz. live (owned s') h' = insert (p, bs) (live (owned s) h)))"
proof -
  have wf: "heap_wf (owned s) h" using hi by (simp add: heap_inv_def)
  obtain b where bt: "blocktype sz = Inr b" using run by (auto simp: subpage_kmalloc_def)
  note b = blocktype_ok [OF bt]
  note al = pages_aligned [OF inv]
  let ?find = "List.find (\<lambda>q. nfree (refs h q) > 0) (filter (\<lambda>q. bt h q = b) (allbase h))"
  show ?thesis
  proof (cases ?find)
    case (Some pr)
    have "pr \<in> set (filter (\<lambda>q. bt h q = b) (allbase h)) \<and> nfree (refs h pr) > 0"
      using Some by (metis (no_types, lifting) find_Some_iff nth_mem)
    then have pr: "pr \<in> set (allbase h)" "bt h pr = b" "nfree (refs h pr) > 0" by auto
    obtain x h1 where x: "doalloc pr h = Inr (x, h1)" "heap_wf (owned s) h1" "x \<notin> fst ` live (owned s) h" "x \<noteq> 0"
      "live (owned s) h1 = insert (x, sizes ! bt h pr) (live (owned s) h)" "allbase h1 = allbase h" "bt h1 = bt h"
      "nfree (refs h1 pr) < nfree (refs h pr)" "\<And>q. q \<noteq> pr \<Longrightarrow> refs h1 q = refs h q"
      using doalloc_heap [OF wf al pr(1,3)] by blast
    have res: "p = x" "h' = h1" "s' = s"
      using run bt Some heap_searches(1) [OF wf b(1)] x(1) by (auto simp: subpage_kmalloc_def)
    have "nfree (refs h1 q) < nblocks (bt h1 q)" if "q \<in> set (allbase h1)" for q
      using hi that x(6-9) pr(1) unfolding heap_inv_def by (cases "q = pr") (auto intro: less_trans)
    then show ?thesis using x inv b(2) pr(2) unfolding res heap_inv_def by auto
  next
    case None
    obtain P s1 where page: "kp_alloc kp (Suc 0) s = Inr (P, s1)"
      using run bt None heap_searches(1) [OF wf b(1)] by (auto simp: subpage_kmalloc_def)
    note P = alloc_page [OF inv page]
    have wf1: "heap_wf (owned s1) h" "live (owned s1) h = insert (P, PAGE_SIZE) (live (owned s) h)"
      "P \<in> whole_pages (owned s1) h"
      using heap_wf_insert [OF wf P(2)] unfolding P(3) by auto
    have P_fresh: "(P, PAGE_SIZE) \<notin> live (owned s) h"
      using P(2) whole_not_used [OF wf] by (auto simp: live_def whole_pages_def)
    have rest: "kbind (allocpageref kp h s1) (\<lambda>(pr, h1, s2).
        if pr = 0 then kbind (kp_free kp P s2) (\<lambda>s3. Inr (0, h1, s3))
        else kbind (new_heap_page pr P b h1) (\<lambda>h2. kbind (doalloc pr h2) (\<lambda>(x, h3). Inr (x, h3, s2)))) = Inr (p, h', s')"
      using run bt None heap_searches(1) [OF wf b(1)] page P(5,6) by (auto simp: subpage_kmalloc_def)
    then obtain pr h1 s2 where apr: "allocpageref kp h s1 = Inr (pr, h1, s2)"
      and rest2: "(if pr = 0 then kbind (kp_free kp P s2) (\<lambda>s3. Inr (0, h1, s3))
        else kbind (new_heap_page pr P b h1) (\<lambda>h2. kbind (doalloc pr h2) (\<lambda>(x, h3). Inr (x, h3, s2)))) = Inr (p, h', s')"
      by auto
    show ?thesis
    proof (cases rule: allocpageref_cases [OF P(1) wf1(1) apr])
      case 1
      have "P \<in> owned s1" using P(3) by simp
      then obtain s3 where s3: "kp_free kp P s1 = Inr s3" "inv s3" "owned s3 = owned s1 - {P}"
        using free [OF P(1)] by blast
      have "owned s3 = owned s" using s3(3) P(2,3) by auto
      moreover have "p = 0" "h' = h" "s' = s3" using rest2 1 s3(1) by auto
      ultimately show ?thesis using s3(2) hi 1(4) by simp
    next
      case (2 rs)
      obtain h2 where h2: "new_heap_page pr P b h1 = Inr h2" "heap_wf (owned s2) h2"
        "live (owned s2) h2 = live (owned s1) h - {(P, PAGE_SIZE)}" "allbase h2 = pr # allbase h" "bt h2 pr = b"
        "nfree (refs h2 pr) = nblocks b" "\<And>q. q \<noteq> pr \<Longrightarrow> refs h2 q = refs h q"
        using new_page_heap [OF wf1(1,3) P(4) b(1) 2(3,5,4,8,9)] unfolding 2(2) by blast
      have lv: "live (owned s2) h2 = live (owned s) h" using h2(3) wf1(2) P_fresh by auto
      have "nfree (refs h2 pr) > 0" using h2(6) sizes_facts(5) [OF b(1)] by (simp add: nblocks_def)
      then obtain x h3 where x: "doalloc pr h2 = Inr (x, h3)" "heap_wf (owned s2) h3" "x \<notin> fst ` live (owned s2) h2" "x \<noteq> 0"
        "live (owned s2) h3 = insert (x, sizes ! bt h2 pr) (live (owned s2) h2)" "allbase h3 = allbase h2" "bt h3 = bt h2"
        "nfree (refs h3 pr) < nfree (refs h2 pr)" "\<And>q. q \<noteq> pr \<Longrightarrow> refs h3 q = refs h2 q"
        using doalloc_heap [OF h2(2) pages_aligned [OF 2(6)], of pr] h2(4) by auto
      have res: "p = x" "h' = h3" "s' = s2" using rest2 2(1) h2(1) x(1) by auto
      have "nfree (refs h3 q) < nblocks (bt h3 q)" if "q \<in> set (allbase h3)" for q
        using hi that x(6-9) h2(4-7) unfolding heap_inv_def by (cases "q = pr") (auto simp: bt_def)
      then show ?thesis using x(2-5) 2(6) b(2) h2(5) lv unfolding res heap_inv_def by auto
    qed
  qed
qed

lemma kmalloc_ok:
  assumes inv: "inv s" and hi: "heap_inv (owned s) h" and sz: "unat sz \<le> PAGE_SIZE"
    and run: "kmalloc kp sz h s = Inr (p, h', s')"
  shows "inv s' \<and> heap_inv (owned s') h' \<and>
    (p = 0 \<and> first_root (kheaproots h) 0 = None \<and> live (owned s') h' = live (owned s) h \<or>
     p \<noteq> 0 \<and> p \<notin> fst ` live (owned s) h \<and> (\<exists>bs \<ge> unat sz. live (owned s') h' = insert (p, bs) (live (owned s) h)))"
proof (cases "unat sz \<ge> LARGEST_SUBPAGE_SIZE")
  case False
  then show ?thesis using run subpage_kmalloc_ok [OF inv hi, of "unat sz"] by (simp add: kmalloc_def)
next
  case True
  then have "2048 \<le> unat sz" by (simp add: LARGEST_SUBPAGE_SIZE_def)
  moreover have "unat (4095 + sz) = 4095 + unat sz" using sz by (subst unat_add_lem [THEN iffD1]) auto
  ultimately have "unat (sz + of_nat PAGE_SIZE - 1) div PAGE_SIZE = Suc 0" using sz by simp
  then obtain s1 where al: "kp_alloc kp (Suc 0) s = Inr (p, s1)" and res: "h' = h" "s' = s1"
    using run True alloc_page(5) [OF inv] by (auto simp: kmalloc_def Let_def split: if_splits)
  note P = alloc_page [OF inv al]
  have wf: "heap_wf (owned s) h" using hi by (simp add: heap_inv_def)
  have "p \<notin> fst ` live (owned s) h"
  proof
    assume "p \<in> fst ` live (owned s) h"
    then consider q sz where "q \<in> set (allbase h)" "(p, sz) \<in> used_blocks h q" | "p \<in> whole_pages (owned s) h"
      by (auto simp: live_def)
    then have "p AND PAGE_FRAME \<in> owned s \<or> p \<in> owned s"
      using used_block_page(1) [OF wf] heap_wf_page(4) [OF wf] by cases (auto simp: whole_pages_def)
    then show False using P(2,4) by (auto simp: kseg0_page_def page_aligned_def)
  qed
  then show ?thesis
    using heap_wf_insert [OF wf P(2)] hi P(1,3,5) sz unfolding res heap_inv_def by auto
qed

lemma subpage_kfree_ok:
  assumes inv: "inv s" and hi: "heap_inv (owned s) h" and pr: "pr \<in> set (allbase h)"
    and x: "(p, bs) \<in> used_blocks h pr"
  shows "\<exists>h' s'. subpage_kfree kp p h s = Inr (0, h', s') \<and> inv s' \<and> heap_inv (owned s') h' \<and>
    live (owned s') h' = live (owned s) h - {(p, bs)}"
proof -
  have wf: "heap_wf (owned s) h" using hi by (simp add: heap_inv_def)
  note page = heap_wf_page [OF wf pr]
  note u = used_block_page [OF wf pr x]
  have "List.find (\<lambda>q. p AND PAGE_FRAME = pg h q) (allbase h) = Some pr"
    using wf pr u(1) by (intro find_unique) (auto simp: heap_wf_def inj_on_def)
  then have own: "find_owner (refs h) p (allbase h) = Inr (Some pr)" using heap_searches(2) [OF wf] by simp
  obtain k where k: "k < PAGE_SIZE" "p = pg h pr + of_nat k" using page_decompose [of p] u(1) by auto
  then have off: "unat (p - pg h pr) = k" "k mod sizes ! bt h pr = 0"
    using blocks_iff [OF page(3,2) k(1)] u(3) by (auto simp: unat_of_nat)
  define r where "r = refs h pr"
  define h1 where "h1 = h\<lparr>kwords := (fill_deadbeef p (sizes ! bt h pr) (kwords h))(p := fl_start r),
      refs := (refs h)(pr := r\<lparr>freelist_offset := unat (p - pg h pr), nfree := nfree r + 1\<rparr>)\<rparr>"
  note put = put_block_heap [OF wf pr x h1_def [unfolded r_def]]
  have head: "freelist_offset r = INVALID_OFFSET \<or> p \<noteq> fl_start r"
    using page_ok_start [OF page(1)] u(4) by (auto simp: r_def)
  have count: "Suc (nfree r) \<le> nblocks (bt h pr)"
    using page_ok_not_full [OF page(1) u(3,4) [unfolded pg_def bt_def]] by (simp add: r_def bt_def)
  have fl: "(if freelist_offset r = INVALID_OFFSET then 0 else pg h pr + of_nat (freelist_offset r)) = fl_start r"
    by (simp add: fl_start_def pg_def r_def)
  have fl': "pg h pr + of_nat (unat (p - pg h pr)) = p" by simp
  have aligned: "\<not> (PAGE_SIZE \<le> unat (p - pg h pr) \<or> unat (p - pg h pr) mod sizes ! bt h pr \<noteq> 0)"
    using off k(1) by simp
  have run: "subpage_kfree kp p h s =
      (if Suc (nfree r) = nblocks (bt h pr)
       then kbind (remove_lists pr (bt h pr) h1) (\<lambda>h2. kbind (freepageref pr h2) (\<lambda>h3.
            kbind (kp_free kp (pg h pr) s) (\<lambda>s1. Inr (0, h3, s1))))
       else Inr (0, h1, s))"
    using head count
    unfolding subpage_kfree_def own Let_def kbind_Inr option.case pg_def [symmetric] bt_def [symmetric]
      r_def [symmetric] fl fl' if_not_P [OF aligned] nblocks_def [symmetric]
    by (simp add: kassert_If h1_def)
  have nf: "nfree (refs h1 q) = (if q = pr then Suc (nfree r) else nfree (refs h q))" "allbase h1 = allbase h" for q
    by (auto simp: h1_def)
  show ?thesis
  proof (cases "Suc (nfree r) = nblocks (bt h pr)")
    case True
    obtain h2 h3 where drop: "remove_lists pr (bt h1 pr) h1 = Inr h2" "freepageref pr h2 = Inr h3"
      "heap_wf (owned s - {pg h1 pr}) h3" "live (owned s - {pg h1 pr}) h3 = live (owned s) h1"
      "allbase h3 = remove1 pr (allbase h1)" "refs h3 = refs h1"
      using drop_page_heap [OF put(1), of pr] pr True nf put(3) by auto
    obtain s1 where s1: "kp_free kp (pg h pr) s = Inr s1" "inv s1" "owned s1 = owned s - {pg h pr}"
      using free [OF inv page(4)] by blast
    have "distinct (allbase h)" using wf by (simp add: heap_wf_def)
    moreover have "bt h3 = bt h" using put(3) drop(6) by (simp add: bt_def fun_eq_iff)
    ultimately have "nfree (refs h3 q) < nblocks (bt h3 q)" if "q \<in> set (allbase h3)" for q
      using hi that nf unfolding heap_inv_def drop(5,6) by auto
    then show ?thesis
      using run True drop s1 put unfolding heap_inv_def by auto
  next
    case False
    then have "nfree (refs h1 q) < nblocks (bt h1 q)" if "q \<in> set (allbase h1)" for q
      using hi that nf put(3) count unfolding heap_inv_def by auto
    then show ?thesis using run False inv put unfolding heap_inv_def by auto
  qed
qed

lemma kfree_ok:
  assumes inv: "inv s" and hi: "heap_inv (owned s) h" and x: "(p, bs) \<in> live (owned s) h"
  shows "\<exists>h' s'. kfree kp p h s = Inr (h', s') \<and> inv s' \<and> heap_inv (owned s') h' \<and>
    live (owned s') h' = live (owned s) h - {(p, bs)}"
proof -
  have wf: "heap_wf (owned s) h" using hi by (simp add: heap_inv_def)
  consider pr where "pr \<in> set (allbase h)" "(p, bs) \<in> used_blocks h pr"
    | "p \<in> whole_pages (owned s) h" "bs = PAGE_SIZE" using x by (auto simp: live_def)
  then show ?thesis
  proof cases
    case 1
    have "p \<noteq> 0" using heap_wf_page [OF wf 1(1)] used_block_page(1) [OF wf 1] by (auto simp: page_ok_def pg_def)
    then show ?thesis using subpage_kfree_ok [OF inv hi 1] by (auto simp: kfree_def)
  next
    case 2
    then have P: "kseg0_page p" "p \<in> owned s" using owned_kseg [OF inv] by (auto simp: whole_pages_def)
    have page: "p AND PAGE_FRAME = p" "p \<noteq> 0" "unat p mod PAGE_SIZE = 0"
      using P(1) by (auto simp: kseg0_page_def page_aligned_def page_aligned_iff [unfolded page_aligned_def])
    have "List.find (\<lambda>q. p AND PAGE_FRAME = pg h q) (allbase h) = None"
      using 2(1) page(1) by (auto simp: find_None_iff whole_pages_def)
    then have run: "subpage_kfree kp p h s = Inr (-1, h, s)"
      using heap_searches(2) [OF wf] by (simp add: subpage_kfree_def)
    obtain s1 where s1: "kp_free kp p s = Inr s1" "inv s1" "owned s1 = owned s - {p}" using free [OF inv P(2)] by blast
    then have "kfree kp p h s = Inr (h, s1)" using run page(2,3) by (simp add: kfree_def)
    then show ?thesis using s1 heap_wf_remove [OF wf 2(1)] hi 2(2) by (auto simp: heap_inv_def)
  qed
qed

text \<open>Only the page allocator can make a request stop the machine: at most two pages are asked
  for, one for the blocks and one for a table of \<open>pageref\<close>s.\<close>

lemma allocpageref_stops:
  assumes inv: "inv s" and wf: "heap_wf (owned s) h" and run: "allocpageref kp h s = Inl e"
  shows "kp_alloc kp (Suc 0) s = Inl e"
proof -
  obtain w i where fr: "first_root (kheaproots h) 0 = Some (w, i)"
    using run by (auto simp: allocpageref_def split: option.splits)
  define root where "root = kheaproots h ! w"
  have w: "w < length (kheaproots h)" "root_slot root = Some i" using first_root_Some [OF fr] by (auto simp: root_def)
  obtain j where j: "List.find (\<lambda>j. pagerefs_inuse root ! i AND push_bit j 1 = 0) [0..<INUSE_BITS] = Some j"
    using root_slot_Some(2) [OF w(2)] word_bit_set(3)
    by (cases "List.find (\<lambda>j. pagerefs_inuse root ! i AND push_bit j 1 = 0) [0..<INUSE_BITS]")
      (auto simp: find_upt_None_iff inuse_consts)
  show ?thesis
  proof (cases "kp_alloc kp (Suc 0) s")
    case (Inl e')
    then show ?thesis using run fr j w(1)
      by (auto simp: allocpageref_def allocpagerefpage_def Let_def simp flip: root_def split: if_splits)
  next
    case (Inr r)
    then obtain va s1 where al: "kp_alloc kp (Suc 0) s = Inr (va, s1)" by (cases r) auto
    then have False using run fr j w(1) alloc_page(5,6) [OF inv al]
      by (auto simp: allocpageref_def allocpagerefpage_def Let_def simp flip: root_def split: if_splits)
    then show ?thesis ..
  qed
qed

lemma subpage_kmalloc_stops:
  assumes inv: "inv s" and hi: "heap_inv (owned s) h" and sz: "sz \<le> LARGEST_SUBPAGE_SIZE"
    and run: "subpage_kmalloc kp sz h s = Inl e"
  shows "kp_alloc kp (Suc 0) s = Inl e \<or> (\<exists>P s1. kp_alloc kp (Suc 0) s = Inr (P, s1) \<and> kp_alloc kp (Suc 0) s1 = Inl e)"
proof -
  have wf: "heap_wf (owned s) h" using hi by (simp add: heap_inv_def)
  obtain b where bt: "blocktype sz = Inr b" using blocktype_returns [OF sz] by blast
  note b = blocktype_ok [OF bt] and al = pages_aligned [OF inv]
  let ?find = "List.find (\<lambda>q. nfree (refs h q) > 0) (filter (\<lambda>q. bt h q = b) (allbase h))"
  have none: "?find = None"
  proof (rule ccontr)
    assume "?find \<noteq> None"
    then obtain pr where found: "?find = Some pr" by blast
    then have "pr \<in> set (filter (\<lambda>q. bt h q = b) (allbase h)) \<and> nfree (refs h pr) > 0"
      by (metis (no_types, lifting) find_Some_iff nth_mem)
    then have pr: "pr \<in> set (allbase h)" "nfree (refs h pr) > 0" by auto
    obtain x h1 where "doalloc pr h = Inr (x, h1)" using doalloc_returns [OF wf pr] by blast
    then show False using run bt found heap_searches(1) [OF wf b(1)] by (simp add: subpage_kmalloc_def)
  qed
  show ?thesis
  proof (cases "kp_alloc kp (Suc 0) s")
    case (Inl e')
    then show ?thesis using run bt none heap_searches(1) [OF wf b(1)] by (simp add: subpage_kmalloc_def)
  next
    case (Inr r)
    then obtain P s1 where page: "kp_alloc kp (Suc 0) s = Inr (P, s1)" by (cases r) auto
    note P = alloc_page [OF inv page]
    have wf1: "heap_wf (owned s1) h" "P \<in> whole_pages (owned s1) h"
      using heap_wf_insert [OF wf P(2)] unfolding P(3) by auto
    have "allocpageref kp h s1 = Inl e"
    proof (cases "allocpageref kp h s1")
      case (Inl e')
      then show ?thesis using run bt none heap_searches(1) [OF wf b(1)] page P(5,6) by (simp add: subpage_kmalloc_def)
    next
      case (Inr t)
      then obtain pr h1 s2 where apr: "allocpageref kp h s1 = Inr (pr, h1, s2)" by (cases t) auto
      have "\<exists>r. subpage_kmalloc kp sz h s = Inr r"
      proof (cases rule: allocpageref_cases [OF P(1) wf1(1) apr])
        case 1
        then show ?thesis using bt none heap_searches(1) [OF wf b(1)] page P(3,5,6) apr free [OF P(1), of P]
          by (auto simp: subpage_kmalloc_def)
      next
        case (2 rs)
        obtain h2 where h2: "new_heap_page pr P b h1 = Inr h2" "heap_wf (owned s2) h2" "allbase h2 = pr # allbase h"
          "nfree (refs h2 pr) = nblocks b"
          using new_page_heap [OF wf1 P(4) b(1) 2(3,5,4,8,9)] unfolding 2(2) by blast
        have "nfree (refs h2 pr) > 0" using h2(4) sizes_facts(5) [OF b(1)] by (simp add: nblocks_def)
        then obtain x h3 where "doalloc pr h2 = Inr (x, h3)"
          using doalloc_returns [OF h2(2), of pr] h2(3) by auto
        then show ?thesis using bt none heap_searches(1) [OF wf b(1)] page P(5,6) apr 2(1) h2(1)
          by (auto simp: subpage_kmalloc_def)
      qed
      then show ?thesis using run by simp
    qed
    then show ?thesis using allocpageref_stops [OF P(1) wf1(1)] page by blast
  qed
qed

lemma kmalloc_stops:
  assumes inv: "inv s" and hi: "heap_inv (owned s) h" and sz: "unat sz \<le> PAGE_SIZE"
    and run: "kmalloc kp sz h s = Inl e"
  shows "kp_alloc kp (Suc 0) s = Inl e \<or> (\<exists>P s1. kp_alloc kp (Suc 0) s = Inr (P, s1) \<and> kp_alloc kp (Suc 0) s1 = Inl e)"
proof (cases "unat sz \<ge> LARGEST_SUBPAGE_SIZE")
  case False
  then show ?thesis using run subpage_kmalloc_stops [OF inv hi, of "unat sz"] by (simp add: kmalloc_def)
next
  case True
  then have "2048 \<le> unat sz" by (simp add: LARGEST_SUBPAGE_SIZE_def)
  moreover have "unat (4095 + sz) = 4095 + unat sz" using sz by (subst unat_add_lem [THEN iffD1]) auto
  ultimately have "unat (sz + of_nat PAGE_SIZE - 1) div PAGE_SIZE = Suc 0" using sz by simp
  then show ?thesis using run True alloc_page(5,6) [OF inv]
    by (cases "kp_alloc kp (Suc 0) s") (auto simp: kmalloc_def Let_def kassert_If split: if_splits)
qed

end

text \<open>The calls for pages that a call that succeeds makes.\<close>

lemma allocpagerefpage_steps:
  "allocpagerefpage kp w h s = Inr (h', s') \<Longrightarrow> \<exists>va. kp_alloc kp (Suc 0) s = Inr (va, s')"
  unfolding allocpagerefpage_def kassert_If by (auto split: if_splits)

lemma allocpageref_steps:
  assumes "allocpageref kp h s = Inr (pr, h', s')"
  shows "s' = s \<or> (\<exists>va. kp_alloc kp (Suc 0) s = Inr (va, s'))"
proof (cases "first_root (kheaproots h) 0")
  case None
  then show ?thesis using assms by (simp add: allocpageref_def)
next
  case (Some wi)
  obtain w i where wi: "wi = (w, i)" by (cases wi)
  let ?word = "pagerefs_inuse (kheaproots h ! w) ! i"
  let ?find = "List.find (\<lambda>j. ?word AND push_bit j 1 = 0) [0..<INUSE_BITS]"
  obtain j where "?find = Some j" using assms by (cases ?find) (simp_all add: allocpageref_def Some wi)
  then obtain h1 h2 where "(if kr_page (kheaproots h ! w) = 0 then allocpagerefpage kp w h1 s else Inr (h1, s)) = Inr (h2, s')"
    using assms unfolding allocpageref_def Some wi Let_def by auto
  then show ?thesis by (auto split: if_splits dest!: allocpagerefpage_steps)
qed

lemma kmalloc_steps:
  assumes run: "kmalloc kp sz h s = Inr (p, h', s')" and p: "p \<noteq> 0" and sz: "unat sz \<le> PAGE_SIZE"
  shows "s' = s \<or> (\<exists>va. kp_alloc kp (Suc 0) s = Inr (va, s')) \<or>
    (\<exists>va s1 va'. kp_alloc kp (Suc 0) s = Inr (va, s1) \<and> kp_alloc kp (Suc 0) s1 = Inr (va', s'))"
proof (cases "unat sz \<ge> LARGEST_SUBPAGE_SIZE")
  case True
  then have "2048 \<le> unat sz" by (simp add: LARGEST_SUBPAGE_SIZE_def)
  moreover have "unat (4095 + sz) = 4095 + unat sz" using sz by (subst unat_add_lem [THEN iffD1]) auto
  ultimately have "unat (sz + of_nat PAGE_SIZE - 1) div PAGE_SIZE = Suc 0" using sz by simp
  then show ?thesis using run True p by (auto simp: kmalloc_def Let_def split: if_splits)
next
  case False
  then have "subpage_kmalloc kp (unat sz) h s = Inr (p, h', s')" using run by (simp add: kmalloc_def)
  then show ?thesis using p
    by (auto simp: subpage_kmalloc_def split: option.splits if_splits dest!: allocpageref_steps)
qed

text \<open>Blocks that clients hold do not overlap.\<close>

lemma live_block:
  assumes wf: "heap_wf PS h" "\<forall>P \<in> PS. page_aligned P" and x: "(x, sz) \<in> live PS h"
  obtains k where "x = (x AND PAGE_FRAME) + of_nat (k * sz)" "Suc k * sz \<le> PAGE_SIZE" "0 < sz"
proof -
  consider pr where "pr \<in> set (allbase h)" "(x, sz) \<in> used_blocks h pr"
    | "x \<in> whole_pages PS h" "sz = PAGE_SIZE" using x by (auto simp: live_def)
  then show thesis
  proof cases
    case 1
    note u = used_block_page [OF wf(1) 1] and page = heap_wf_page [OF wf(1) 1(1)]
    obtain k where k: "k < nblocks (bt h pr)" "x = block_at (pg h pr) (bt h pr) k"
      using u(3) by (auto simp: blocks_def)
    have "Suc k * sz \<le> nblocks (bt h pr) * sz" using k(1) by (intro mult_right_mono) auto
    also have "\<dots> = PAGE_SIZE" using sizes_facts(4) [OF page(2)] u(2) by (simp add: nblocks_def)
    finally show thesis
      using that [of k] k(2) u(1,2) sizes_facts(1) [OF page(2)] by (simp add: block_at_def)
  next
    case 2
    then show thesis using that [of 0] wf(2) by (auto simp: whole_pages_def page_aligned_def)
  qed
qed

text \<open>The bytes of a block.\<close>

definition bytes :: "vaddr_t \<times> nat \<Rightarrow> nat set" where
  "bytes xb = {unat (fst xb)..<unat (fst xb) + snd xb}"

lemma live_cases:
  assumes wf: "heap_wf PS h" "\<forall>P \<in> PS. page_aligned P" and x: "(x, sz) \<in> live PS h"
  obtains pr where "pr \<in> set (allbase h)" "x AND PAGE_FRAME = pg h pr" "sz = sizes ! bt h pr"
  | "x AND PAGE_FRAME \<notin> pg h ` set (allbase h)" "sz = PAGE_SIZE"
proof -
  consider pr where "pr \<in> set (allbase h)" "(x, sz) \<in> used_blocks h pr"
    | "x \<in> whole_pages PS h" "sz = PAGE_SIZE" using x by (auto simp: live_def)
  then show thesis
  proof cases
    case 1
    then show thesis using that(1) used_block_page(1,2) [OF wf(1) 1] by blast
  next
    case 2
    then show thesis using that(2) wf(2) by (auto simp: whole_pages_def page_aligned_def)
  qed
qed

lemma live_same_page:
  assumes wf: "heap_wf PS h" "\<forall>P \<in> PS. page_aligned P" and x: "(x, sz) \<in> live PS h" "(y, sz') \<in> live PS h"
    and page: "x AND PAGE_FRAME = y AND PAGE_FRAME"
  shows "sz = sz'"
proof -
  have inj: "pr = q" if "pr \<in> set (allbase h)" "q \<in> set (allbase h)" "pg h pr = pg h q" for pr q
    using wf(1) that unfolding heap_wf_def inj_on_def by blast
  show ?thesis
    using page by (cases rule: live_cases [OF wf x(1)]; cases rule: live_cases [OF wf x(2)])
      (metis inj image_eqI)+
qed

lemma live_disjoint:
  assumes wf: "heap_wf PS h" "\<forall>P \<in> PS. page_aligned P" and x: "xb \<in> live PS h" "yb \<in> live PS h" "xb \<noteq> yb"
  shows "bytes xb \<inter> bytes yb = {}"
proof -
  obtain x sz y sz' where xy: "xb = (x, sz)" "yb = (y, sz')" by (cases xb, cases yb) auto
  obtain j where j: "x = (x AND PAGE_FRAME) + of_nat (j * sz)" "Suc j * sz \<le> PAGE_SIZE" "0 < sz"
    using live_block [OF wf] x(1) xy by blast
  obtain k where k: "y = (y AND PAGE_FRAME) + of_nat (k * sz')" "Suc k * sz' \<le> PAGE_SIZE" "0 < sz'"
    using live_block [OF wf] x(2) xy by blast
  have ux: "unat x = unat (x AND PAGE_FRAME) + j * sz"
    using j by (subst j(1), intro unat_page_offset) auto
  have uy: "unat y = unat (y AND PAGE_FRAME) + k * sz'"
    using k by (subst k(1), intro unat_page_offset) auto
  show ?thesis
  proof (cases "x AND PAGE_FRAME = y AND PAGE_FRAME")
    case True
    then have sz: "sz' = sz" using live_same_page [OF wf] x(1,2) xy by metis
    then have "j \<noteq> k" using j(1) k(1) True x(3) xy by metis
    then consider "Suc j \<le> k" | "Suc k \<le> j" by linarith
    then have "Suc j * sz \<le> k * sz \<or> Suc k * sz \<le> j * sz" by cases (blast intro: mult_le_mono1)+
    then have "unat x + sz \<le> unat y \<or> unat y + sz' \<le> unat x" unfolding ux uy True sz by auto
    then show ?thesis by (auto simp: bytes_def xy)
  next
    case False
    obtain a c where ac: "unat (x AND PAGE_FRAME) = PAGE_SIZE * a" "unat (y AND PAGE_FRAME) = PAGE_SIZE * c"
      using page_aligned_and [of x] page_aligned_and [of y] by (auto simp: page_aligned_iff elim!: dvdE)
    then have "a \<noteq> c" using False by (auto simp: word_unat_eq_iff)
    then show ?thesis using ux uy ac j(2) k(2) by (auto simp: bytes_def xy)
  qed
qed

declare push_bit_of_1 [simp]

end
