(* ===== verification/KernelHeap.thy ===== *)
theory KernelHeap
  imports VmAlloc KMalloc
begin

text \<open>
  The kernel heap on top of the virtual memory system: \<open>alloc_kpages\<close> and
  \<open>free_kpages\<close> of \<open>kern/arch/mips/vm/vm.c\<close> meet the contract of \<open>KMalloc\<close>, and
  \<open>kmalloc\<close> and \<open>kfree\<close> therefore keep the invariant of the virtual memory system and
  the memory of the running process.
\<close>

definition kp_vm :: "('v, 'p) vnode_ops \<Rightarrow> ('v, 'p) vm kpage_ops" where
  "kp_vm ops = \<lparr>kp_alloc = alloc_kpages ops, kp_free = free_kpages\<rparr>"

definition kpage_addr :: "nat \<Rightarrow> vaddr_t" where
  "kpage_addr f = PADDR_TO_KVADDR (frame_addr f)"

definition kowned :: "('v, 'p) vm \<Rightarrow> vaddr_t set" where
  "kowned s = kpage_addr ` kpages s"

text \<open>
  What stays the same, from a state \<open>s0\<close> on, however many pages the heap takes or gives back:
  the invariant, with the frames \<open>X\<close> pending; the pages and the memory of the process.
\<close>

definition vm_kinv ::
  "('v, 'p) vnode_ops \<Rightarrow> ('v \<Rightarrow> nat \<Rightarrow> 'p option) \<Rightarrow> nat set \<Rightarrow> ('v, 'p) vm \<Rightarrow> ('v, 'p) vm \<Rightarrow> bool" where
  "vm_kinv ops stored X s0 s \<longleftrightarrow> page_store_ok ops stored \<and> vm_inv stored X s \<and> pending_ok X s \<and>
     evolves s0 s \<and> user_view stored s = user_view stored s0 \<and> mem s = mem s0 \<and>
     (\<forall>i \<in> X. coremap (cm s) ! i = coremap (cm s0) ! i)"

lemma vm_kinv_refl:
  "page_store_ok ops stored \<Longrightarrow> vm_inv stored X s \<Longrightarrow> pending_ok X s \<Longrightarrow> vm_kinv ops stored X s s"
  by (simp add: vm_kinv_def)

lemma kpage_addr_facts:
  assumes "f < 2 ^ 17"
  shows "kseg0_page (kpage_addr f)" "unat (kpage_addr f) = f * PAGE_SIZE + 2147483648"
proof -
  have f: "unat (frame_addr f) = f * PAGE_SIZE" using assms by (intro unat_frame_addr) simp
  then have "unat (frame_addr f + 0x80000000) = unat (frame_addr f) + unat (0x80000000 :: u32)"
    using assms by (intro unat_add_lem [THEN iffD1]) simp
  then show *: "unat (kpage_addr f) = f * PAGE_SIZE + 2147483648"
    by (simp add: kpage_addr_def PADDR_TO_KVADDR_def f)
  show "kseg0_page (kpage_addr f)"
    using assms by (simp add: kseg0_page_def page_aligned_iff word_le_nat_alt word_less_nat_alt *)
qed

lemma kpage_addr_inj:
  assumes "f < 2 ^ 17" and "g < 2 ^ 17"
  shows "kpage_addr f = kpage_addr g \<longleftrightarrow> f = g"
proof
  assume "kpage_addr f = kpage_addr g"
  then have "f * PAGE_SIZE + 2147483648 = g * PAGE_SIZE + 2147483648"
    using kpage_addr_facts(2) [OF assms(1)] kpage_addr_facts(2) [OF assms(2)] by (simp only:)
  then show "f = g" by simp
qed simp

lemma kpages_bound: "vm_inv stored X s \<Longrightarrow> f \<in> kpages s \<Longrightarrow> f < 2 ^ 17"
  by (auto simp: vm_inv_def cm_wf_def kpages_def)

lemma vm_kinv_step:
  assumes inv: "vm_kinv ops stored X s0 s" and "vm_inv stored X s'" "pending_ok X s'"
    "user_view stored s' = user_view stored s" "evolves s s'" "mem s' = mem s" "f \<notin> X"
    "\<forall>i. i \<noteq> f \<longrightarrow> coremap (cm s') ! i = coremap (cm s) ! i"
  shows "vm_kinv ops stored X s0 s'"
proof -
  have "evolves s0 s'" using inv assms(5) evolves_trans unfolding vm_kinv_def by blast
  moreover have "coremap (cm s') ! i = coremap (cm s0) ! i" if "i \<in> X" for i
  proof -
    have "i \<noteq> f" using that assms(7) by auto
    then show ?thesis using assms(8) inv that by (simp add: vm_kinv_def)
  qed
  ultimately show ?thesis using inv assms(2-6) by (simp add: vm_kinv_def)
qed

lemma kpage_addr_owned:
  assumes "\<forall>g \<in> insert f (kpages s). g < 2 ^ 17"
  shows "kpage_addr f \<in> kowned s \<longleftrightarrow> f \<in> kpages s"
proof
  assume "kpage_addr f \<in> kowned s"
  then obtain g where "g \<in> kpages s" "kpage_addr f = kpage_addr g" by (auto simp: kowned_def)
  then show "f \<in> kpages s" using kpage_addr_inj [of f g] assms by simp
qed (simp add: kowned_def)

interpretation vmk: kpage_provider "kp_vm ops" "vm_kinv ops stored X s0" kowned
  for ops :: "('v, 'p) vnode_ops" and stored X s0
proof
  fix s s' :: "('v, 'p) vm" and va
  assume inv: "vm_kinv ops stored X s0 s" and "kp_alloc (kp_vm ops) (Suc 0) s = Inr (va, s')"
  then have al: "alloc_kpages ops (Suc 0) s = Inr (va, s')" and vi: "vm_inv stored X s"
    and ok: "page_store_ok ops stored" "pending_ok X s"
    by (simp_all add: kp_vm_def vm_kinv_def)
  obtain f where f: "va = PADDR_TO_KVADDR (frame_addr f)" "f \<in> kpages s'" "f \<notin> kpages s"
    "kpages s' = insert f (kpages s)" "vm_inv stored X s'" "pending_ok X s'"
    "user_view stored s' = user_view stored s" "evolves s s'" "mem s' = mem s"
    "\<forall>i. i \<noteq> f \<longrightarrow> coremap (cm s') ! i = coremap (cm s) ! i"
    using alloc_kpages_one [OF vi al ok] by blast
  have b: "f < 2 ^ 17" "\<And>g. g \<in> kpages s \<Longrightarrow> g < 2 ^ 17" using kpages_bound f(2,5) vi by blast+
  have "f \<notin> X" using f(2,5) by (auto simp: vm_inv_def kpages_def)
  then have "vm_kinv ops stored X s0 s'" by (rule vm_kinv_step [OF inv f(5-9)]) (rule f(10))
  moreover have "va \<notin> kowned s"
    using f(1,3) b kpage_addr_owned [of f s] by (simp add: kpage_addr_def)
  ultimately show "vm_kinv ops stored X s0 s' \<and> va \<notin> kowned s \<and> kowned s' = insert va (kowned s)"
    using f(1,4) by (simp add: kowned_def kpage_addr_def)
next
  fix s :: "('v, 'p) vm" and va
  assume inv: "vm_kinv ops stored X s0 s" and "va \<in> kowned s"
  then obtain f where f: "f \<in> kpages s" "va = kpage_addr f" and vi: "vm_inv stored X s" "pending_ok X s"
    by (auto simp: kowned_def vm_kinv_def)
  obtain s' where s': "free_kpages (PADDR_TO_KVADDR (frame_addr f)) s = Inr s'"
    "vm_inv stored X s'" "pending_ok X s'" "kpages s' = kpages s - {f}"
    "user_view stored s' = user_view stored s" "evolves s s'" "mem s' = mem s"
    "\<forall>i. i \<noteq> f \<longrightarrow> coremap (cm s') ! i = coremap (cm s) ! i" "frame_free (coremap (cm s') ! f)"
    using free_kpages_one [OF vi(1) f(1) vi(2)] by blast
  have "f \<notin> X" using f(1) vi(1) by (auto simp: vm_inv_def kpages_def)
  then have "vm_kinv ops stored X s0 s'" by (rule vm_kinv_step [OF inv s'(2,3,5,6,7)]) (rule s'(8))
  moreover have "inj_on kpage_addr (kpages s)"
    using kpages_bound [OF vi(1)] kpage_addr_inj by (intro inj_onI) blast
  then have "kowned s' = kowned s - {va}"
    using s'(4) f inj_on_image_set_diff [of kpage_addr "kpages s" "kpages s" "{f}"] by (simp add: kowned_def)
  ultimately show "\<exists>s'. kp_free (kp_vm ops) va s = Inr s' \<and> vm_kinv ops stored X s0 s' \<and> kowned s' = kowned s - {va}"
    using s'(1) f(2) by (auto simp: kp_vm_def kpage_addr_def)
next
  fix s :: "('v, 'p) vm" and va
  assume "vm_kinv ops stored X s0 s" and "va \<in> kowned s"
  then obtain f where "f \<in> kpages s" "va = kpage_addr f" "vm_inv stored X s"
    by (auto simp: kowned_def vm_kinv_def)
  then show "kseg0_page va" using kpages_bound kpage_addr_facts(1) by blast
qed

end
