(* ===== verification/AddrSpace.thy ===== *)
theory AddrSpace
  imports KernelHeap
begin

text \<open>
  Page tables and address spaces: the operations of \<open>kern/vm/pt.c\<close> that allocate and free
  memory, and the \<open>as_\<close> functions of \<open>kern/arch/mips/vm/vm.c\<close>. All structures come
  from the kernel heap; the records hold their contents and their addresses.

  The address space of the running process is part of the state, because an allocation can
  swap out one of its pages and change its page table. An address space that is being built
  or torn down is an argument.
\<close>

section \<open>Page tables\<close>

definition sizeof_pt :: size_t where "sizeof_pt = 8"
definition sizeof_ptentry :: size_t where "sizeof_ptentry = 20"
definition sizeof_addrspace :: size_t where "sizeof_addrspace = 8"
definition sizeof_region :: size_t where "sizeof_region = 16"

definition pt_init :: "('v, 'p) vnode_ops \<Rightarrow> kheap \<Rightarrow> ('v, 'p) vm \<Rightarrow> (pt_t \<times> kheap \<times> ('v, 'p) vm) res" where
  "pt_init ops h s =
     kbind (kmalloc (kp_vm ops) sizeof_pt h s) (\<lambda>(pt, h1, s1).
     if pt = 0 then Inl (Panic ''Could not allocate pagetable'')
     else
       kbind (kmalloc (kp_vm ops) sizeof_ptentry h1 s1) (\<lambda>(nil, h2, s2).
       if nil = 0 then Inl (Undefined ''pt->nil is NULL'')
       else Inr (\<lparr>pt_ptr = pt, pt_nil = nil, pt_entries = [], pt_npages = 0\<rparr>, h2, s2)))"

text \<open>\<open>pt_add\<close> works on the page table of the running process, its only caller's argument.\<close>

definition pt_push :: "ptentry \<Rightarrow> pt_t \<Rightarrow> pt_t" where
  "pt_push new pt = pt\<lparr>pt_entries := new # pt_entries pt, pt_npages := pt_npages pt + 1\<rparr>"

definition pt_add ::
  "('v, 'p) vnode_ops \<Rightarrow> paddr_t \<Rightarrow> vaddr_t \<Rightarrow> kheap \<Rightarrow> ('v, 'p) vm \<Rightarrow> (int \<times> kheap \<times> ('v, 'p) vm) res" where
  "pt_add ops paddr vaddr h s =
     (let ppindex = addr_frame paddr in
      kbind (kmalloc (kp_vm ops) sizeof_ptentry h s) (\<lambda>(new, h1, s1).
      kbind (kassert (new \<noteq> 0) ''new != NULL'') (\<lambda>_.
      kbind (cm_at (int ppindex) s1) (\<lambda>_.
      Inr (int ppindex, h1,
        upd_pt (pt_push \<lparr>pte_ptr = new, pte_vaddr = vaddr AND PAGE_FRAME, ppage_index = ppindex,
                         swapped = False, swap_index = 0\<rparr>)
          (cm_upd ppindex (\<lambda>e. e\<lparr>ce_vaddr := vaddr AND PAGE_FRAME\<rparr>) s1))))))"

text \<open>The loop of \<open>pt_destroy\<close>. The sentinel is not freed.\<close>

definition pte_release :: "ptentry \<Rightarrow> ('v, 'p) vm \<Rightarrow> ('v, 'p) vm res" where
  "pte_release q s =
     (if swapped q then swap_unmark (swap_index q) s else freeuserppage (frame_addr (ppage_index q)) s)"

fun pt_free_entries ::
  "('v, 'p) vnode_ops \<Rightarrow> ptentry list \<Rightarrow> kheap \<Rightarrow> ('v, 'p) vm \<Rightarrow> (kheap \<times> ('v, 'p) vm) res" where
  "pt_free_entries ops [] h s = Inr (h, s)"
| "pt_free_entries ops (q # qs) h s =
     kbind (pte_release q s) (\<lambda>s1.
     kbind (kfree (kp_vm ops) (pte_ptr q) h s1) (\<lambda>(h1, s2).
     pt_free_entries ops qs h1 s2))"

definition pt_destroy ::
  "('v, 'p) vnode_ops \<Rightarrow> pt_t \<Rightarrow> kheap \<Rightarrow> ('v, 'p) vm \<Rightarrow> (int \<times> kheap \<times> ('v, 'p) vm) res" where
  "pt_destroy ops pt h s =
     kbind (pt_free_entries ops (pt_entries pt) h s) (\<lambda>(h1, s1).
     kbind (kfree (kp_vm ops) (pt_ptr pt) h1 s1) (\<lambda>(h2, s2).
     Inr (0, h2, s2)))"

section \<open>Address spaces\<close>

definition as_create ::
  "('v, 'p) vnode_ops \<Rightarrow> kheap \<Rightarrow> ('v, 'p) vm \<Rightarrow> (addrspace option \<times> kheap \<times> ('v, 'p) vm) res" where
  "as_create ops h s =
     kbind (kmalloc (kp_vm ops) sizeof_addrspace h s) (\<lambda>(as, h1, s1).
     if as = 0 then Inr (None, h1, s1)
     else
       kbind (pt_init ops h1 s1) (\<lambda>(pt, h2, s2).
       Inr (Some \<lparr>as_ptr = as, start_region = [], as_pt = pt\<rparr>, h2, s2)))"

fun free_regions ::
  "('v, 'p) vnode_ops \<Rightarrow> region list \<Rightarrow> kheap \<Rightarrow> ('v, 'p) vm \<Rightarrow> (kheap \<times> ('v, 'p) vm) res" where
  "free_regions ops [] h s = Inr (h, s)"
| "free_regions ops (r # rs) h s =
     kbind (kfree (kp_vm ops) (reg_ptr r) h s) (\<lambda>(h1, s1). free_regions ops rs h1 s1)"

definition tlb_flush :: "('v, 'p) vm \<Rightarrow> ('v, 'p) vm" where
  "tlb_flush s = s\<lparr>tlb := fold (\<lambda>i. tlb_write (TLBHI_INVALID i) TLBLO_INVALID i) [0..<NUM_TLB] (tlb s)\<rparr>"

definition as_destroy ::
  "('v, 'p) vnode_ops \<Rightarrow> addrspace option \<Rightarrow> kheap \<Rightarrow> ('v, 'p) vm \<Rightarrow> (kheap \<times> ('v, 'p) vm) res" where
  "as_destroy ops as0 h s =
     (case as0 of
        None \<Rightarrow> Inl (Assert ''as != NULL'')
      | Some as \<Rightarrow>
          kbind (kassert (pt_ptr (as_pt as) \<noteq> 0) ''as -> pt != NULL'') (\<lambda>_.
          kbind (kassert (start_region as \<noteq> []) ''as-> start_region!=NULL'') (\<lambda>_.
          kbind (free_regions ops (start_region as) h s) (\<lambda>(h1, s1).
          kbind (pt_destroy ops (as_pt as) h1 s1) (\<lambda>(_, h2, s2).
          kfree (kp_vm ops) (as_ptr as) h2 (tlb_flush s2))))))"

definition as_activate :: "('v, 'p) vm \<Rightarrow> ('v, 'p) vm" where
  "as_activate s = (case proc_getas s of None \<Rightarrow> s | Some as \<Rightarrow> s)"

definition as_deactivate :: "('v, 'p) vm \<Rightarrow> ('v, 'p) vm" where
  "as_deactivate s = s"

text \<open>\<open>as_define_region\<close> is called with the address space of the running process.\<close>

definition region_of :: "vaddr_t \<Rightarrow> vaddr_t \<Rightarrow> size_t \<Rightarrow> region" where
  "region_of ptr vaddr sz =
     (let sz1 = sz + (vaddr AND NOT PAGE_FRAME);
          sz2 = (sz1 + of_nat PAGE_SIZE - 1) AND PAGE_FRAME
      in \<lparr>reg_ptr = ptr, reg_start = vaddr AND PAGE_FRAME, reg_size = sz2,
          reg_npages = sz2 div of_nat PAGE_SIZE\<rparr>)"

definition as_define_region ::
  "('v, 'p) vnode_ops \<Rightarrow> vaddr_t \<Rightarrow> size_t \<Rightarrow> int \<Rightarrow> int \<Rightarrow> int \<Rightarrow> kheap \<Rightarrow> ('v, 'p) vm \<Rightarrow>
   (int \<times> kheap \<times> ('v, 'p) vm) res" where
  "as_define_region ops vaddr sz readable writeable executable h s =
     kbind (kassert (proc_getas s \<noteq> None) ''as != NULL'') (\<lambda>_.
     kbind (kmalloc (kp_vm ops) sizeof_region h s) (\<lambda>(curr, h1, s1).
     if curr = 0 then Inr (ENOMEM, h1, s1)
     else Inr (0, h1, upd_as (\<lambda>as. as\<lparr>start_region := start_region as @ [region_of curr vaddr sz]\<rparr>) s1)))"

definition as_prepare_load :: "('v, 'p) vm \<Rightarrow> int \<times> ('v, 'p) vm" where
  "as_prepare_load s = (0, s)"

definition as_complete_load :: "('v, 'p) vm \<Rightarrow> int res" where
  "as_complete_load s = kbind (dumbvm_can_sleep s) (\<lambda>_. Inr 0)"

definition as_define_stack :: "int \<times> vaddr_t" where
  "as_define_stack = (0, USERSTACK)"

fun copy_regions ::
  "('v, 'p) vnode_ops \<Rightarrow> region list \<Rightarrow> addrspace \<Rightarrow> kheap \<Rightarrow> ('v, 'p) vm \<Rightarrow>
   (addrspace option \<times> kheap \<times> ('v, 'p) vm) res" where
  "copy_regions ops [] new h s = Inr (Some new, h, s)"
| "copy_regions ops (oldR # rs) new h s =
     kbind (kmalloc (kp_vm ops) sizeof_region h s) (\<lambda>(tempR, h1, s1).
     if tempR = 0 then Inr (None, h1, s1)
     else copy_regions ops rs
            (new\<lparr>start_region := start_region new @
               [\<lparr>reg_ptr = tempR, reg_start = reg_start oldR, reg_size = reg_size oldR,
                 reg_npages = reg_npages oldR\<rparr>]\<rparr>) h1 s1)"

definition as_copy ::
  "('v, 'p) vnode_ops \<Rightarrow> addrspace \<Rightarrow> kheap \<Rightarrow> ('v, 'p) vm \<Rightarrow>
   (int \<times> addrspace option \<times> kheap \<times> ('v, 'p) vm) res" where
  "as_copy ops old h s =
     kbind (as_create ops h s) (\<lambda>(created, h1, s1).
     case created of
       None \<Rightarrow> Inr (ENOMEM, None, h1, s1)
     | Some new \<Rightarrow>
         kbind (copy_regions ops (start_region old) new h1 s1) (\<lambda>(copied, h2, s2).
         Inr (case copied of None \<Rightarrow> ENOMEM | Some _ \<Rightarrow> 0, copied, h2, s2)))"

end
