(* ===== verification/VmFault.thy ===== *)
theory VmFault
  imports AddrSpace
begin

text \<open>
  The page fault handler, \<open>vm_fault\<close> of \<open>kern/arch/mips/vm/vm.c\<close>: the check of the
  fault address against the regions, the three ways a page gets into memory, and the load of
  the TLB.
\<close>

section \<open>Definitions\<close>

abbreviation (input) VM_FAULT_READ :: int where "VM_FAULT_READ \<equiv> 0"
abbreviation (input) VM_FAULT_WRITE :: int where "VM_FAULT_WRITE \<equiv> 1"
abbreviation (input) VM_FAULT_READONLY :: int where "VM_FAULT_READONLY \<equiv> 2"

definition DUMBVM_STACKPAGES :: nat where
  "DUMBVM_STACKPAGES = 18"

definition region_covers :: "vaddr_t \<Rightarrow> region \<Rightarrow> bool" where
  "region_covers faultaddress r =
     (let vbase = reg_start r; vtop = vbase + reg_npages r * of_nat PAGE_SIZE
      in faultaddress \<ge> vbase \<and> faultaddress \<le> vtop)"

definition fault_valid :: "addrspace \<Rightarrow> vaddr_t \<Rightarrow> bool" where
  "fault_valid as faultaddress =
     (let stackbase = USERSTACK - of_nat (DUMBVM_STACKPAGES * PAGE_SIZE); stacktop = USERSTACK
      in list_ex (region_covers faultaddress) (start_region as) \<or>
         (faultaddress \<ge> stackbase \<and> faultaddress \<le> stacktop))"

text \<open>The three cases for a valid address: each gives the frame and updates the counters.\<close>

definition count_disk_elf :: "stats_t \<Rightarrow> stats_t" where
  "count_disk_elf st = st\<lparr>tlb_faults := tlb_faults st + 1, page_faults_disk := page_faults_disk st + 1,
     page_faults_elf := page_faults_elf st + 1\<rparr>"

definition count_disk_swap :: "stats_t \<Rightarrow> stats_t" where
  "count_disk_swap st = st\<lparr>tlb_faults := tlb_faults st + 1, page_faults_disk := page_faults_disk st + 1,
     page_faults_swapfile := page_faults_swapfile st + 1\<rparr>"

definition count_reload :: "stats_t \<Rightarrow> stats_t" where
  "count_reload st = st\<lparr>tlb_faults := tlb_faults st + 1, tlb_reloads := tlb_reloads st + 1\<rparr>"

definition fault_new_page ::
  "('v, 'p) vnode_ops \<Rightarrow> vaddr_t \<Rightarrow> kheap \<Rightarrow> ('v, 'p) vm \<Rightarrow> (paddr_t \<times> kheap \<times> ('v, 'p) vm) res" where
  "fault_new_page ops faultpage h s =
     kbind (getuserppage ops s) (\<lambda>(paddr, s1).
     let index = addr_frame paddr in
     kbind (cm_at (int index) s1) (\<lambda>_.
     kbind (kassert (paddr \<noteq> 0) ''paddr != 0'') (\<lambda>_.
     kbind (pt_add ops paddr faultpage h (cm_upd index (\<lambda>e. e\<lparr>ce_vaddr := faultpage\<rparr>) s1)) (\<lambda>(err, h1, s2).
     kbind (kassert (err \<noteq> -1) ''err != -1'') (\<lambda>_.
     Inr (paddr, h1, s2\<lparr>stats := count_disk_elf (stats s2)\<rparr>))))))"

definition fault_swapped_page ::
  "('v, 'p) vnode_ops \<Rightarrow> vaddr_t \<Rightarrow> nat \<Rightarrow> ('v, 'p) vm \<Rightarrow> (paddr_t \<times> ('v, 'p) vm) res" where
  "fault_swapped_page ops faultpage k s =
     kbind (getuserppage ops s) (\<lambda>(paddr, s1).
     kbind (swap_in ops (swap_index (cur_entries s1 ! k)) paddr s1) (\<lambda>(err, s2).
     kbind (kassert (err = 0) ''err == 0'') (\<lambda>_.
     kbind (cm_at (int (addr_frame paddr)) s2) (\<lambda>_.
     let s3 = upd_pt (pte_update k (\<lambda>pte. pte\<lparr>ppage_index := addr_frame paddr, swapped := False\<rparr>))
                (cm_upd (addr_frame paddr) (\<lambda>e. e\<lparr>ce_vaddr := faultpage\<rparr>) s2)
     in Inr (paddr, s3\<lparr>stats := count_disk_swap (stats s3)\<rparr>)))))"

text \<open>The load of the TLB: the first entry that is not valid, or the next one in turn.\<close>

definition tlb_load :: "vaddr_t \<Rightarrow> paddr_t \<Rightarrow> ('v, 'p) vm \<Rightarrow> ('v, 'p) vm" where
  "tlb_load faultpage paddr s =
     (case List.find (\<lambda>i. snd (tlb_read i (tlb s)) AND TLBLO_VALID = 0) [0..<NUM_TLB] of
        Some i \<Rightarrow> s\<lparr>tlb := tlb_write faultpage (tlb_lo paddr) i (tlb s),
                     stats := (stats s)\<lparr>tlb_faults_w_free := tlb_faults_w_free (stats s) + 1\<rparr>\<rparr>
      | None \<Rightarrow>
          (case tlb_get_rr_victim (tlb s) of (i, t) \<Rightarrow>
             s\<lparr>tlb := tlb_write faultpage (tlb_lo paddr) i t,
               stats := (stats s)\<lparr>tlb_faults_w_replace := tlb_faults_w_replace (stats s) + 1\<rparr>\<rparr>))"

definition fault_page ::
  "('v, 'p) vnode_ops \<Rightarrow> addrspace \<Rightarrow> vaddr_t \<Rightarrow> kheap \<Rightarrow> ('v, 'p) vm \<Rightarrow>
   (paddr_t \<times> kheap \<times> ('v, 'p) vm) res" where
  "fault_page ops as faultpage h s =
     (case pt_search (as_pt as) faultpage of
        None \<Rightarrow> fault_new_page ops faultpage h s
      | Some k \<Rightarrow>
          let pte = pt_entries (as_pt as) ! k in
          if swapped pte
          then kbind (fault_swapped_page ops faultpage k s) (\<lambda>(paddr, s1). Inr (paddr, h, s1))
          else Inr (frame_addr (ppage_index pte), h, s\<lparr>stats := count_reload (stats s)\<rparr>))"

definition vm_fault ::
  "('v, 'p) vnode_ops \<Rightarrow> int \<Rightarrow> vaddr_t \<Rightarrow> kheap \<Rightarrow> ('v, 'p) vm \<Rightarrow> (int \<times> kheap \<times> ('v, 'p) vm) res" where
  "vm_fault ops faulttype faultaddress h s =
     (let faultpage = faultaddress AND PAGE_FRAME in
      if curproc s = None then Inr (EFAULT, h, s)
      else
        (case proc_getas s of
           None \<Rightarrow> Inr (EFAULT, h, s)
         | Some as \<Rightarrow>
             if faulttype = VM_FAULT_READONLY then Inl (Panic ''dumbvm: got VM_FAULT_READONLY'')
             else if faulttype \<noteq> VM_FAULT_WRITE \<and> faulttype \<noteq> VM_FAULT_READ then Inr (EINVAL, h, s)
             else
               kbind (kassert (pt_ptr (as_pt as) \<noteq> 0) ''as -> pt != NULL'') (\<lambda>_.
               kbind (kassert (start_region as \<noteq> []) ''as-> start_region != NULL'') (\<lambda>_.
               if \<not> fault_valid as faultaddress then Inr (EFAULT, h, s)
               else
                 kbind (fault_page ops as faultpage h s) (\<lambda>(paddr, h1, s1).
                 kbind (kassert (paddr AND PAGE_FRAME = paddr) ''(paddr & PAGE_FRAME) == paddr'') (\<lambda>_.
                 Inr (0, h1, tlb_load faultpage paddr s1)))))))"

section \<open>Entering a page in the page table\<close>

lemma vm_inv_stats [simp]: "vm_inv stored X (s\<lparr>stats := st\<rparr>) = vm_inv stored X s"
  by (simp add: vm_inv_def)

lemma user_view_stats [simp]: "user_view stored (s\<lparr>stats := st\<rparr>) = user_view stored s"
  by (rule ext) (simp add: user_view_def pte_content_def split: option.split)

lemma user_view_tlb [simp]: "user_view stored (s\<lparr>tlb := t\<rparr>) = user_view stored s"
  by (rule ext) (simp add: user_view_def pte_content_def split: option.split)

text \<open>
  The frame \<open>f\<close> has been taken for the page of a new entry. The entry goes to the front of
  the page table; every page keeps its contents, and the new page has those of the frame.
\<close>

lemma vm_inv_push:
  assumes inv: "vm_inv stored {f} s" and as: "proc_getas s = Some as"
    and e: "pte_vaddr e \<notin> pte_vaddr ` set (cur_entries s)" "page_aligned (pte_vaddr e)" "pte_vaddr e < MIPS_KSEG0"
      "\<not> swapped e" "ppage_index e = f"
    and ce: "ce_vaddr (coremap (cm s) ! f) = pte_vaddr e" "ce_paddr (coremap (cm s) ! f) = frame_addr f"
    and s': "s' = upd_pt (pt_push e) s"
  shows "vm_inv stored {} s'"
    and "user_view stored s' = (user_view stored s)(pte_vaddr e \<mapsto> mem s f)"
proof -
  have es: "cur_entries s' = e # cur_entries s"
    unfolding s' cur_entries_upd_pt [OF as] using as by (simp add: pt_push_def cur_entries_def)
  have same: "cm s' = cm s" "sw s' = sw s" "tlb s' = tlb s" "mem s' = mem s"
    by (simp_all add: s' upd_pt_def)
  have f: "firstFreeFrame (cm s) \<le> f" "f < nRamFrames (cm s)" "status (coremap (cm s) ! f) = DIRTY"
    using inv by (auto simp: vm_inv_def)
  have wf: "pt_wf (cur_entries s')" using inv e by (simp add: es pt_wf_Cons vm_inv_def)
  have fm: "frame_mapped (cm s) {} e" using f e(5) ce by (simp add: frame_mapped_def)
  have old: "frame_mapped (cm s) {} e'" if "e' \<in> set (cur_entries s)" "\<not> swapped e'" for e'
    using inv that by (auto simp: vm_inv_def frame_mapped_def)
  have dirty: "\<exists>e' \<in> set (cur_entries s'). \<not> swapped e' \<and> ppage_index e' = i"
    if "firstFreeFrame (cm s) \<le> i" "i < nRamFrames (cm s)" "status (coremap (cm s) ! i) = DIRTY" for i
    using inv that e(4,5) unfolding es by (cases "i = f") (auto simp: vm_inv_def)
  have "tlb_maps (tlb s) (cur_entries s')" using inv unfolding es by (fastforce simp: vm_inv_def tlb_maps_def)
  then show "vm_inv stored {} s'"
    using inv wf fm old e(4) dirty by (intro vm_invI) (auto simp: same es vm_inv_def)
  show "user_view stored s' = (user_view stored s)(pte_vaddr e \<mapsto> mem s f)"
    using e(4,5) by (auto simp: user_view_def es pte_content_def same fun_eq_iff split: option.split)
qed

text \<open>
  The page of entry \<open>k\<close> comes back from the swap file into the frame \<open>f\<close>: no page changes
  its contents.
\<close>

lemma vm_inv_swap_back:
  assumes inv: "vm_inv stored {f} s" and as: "proc_getas s = Some as" and k: "k < length (cur_entries s)"
    and e: "e = cur_entries s ! k" "swapped e" and p: "stored (swapspace (sw s)) (swap_index e) = Some p"
    and ce: "ce_paddr (coremap (cm s) ! f) = frame_addr f"
    and es': "cur_entries s' = (cur_entries s)[k := e\<lparr>ppage_index := f, swapped := False\<rparr>]"
    and cm': "cm s' = cm (cm_upd f (\<lambda>c. c\<lparr>ce_vaddr := pte_vaddr e\<rparr>) s)"
    and sw': "swaptable (sw s') = (swaptable (sw s))(swap_index e := True)"
      "stored (swapspace (sw s')) = stored (swapspace (sw s))"
    and rest: "tlb s' = tlb s" "mem s' = (mem s)(f := p)"
  shows "vm_inv stored {} s'" and "user_view stored s' = user_view stored s"
proof -
  let ?es = "cur_entries s" and ?new = "e\<lparr>ppage_index := f, swapped := False\<rparr>"
  have wf: "pt_wf ?es" using inv by (simp add: vm_inv_def)
  then have wf': "pt_wf (cur_entries s')" unfolding es' using k e by (intro pt_wf_update) auto
  have f: "firstFreeFrame (cm s) \<le> f" "f < nRamFrames (cm s)" "status (coremap (cm s) ! f) = DIRTY"
    "f < length (coremap (cm s))" using inv by (auto simp: vm_inv_def cm_wf_def)
  have in_es: "e \<in> set ?es" using e k by simp
  have not_f: "ppage_index e' \<noteq> f" if "e' \<in> set ?es" "\<not> swapped e'" for e'
    using inv that by (auto simp: vm_inv_def frame_mapped_def)
  have keep: "e' \<in> set (cur_entries s')" if e': "e' \<in> set ?es" "e' \<noteq> e" for e'
  proof -
    obtain i where i: "i < length ?es" "?es ! i = e'" using e'(1) by (auto simp: in_set_conv_nth)
    then have "i \<noteq> k" using e' e by auto
    then have "(cur_entries s') ! i = e'" "i < length (cur_entries s')" unfolding es' using i by simp_all
    then show ?thesis by (metis nth_mem)
  qed
  have cases: "e' = ?new \<or> e' \<in> set ?es \<and> e' \<noteq> e" if "e' \<in> set (cur_entries s')" for e'
    using that unfolding es'
  proof (cases rule: set_list_update_cases)
    case (2 i)
    then have "pte_vaddr e' \<noteq> pte_vaddr e" using pt_wf_inj [OF wf, of i k] k e by auto
    then show ?thesis using 2 by auto
  qed simp
  have fm: "frame_mapped (cm s') {} e'" if "e' \<in> set (cur_entries s')" "\<not> swapped e'" for e'
  proof (cases "e' = ?new")
    case True
    then show ?thesis using f ce by (simp add: frame_mapped_def cm')
  next
    case False
    then have "e' \<in> set ?es" using cases [OF that(1)] by simp
    then have "frame_mapped (cm s) {f} e'" "ppage_index e' \<noteq> f" using inv that(2) not_f by (auto simp: vm_inv_def)
    then show ?thesis unfolding cm' by (intro frame_mapped_upd) auto
  qed
  have inj: "swap_index e1 \<noteq> swap_index e" if "e1 \<in> set ?es" "swapped e1" "e1 \<noteq> e" for e1
    using inv that in_es e(2) by (auto simp: vm_inv_def)
  have su: "slot_used stored (sw s') e'" if "e' \<in> set (cur_entries s')" "swapped e'" for e'
  proof -
    have "e' \<noteq> ?new"
    proof
      assume "e' = ?new"
      then show False using that(2) by simp
    qed
    then have e': "e' \<in> set ?es" "e' \<noteq> e" using cases [OF that(1)] by auto
    then have "slot_used stored (sw s) e'" using inv that(2) by (simp add: vm_inv_def)
    then show ?thesis using inj [OF e'(1) that(2) e'(2)] by (simp add: slot_used_def sw')
  qed
  have inj': "e1 = e2" if "e1 \<in> set (cur_entries s')" "e2 \<in> set (cur_entries s')"
      "swapped e1" "swapped e2" "swap_index e1 = swap_index e2" for e1 e2
    using cases [OF that(1)] cases [OF that(2)] that(3-5) inv by (auto simp: vm_inv_def)
  have new_in: "?new \<in> set (cur_entries s')" unfolding es' using k by (simp add: set_update_memI)
  have dirty: "\<exists>e' \<in> set (cur_entries s'). \<not> swapped e' \<and> ppage_index e' = i"
    if i: "firstFreeFrame (cm s) \<le> i" "i < nRamFrames (cm s)" "status (coremap (cm s') ! i) = DIRTY" for i
  proof (cases "i = f")
    case True
    then show ?thesis using new_in by force
  next
    case False
    then have "\<exists>e' \<in> set ?es. \<not> swapped e' \<and> ppage_index e' = i" using inv i by (simp add: vm_inv_def cm')
    then show ?thesis using keep e(2) by blast
  qed
  have tm: "tlb_maps (tlb s') (cur_entries s')"
    unfolding tlb_maps_def rest
  proof (intro allI impI)
    fix i assume "i < NUM_TLB" "tlb_valid (tlb s) i"
    then obtain e' where e': "e' \<in> set ?es" "\<not> swapped e'" "pte_vaddr e' = fst (tlb_entry (tlb s) i)"
      "snd (tlb_entry (tlb s) i) = tlb_lo (frame_addr (ppage_index e'))" using inv by (auto simp: vm_inv_def tlb_maps_def)
    then have "e' \<in> set (cur_entries s')" using keep e(2) by auto
    then show "\<exists>e \<in> set (cur_entries s'). \<not> swapped e \<and> pte_vaddr e = fst (tlb_entry (tlb s) i) \<and>
        snd (tlb_entry (tlb s) i) = tlb_lo (frame_addr (ppage_index e))" using e' by auto
  qed
  have "cm_wf (cm s')" "tlb_wf (tlb s')" using inv by (simp_all add: vm_inv_def cm' rest)
  then show "vm_inv stored {} s'"
    by (intro vm_invI [OF _ wf' _ tm fm su inj']) (auto intro!: dirty simp: cm')
  show "user_view stored s' = user_view stored s"
  proof (rule user_view_eqI [OF wf wf'])
    show "map pte_vaddr (cur_entries s') = map pte_vaddr ?es"
      unfolding es' map_update using k e by (auto simp: list_update_same_conv)
    fix i assume i: "i < length ?es"
    show "pte_content stored s' (cur_entries s' ! i) = pte_content stored s (?es ! i)"
    proof (cases "i = k")
      case True
      then show ?thesis using k e p by (simp add: es' pte_content_def rest)
    next
      case False
      then show ?thesis using not_f [of "?es ! i"] i by (auto simp: es' pte_content_def sw' rest)
    qed
  qed
qed

section \<open>The three kinds of fault\<close>

text \<open>What the handler never changes of the address space.\<close>

definition as_id :: "addrspace \<Rightarrow> vaddr_t \<times> region list \<times> vaddr_t \<times> vaddr_t" where
  "as_id as = (as_ptr as, start_region as, pt_ptr (as_pt as), pt_nil (as_pt as))"

lemma evolves_as:
  assumes "evolves s s'" and "proc_getas s = Some as"
  obtains as' where "proc_getas s' = Some as'" "as_id as' = as_id as"
proof -
  obtain as' where as': "proc_getas s' = Some as'" "as_frame as' = as_frame as"
    using assms by (auto simp: evolves_def)
  have "as_id (as_frame a) = as_id a" for a by (simp add: as_id_def as_frame_def)
  then show thesis using that as' by metis
qed

lemma evolves_pages: "evolves s s' \<Longrightarrow> pte_vaddr ` set (cur_entries s') = pte_vaddr ` set (cur_entries s)"
  using pages_kept_vaddrs unfolding evolves_def by (metis list.set_map)

lemma not_in_tlb:
  assumes "vm_inv stored X s" and "\<forall>e \<in> set (cur_entries s). pte_vaddr e = page \<longrightarrow> swapped e"
  shows "tlb_translate (tlb s) page = None"
  using assms by (auto simp: tlb_translate_None_iff vm_inv_def tlb_maps_def)

lemma kowned_getuserppage:
  assumes "evolves s s'" and "status (coremap (cm s) ! f) \<noteq> FIXED" and "f < length (coremap (cm s))"
    and "coremap (cm s') = (coremap (cm s))[f := (coremap (cm s) ! f)\<lparr>status := DIRTY, ce_paddr := a, ce_size := n\<rparr>]"
  shows "kowned s' = kowned s"
proof -
  have "kpages s' = kpages s"
    using assms by (auto simp: kpages_def evolves_def nth_list_update)
  then show ?thesis by (simp add: kowned_def)
qed

lemma kowned_set_vaddr: "kowned (cm_upd f (\<lambda>e. e\<lparr>ce_vaddr := v\<rparr>) s) = kowned s"
proof -
  have "kpages (cm_upd f (\<lambda>e. e\<lparr>ce_vaddr := v\<rparr>) s) = kpages s"
    by (auto simp: kpages_def nth_list_update)
      (cases "f < length (coremap (cm s))"; auto simp: nth_list_update list_update_beyond split: if_splits)+
  then show ?thesis by (simp add: kowned_def)
qed

lemma vm_inv_set_vaddr:
  assumes "vm_inv stored {f} s"
  shows "vm_inv stored {f} (cm_upd f (\<lambda>e. e\<lparr>ce_vaddr := v\<rparr>) s)"
  using assms by (intro vm_inv_frame_update [OF assms]) (auto simp: vm_inv_def)

lemma kowned_upd_pt [simp]: "kowned (upd_pt g s) = kowned s"
  by (simp add: kowned_def kpages_def upd_pt_def)

lemma kowned_stats [simp]: "kowned (s\<lparr>stats := st\<rparr>) = kowned s"
  by (simp add: kowned_def kpages_def)

lemma kowned_tlb [simp]: "kowned (s\<lparr>tlb := t\<rparr>) = kowned s"
  by (simp add: kowned_def kpages_def)

lemma fault_new_page_ok:
  assumes ok: "page_store_ok ops stored" and inv: "vm_inv stored {} s" and hi: "heap_inv (kowned s) h"
    and as: "proc_getas s = Some as"
    and page: "page_aligned page" "page < MIPS_KSEG0" "page \<notin> pte_vaddr ` set (cur_entries s)"
    and run: "fault_new_page ops page h s = Inr (pa, h', s')"
  obtains f e as' st where "pa = frame_addr f" "f < nRamFrames (cm s)" "status (coremap (cm s) ! f) \<noteq> FIXED"
    "vm_inv stored {} s'" "heap_inv (kowned s') h'"
    "user_view stored s' = (user_view stored s)(page \<mapsto> mem s f)"
    "e \<in> set (cur_entries s')" "\<not> swapped e" "pte_vaddr e = page" "ppage_index e = f"
    "tlb_translate (tlb s') page = None" "proc_getas s' = Some as'" "as_id as' = as_id as"
    "stats_kept (stats s) st" "stats s' = count_disk_elf st" "mem s' = mem s"
proof -
  obtain s1 where get: "getuserppage ops s = Inr (pa, s1)" using run by (auto simp: fault_new_page_def Let_def)
  obtain f where f: "pa = frame_addr f" "firstFreeFrame (cm s) \<le> f" "f < nRamFrames (cm s)"
    "status (coremap (cm s) ! f) \<noteq> FIXED"
    "vm_inv stored {f} s1" "user_view stored s1 = user_view stored s" "evolves s s1" "mem s1 = mem s"
    "coremap (cm s1) = (coremap (cm s))[f := (coremap (cm s) ! f)
       \<lparr>status := DIRTY, ce_paddr := frame_addr f, ce_size := 1\<rparr>]"
    using getuserppage_ok [OF ok inv get] by blast
  have len: "f < length (coremap (cm s))" "f < 2 ^ 20" using inv f(3) by (auto simp: vm_inv_def cm_wf_def)
  have af: "addr_frame pa = f" using f(1) len(2) by simp
  let ?set = "cm_upd f (\<lambda>e. e\<lparr>ce_vaddr := page\<rparr>)"
  define s1' where "s1' = ?set s1"
  have inv1: "vm_inv stored {f} s1'" unfolding s1'_def by (rule vm_inv_set_vaddr [OF f(5)])
  have ev1: "evolves s s1'" unfolding s1'_def using f(7) evolves_cm_upd evolves_trans by blast
  have ce1: "coremap (cm s1') ! f = (coremap (cm s) ! f)\<lparr>status := DIRTY, ce_paddr := frame_addr f, ce_size := 1, ce_vaddr := page\<rparr>"
    using len f(9) by (simp add: s1'_def)
  have pend: "pending_ok {f} s1'" using page evolves_pages [OF ev1] ce1 by (simp add: pending_ok_def)
  have own1: "kowned s1' = kowned s"
    unfolding s1'_def kowned_set_vaddr by (rule kowned_getuserppage [OF f(7,4) len(1) f(9)])
  obtain new s2 where km: "kmalloc (kp_vm ops) sizeof_ptentry h s1' = Inr (new, h', s2)" and new: "new \<noteq> 0"
    and s': "s' = (let s3 = upd_pt (pt_push \<lparr>pte_ptr = new, pte_vaddr = page AND PAGE_FRAME, ppage_index = f,
        swapped = False, swap_index = 0\<rparr>) (cm_upd f (\<lambda>e. e\<lparr>ce_vaddr := page AND PAGE_FRAME\<rparr>) s2)
      in s3\<lparr>stats := count_disk_elf (stats s3)\<rparr>)"
    using run get by (auto simp: fault_new_page_def pt_add_def Let_def af s1'_def)
  have sz: "unat sizeof_ptentry \<le> PAGE_SIZE" by (simp add: sizeof_ptentry_def)
  have k2: "vm_kinv ops stored {f} s1' s2" "heap_inv (kowned s2) h'"
    using vmk.kmalloc_ok [OF vm_kinv_refl [OF ok inv1 pend] _ sz km] hi own1 by auto
  then have inv2: "vm_inv stored {f} s2" and ev2: "evolves s s2" and view2: "user_view stored s2 = user_view stored s"
    and mem2: "mem s2 = mem s" and ce2: "coremap (cm s2) ! f = coremap (cm s1') ! f"
    using ev1 evolves_trans f(6,8) by (auto simp: vm_kinv_def s1'_def)
  define e where "e = \<lparr>pte_ptr = new, pte_vaddr = page, ppage_index = f, swapped = False, swap_index = 0\<rparr>"
  define s3 where "s3 = ?set s2"
  have s'_eq: "s' = (upd_pt (pt_push e) s3)\<lparr>stats := count_disk_elf (stats s2)\<rparr>"
    using page(1) by (simp add: s' Let_def e_def s3_def page_aligned_and_eq upd_pt_def)
  obtain as2 where as2: "proc_getas s2 = Some as2" "as_id as2 = as_id as" using evolves_as [OF ev2 as] by blast
  have inv3: "vm_inv stored {f} s3" unfolding s3_def by (rule vm_inv_set_vaddr [OF inv2])
  have len2: "f < length (coremap (cm s2))" using inv2 by (auto simp: vm_inv_def cm_wf_def)
  have fresh: "page \<notin> pte_vaddr ` set (cur_entries s3)" using page(3) evolves_pages [OF ev2] by (simp add: s3_def)
  have push: "vm_inv stored {} (upd_pt (pt_push e) s3)"
    "user_view stored (upd_pt (pt_push e) s3) = (user_view stored s3)(pte_vaddr e \<mapsto> mem s3 f)"
    by (rule vm_inv_push [OF inv3, of as2 e]; use as2 fresh page ce1 ce2 len2 in \<open>simp add: s3_def e_def\<close>)+
  have "tlb_translate (tlb s3) page = None" using fresh by (intro not_in_tlb [OF inv3]) force
  then have tl: "tlb_translate (tlb s') page = None" by (simp add: s'_eq upd_pt_def)
  have as': "proc_getas s' = Some (as2\<lparr>as_pt := pt_push e (as_pt as2)\<rparr>)"
    using as2 by (simp add: s'_eq upd_pt_def s3_def)
  have "e \<in> set (cur_entries s')"
    using as2 cur_entries_upd_pt [of s3 as2 "pt_push e"] by (simp add: s'_eq s3_def pt_push_def)
  moreover have "kowned s' = kowned s2" by (simp add: s'_eq s3_def kowned_set_vaddr)
  moreover have "stats_kept (stats s) (stats s2)" using ev2 by (simp add: evolves_def)
  ultimately show thesis
    using that [of f e "as2\<lparr>as_pt := pt_push e (as_pt as2)\<rparr>" "stats s2"] f(1,3,4) push k2(2) tl as' as2(2) view2 mem2
    by (simp add: s'_eq s3_def e_def as_id_def pt_push_def upd_pt_def)
qed

lemma fault_swapped_page_ok:
  assumes ok: "page_store_ok ops stored" and inv: "vm_inv stored {} s" and as: "proc_getas s = Some as"
    and k: "k < length (cur_entries s)" "swapped (cur_entries s ! k)" "pte_vaddr (cur_entries s ! k) = page"
    and run: "fault_swapped_page ops page k s = Inr (pa, s')"
  obtains f e as' st where "pa = frame_addr f" "f < nRamFrames (cm s)"
    "vm_inv stored {} s'" "kowned s' = kowned s" "user_view stored s' = user_view stored s"
    "e \<in> set (cur_entries s')" "\<not> swapped e" "pte_vaddr e = page" "ppage_index e = f"
    "tlb_translate (tlb s') page = None" "proc_getas s' = Some as'" "as_id as' = as_id as"
    "stats_kept (stats s) st" "stats s' = count_disk_swap st"
proof -
  obtain s1 where get: "getuserppage ops s = Inr (pa, s1)" using run by (auto simp: fault_swapped_page_def Let_def)
  obtain f where f: "pa = frame_addr f" "firstFreeFrame (cm s) \<le> f" "f < nRamFrames (cm s)"
    "status (coremap (cm s) ! f) \<noteq> FIXED"
    "vm_inv stored {f} s1" "user_view stored s1 = user_view stored s" "evolves s s1" "mem s1 = mem s"
    "coremap (cm s1) = (coremap (cm s))[f := (coremap (cm s) ! f)
       \<lparr>status := DIRTY, ce_paddr := frame_addr f, ce_size := 1\<rparr>]"
    using getuserppage_ok [OF ok inv get] by blast
  have len: "f < length (coremap (cm s))" "f < 2 ^ 20" using inv f(3) by (auto simp: vm_inv_def cm_wf_def)
  have af: "addr_frame pa = f" using f(1) len(2) by simp
  define e where "e = cur_entries s ! k"
  have k1: "k < length (cur_entries s1)" "cur_entries s1 ! k = e"
    using f(7) k pages_kept_nth [of "cur_entries s" "cur_entries s1" k] by (simp_all add: evolves_def e_def)
  have e: "swapped e" "pte_vaddr e = page" using k by (simp_all add: e_def)
  have in1: "e \<in> set (cur_entries s1)" using nth_mem [OF k1(1)] k1(2) by simp
  then obtain p where p: "stored (swapspace (sw s1)) (swap_index e) = Some p"
    using f(5) e(1) by (auto simp: vm_inv_def slot_used_def)
  obtain s2 where sin: "swap_in ops (swap_index e) pa s1 = Inr (0, s2)"
    and s': "s' = (let s3 = upd_pt (pte_update k (\<lambda>pte. pte\<lparr>ppage_index := f, swapped := False\<rparr>))
        (cm_upd f (\<lambda>e. e\<lparr>ce_vaddr := page\<rparr>) s2) in s3\<lparr>stats := count_disk_swap (stats s3)\<rparr>)"
    using run get k1(2) by (auto simp: fault_swapped_page_def Let_def af)
  obtain v where v: "stored v = stored (swapspace (sw s1))"
    and s2: "s2 = s1\<lparr>sw := \<lparr>swaptable = (swaptable (sw s1))(swap_index e := True), swapspace = v\<rparr>,
            mem := (mem s1)(f := p)\<rparr>"
    using swap_in_ok [OF ok sin p] unfolding af by metis
  obtain as1 where as1: "proc_getas s1 = Some as1" "as_id as1 = as_id as" using evolves_as [OF f(7) as] by blast
  define s3 where "s3 = upd_pt (pte_update k (\<lambda>pte. pte\<lparr>ppage_index := f, swapped := False\<rparr>))
        (cm_upd f (\<lambda>e. e\<lparr>ce_vaddr := page\<rparr>) s2)"
  have s'_eq: "s' = s3\<lparr>stats := count_disk_swap (stats s1)\<rparr>" by (simp add: s' Let_def s3_def s2 upd_pt_def)
  let ?new = "e\<lparr>ppage_index := f, swapped := False\<rparr>"
  have "pt_entries (as_pt as1) = cur_entries s1" using as1(1) by (simp add: cur_entries_def)
  then have es: "cur_entries s3 = (cur_entries s1)[k := ?new]"
    unfolding s3_def using as1(1) k1(2) by (subst cur_entries_upd_pt [of _ as1]) (simp_all add: s2 pte_update_def)
  have ce: "ce_paddr (coremap (cm s1) ! f) = frame_addr f" using len f(9) by simp
  have cm3: "cm s3 = cm (cm_upd f (\<lambda>c. c\<lparr>ce_vaddr := pte_vaddr e\<rparr>) s1)"
    by (simp add: s3_def upd_pt_def e(2)) (simp add: cm_upd_def s2)
  have bk: "vm_inv stored {} s3" "user_view stored s3 = user_view stored s1"
    using vm_inv_swap_back [OF f(5) as1(1) k1(1) k1(2) [symmetric] e(1) p ce es cm3] v
    by (simp_all add: s3_def upd_pt_def s2)
  have "pt_wf (cur_entries s1)" using f(5) by (simp add: vm_inv_def)
  then have "x = e" if "x \<in> set (cur_entries s1)" "pte_vaddr x = page" for x
    using that k1 e(2) pt_wf_inj by (metis in_set_conv_nth)
  then have "tlb_translate (tlb s1) page = None" using e(1) by (intro not_in_tlb [OF f(5)]) auto
  then have tl: "tlb_translate (tlb s') page = None" by (simp add: s'_eq s3_def upd_pt_def s2)
  have "?new \<in> set (cur_entries s')" using k1(1) by (simp add: s'_eq es set_update_memI)
  moreover have "kowned s' = kowned s"
  proof -
    have "kowned s' = kowned s2" by (simp add: s'_eq s3_def kowned_set_vaddr)
    also have "\<dots> = kowned s1" by (simp add: s2 kowned_def kpages_def)
    also have "\<dots> = kowned s" by (rule kowned_getuserppage [OF f(7,4) len(1) f(9)])
    finally show ?thesis .
  qed
  moreover define as' where "as' = as1\<lparr>as_pt := pte_update k (\<lambda>pte. pte\<lparr>ppage_index := f, swapped := False\<rparr>) (as_pt as1)\<rparr>"
  have "proc_getas s' = Some as'" using as1(1) by (simp add: s'_eq s3_def upd_pt_def s2 as'_def)
  moreover have "as_id as' = as_id as" using as1(2) by (simp add: as_id_def pte_update_def as'_def)
  moreover have "stats_kept (stats s) (stats s1)" using f(7) by (simp add: evolves_def)
  ultimately show thesis
    using that [of f ?new as' "stats s1"] f(1,3,6) bk tl e(2) by (simp add: s'_eq)
qed

section \<open>The TLB\<close>

lemma tlb_load_eq:
  assumes "tlb_wf (tlb s)"
  obtains i t st where "i < NUM_TLB" "tlb_wf t" "tlb_entry t = tlb_entry (tlb s)"
    "tlb_load page pa s = s\<lparr>tlb := tlb_write page (tlb_lo pa) i t, stats := st\<rparr>"
    "st = (stats s)\<lparr>tlb_faults_w_free := tlb_faults_w_free (stats s) + 1\<rparr> \<or>
     st = (stats s)\<lparr>tlb_faults_w_replace := tlb_faults_w_replace (stats s) + 1\<rparr>"
proof (cases "List.find (\<lambda>i. snd (tlb_read i (tlb s)) AND TLBLO_VALID = 0) [0..<NUM_TLB]")
  case None
  let ?i = "tlb_next_victim (tlb s)" and ?t = "(tlb s)\<lparr>tlb_next_victim := (tlb_next_victim (tlb s) + 1) mod NUM_TLB\<rparr>"
  have "?i < NUM_TLB" "tlb_wf ?t" using assms by (auto simp: tlb_wf_def tlb_valid_def NUM_TLB_def)
  then show thesis using that [of ?i ?t] None by (simp add: tlb_load_def tlb_get_rr_victim_def)
next
  case (Some i)
  then have "i < NUM_TLB" by (simp add: find_upt_Some_iff)
  then show thesis using that [of i "tlb s"] Some assms by (simp add: tlb_load_def)
qed

lemma tlb_load_ok:
  assumes inv: "vm_inv stored {} s" and miss: "tlb_translate (tlb s) page = None"
    and e: "e \<in> set (cur_entries s)" "\<not> swapped e" "pte_vaddr e = page" "ppage_index e = f"
  shows "vm_inv stored {} (tlb_load page (frame_addr f) s)"
    and "tlb_translate (tlb (tlb_load page (frame_addr f) s)) page = Some (frame_addr f)"
proof -
  have wf: "tlb_wf (tlb s)" and ptw: "pt_wf (cur_entries s)" using inv by (simp_all add: vm_inv_def)
  obtain i t st where i: "i < NUM_TLB" "tlb_wf t" "tlb_entry t = tlb_entry (tlb s)"
    and load: "tlb_load page (frame_addr f) s = s\<lparr>tlb := tlb_write page (tlb_lo (frame_addr f)) i t, stats := st\<rparr>"
    using tlb_load_eq [OF wf] by blast
  let ?t = "tlb_write page (tlb_lo (frame_addr f)) i t"
  have page: "page_aligned page" "page < MIPS_KSEG0" using ptw e by (auto simp: pt_wf_def)
  have valid: "tlb_valid t = tlb_valid (tlb s)" using i(3) by (simp add: tlb_valid_def fun_eq_iff)
  then have "tlb_translate t page = None" using miss by (simp add: tlb_translate_None_iff i(3))
  then have wf': "tlb_wf ?t" by (rule tlb_wf_write_map [OF i(2,1) page])
  have "frame_mapped (cm s) {} e" using inv e by (auto simp: vm_inv_def)
  then have "f < 2 ^ 20" using inv e(4) by (auto simp: vm_inv_def cm_wf_def frame_mapped_def)
  have "tlb_maps ?t (cur_entries s)"
    unfolding tlb_maps_def
  proof (intro allI impI)
    fix j assume j: "j < NUM_TLB" "tlb_valid ?t j"
    show "\<exists>e \<in> set (cur_entries s). \<not> swapped e \<and> pte_vaddr e = fst (tlb_entry ?t j) \<and>
        snd (tlb_entry ?t j) = tlb_lo (frame_addr (ppage_index e))"
    proof (cases "j = i")
      case True
      then show ?thesis using e by (auto simp: tlb_entry_write)
    next
      case False
      then have "tlb_valid (tlb s) j" using j(2) valid by (simp add: tlb_valid_write)
      then show ?thesis using inv j(1) False i(3) by (simp add: vm_inv_def tlb_maps_def tlb_entry_write)
    qed
  qed
  then show "vm_inv stored {} (tlb_load page (frame_addr f) s)"
    using inv wf' unfolding load by (simp add: vm_inv_def)
  show "tlb_translate (tlb (tlb_load page (frame_addr f) s)) page = Some (frame_addr f)"
    unfolding load using i(1) \<open>f < 2 ^ 20\<close>
    by (simp add: tlb_translate_Some_iff [OF wf'])
      (auto intro!: exI [of _ i] simp: tlb_valid_write tlb_entry_write)
qed

lemma tlb_load_frame:
  "user_view stored (tlb_load page pa s) = user_view stored s" "proc_getas (tlb_load page pa s) = proc_getas s"
  "cur_entries (tlb_load page pa s) = cur_entries s" "mem (tlb_load page pa s) = mem s"
  "kowned (tlb_load page pa s) = kowned s" "cm (tlb_load page pa s) = cm s"
  by (simp_all add: tlb_load_def tlb_get_rr_victim_def split: option.split)

section \<open>The handler\<close>

lemma view_entry:
  assumes "vm_inv stored X s" and "e \<in> set (cur_entries s)" and "\<not> swapped e"
  shows "user_view stored s (pte_vaddr e) = Some (mem s (ppage_index e))"
proof -
  obtain k where "k < length (cur_entries s)" "cur_entries s ! k = e" using assms(2) by (auto simp: in_set_conv_nth)
  then show ?thesis using user_view_nth [of s k stored] assms by (auto simp: vm_inv_def pte_content_def)
qed

lemma view_swapped:
  assumes "vm_inv stored X s" and "e \<in> set (cur_entries s)"
  shows "user_view stored s (pte_vaddr e) \<noteq> None"
proof (cases "swapped e")
  case True
  obtain k where "k < length (cur_entries s)" "cur_entries s ! k = e" using assms(2) by (auto simp: in_set_conv_nth)
  then show ?thesis using user_view_nth [of s k stored] assms True by (auto simp: vm_inv_def pte_content_def slot_used_def)
qed (use view_entry [OF assms] in simp)

text \<open>The counters \<open>vm_fault\<close> keeps before it loads the TLB.\<close>

definition counted :: "stats_t \<Rightarrow> stats_t \<Rightarrow> bool" where
  "counted st st' \<longleftrightarrow> (\<exists>st1. stats_kept st st1 \<and>
     (st' = count_disk_elf st1 \<or> st' = count_disk_swap st1 \<or> st' = count_reload st1))"

lemma fault_page_ok:
  assumes ok: "page_store_ok ops stored" and inv: "vm_inv stored {} s" and hi: "heap_inv (kowned s) h"
    and as: "proc_getas s = Some as" and miss: "tlb_translate (tlb s) page = None"
    and page: "page_aligned page" "page < MIPS_KSEG0"
    and run: "fault_page ops as page h s = Inr (pa, h', s')"
  obtains f e as' where "pa = frame_addr f" "f < nRamFrames (cm s)" "vm_inv stored {} s'" "heap_inv (kowned s') h'"
    "e \<in> set (cur_entries s')" "\<not> swapped e" "pte_vaddr e = page" "ppage_index e = f"
    "tlb_translate (tlb s') page = None" "proc_getas s' = Some as'" "as_id as' = as_id as"
    "\<forall>q. user_view stored s q \<noteq> None \<or> q \<noteq> page \<longrightarrow> user_view stored s' q = user_view stored s q"
    "counted (stats s) (stats s')"
proof -
  have es: "cur_entries s = pt_entries (as_pt as)" using as by (simp add: cur_entries_def)
  have wf: "pt_wf (pt_entries (as_pt as))" using inv es by (simp add: vm_inv_def)
  show thesis
  proof (cases "pt_search (as_pt as) page")
    case None
    then have new: "page \<notin> pte_vaddr ` set (cur_entries s)" using pt_search_None_iff [OF wf page(1)] es by simp
    have r: "fault_new_page ops page h s = Inr (pa, h', s')" using run None by (simp add: fault_page_def)
    have view: "user_view stored s page = None" using new by (rule user_view_None)
    show thesis
    proof (rule fault_new_page_ok [OF ok inv hi as page new r])
      fix f e as' st
      assume *: "pa = frame_addr f" "f < nRamFrames (cm s)" "vm_inv stored {} s'" "heap_inv (kowned s') h'"
        "user_view stored s' = (user_view stored s)(page \<mapsto> mem s f)"
        "e \<in> set (cur_entries s')" "\<not> swapped e" "pte_vaddr e = page" "ppage_index e = f"
        "tlb_translate (tlb s') page = None" "proc_getas s' = Some as'" "as_id as' = as_id as"
        "stats_kept (stats s) st" "stats s' = count_disk_elf st"
      have "counted (stats s) (stats s')" using *(13,14) by (auto simp: counted_def)
      then show thesis by (intro that [of f e as']) (use * view in simp_all)
    qed
  next
    case (Some k)
    then have k: "k < length (cur_entries s)" "pte_vaddr (cur_entries s ! k) = page"
      using pt_search_Some_iff [OF wf page(1)] es by auto
    show thesis
    proof (cases "swapped (cur_entries s ! k)")
      case True
      then have r: "fault_swapped_page ops page k s = Inr (pa, s')" "h' = h"
        using run Some es by (auto simp: fault_page_def)
      show thesis
      proof (rule fault_swapped_page_ok [OF ok inv as k(1) True k(2) r(1)])
        fix f e as' st
        assume *: "pa = frame_addr f" "f < nRamFrames (cm s)" "vm_inv stored {} s'" "kowned s' = kowned s"
          "user_view stored s' = user_view stored s"
          "e \<in> set (cur_entries s')" "\<not> swapped e" "pte_vaddr e = page" "ppage_index e = f"
          "tlb_translate (tlb s') page = None" "proc_getas s' = Some as'" "as_id as' = as_id as"
          "stats_kept (stats s) st" "stats s' = count_disk_swap st"
        have "counted (stats s) (stats s')" using *(13,14) by (auto simp: counted_def)
        then show thesis by (intro that [of f e as']) (use * hi r(2) in simp_all)
      qed
    next
      case False
      let ?e = "cur_entries s ! k"
      have r: "pa = frame_addr (ppage_index ?e)" "h' = h" "s' = s\<lparr>stats := count_reload (stats s)\<rparr>"
        using run Some False es by (auto simp: fault_page_def)
      have "frame_mapped (cm s) {} ?e" using inv k(1) False by (auto simp: vm_inv_def)
      moreover have "counted (stats s) (stats s')" unfolding r counted_def by (auto intro: exI [of _ "stats s"])
      ultimately show thesis
        by (intro that [of "ppage_index ?e" ?e as])
          (use k False r inv hi as miss nth_mem [OF k(1)] in \<open>simp_all add: frame_mapped_def\<close>)
    qed
  qed
qed

lemma vm_fault_run:
  assumes "proc_getas s = Some as" and "vm_fault ops ft fa h s = Inr (0, h', s')"
  obtains pa s1 where "ft = VM_FAULT_READ \<or> ft = VM_FAULT_WRITE" "fault_valid as fa"
    "fault_page ops as (fa AND PAGE_FRAME) h s = Inr (pa, h', s1)"
    "s' = tlb_load (fa AND PAGE_FRAME) pa s1"
  using assms by (auto simp: vm_fault_def Let_def split: if_splits option.splits)

lemma vm_fault_ok:
  assumes ok: "page_store_ok ops stored" and inv: "vm_inv stored {} s" and hi: "heap_inv (kowned s) h"
    and fa: "fa < MIPS_KSEG0" "page = fa AND PAGE_FRAME" and miss: "tlb_translate (tlb s) page = None"
    and run: "vm_fault ops ft fa h s = Inr (0, h', s')"
  obtains f as as' st where "vm_inv stored {} s'" "heap_inv (kowned s') h'" "f < nRamFrames (cm s)"
    "tlb_translate (tlb s') page = Some (frame_addr f)" "user_view stored s' page = Some (mem s' f)"
    "\<forall>q. user_view stored s q \<noteq> None \<or> q \<noteq> page \<longrightarrow> user_view stored s' q = user_view stored s q"
    "proc_getas s = Some as" "proc_getas s' = Some as'" "as_id as' = as_id as" "fault_valid as fa"
    "counted (stats s) st" "stats s' = st\<lparr>tlb_faults_w_free := tlb_faults_w_free st + 1\<rparr> \<or>
       stats s' = st\<lparr>tlb_faults_w_replace := tlb_faults_w_replace st + 1\<rparr>"
proof -
  obtain as where as: "proc_getas s = Some as"
    using run by (auto simp: vm_fault_def Let_def split: if_splits option.splits)
  obtain pa s1 where valid: "fault_valid as fa" and fp: "fault_page ops as page h s = Inr (pa, h', s1)"
    and s': "s' = tlb_load page pa s1" using vm_fault_run [OF as run] fa(2) by metis
  have page: "page_aligned page" "page < MIPS_KSEG0" using fa and_PAGE_FRAME_user by simp_all
  obtain f e as' where f: "pa = frame_addr f" "f < nRamFrames (cm s)" "vm_inv stored {} s1" "heap_inv (kowned s1) h'"
    "e \<in> set (cur_entries s1)" "\<not> swapped e" "pte_vaddr e = page" "ppage_index e = f"
    "tlb_translate (tlb s1) page = None" "proc_getas s1 = Some as'" "as_id as' = as_id as"
    "\<forall>q. user_view stored s q \<noteq> None \<or> q \<noteq> page \<longrightarrow> user_view stored s1 q = user_view stored s q"
    "counted (stats s) (stats s1)"
    by (rule fault_page_ok [OF ok inv hi as miss page fp]) blast
  have load: "vm_inv stored {} s'" "tlb_translate (tlb s') page = Some (frame_addr f)"
    using tlb_load_ok [OF f(3,9,5-8)] by (simp_all add: s' f(1))
  have "tlb_wf (tlb s1)" using f(3) by (simp add: vm_inv_def)
  then have st: "stats s' = (stats s1)\<lparr>tlb_faults_w_free := tlb_faults_w_free (stats s1) + 1\<rparr> \<or>
       stats s' = (stats s1)\<lparr>tlb_faults_w_replace := tlb_faults_w_replace (stats s1) + 1\<rparr>"
    unfolding s' by (rule tlb_load_eq [of s1 page pa]) auto
  have "user_view stored s' page = Some (mem s' f)"
    using view_entry [OF f(3,5,6)] f(7,8) by (simp add: s' tlb_load_frame)
  then show thesis
    by (intro that [of f as as' "stats s1"]) (use load f(2,4,10-13) as valid st in \<open>simp_all add: s' tlb_load_frame\<close>)
qed

section \<open>The handler returns\<close>

text \<open>The frames that are free.\<close>

definition free_frames_of :: "('v, 'p) vm \<Rightarrow> nat set" where
  "free_frames_of s = {i. firstFreeFrame (cm s) \<le> i \<and> i < nRamFrames (cm s) \<and> frame_free (coremap (cm s) ! i)}"

lemma finite_free_frames [simp]: "finite (free_frames_of s)"
  by (rule finite_subset [of _ "{..<nRamFrames (cm s)}"]) (auto simp: free_frames_of_def)

lemma free_frames_change_one:
  assumes "evolves s s'" and "\<forall>i. i \<noteq> f \<longrightarrow> coremap (cm s') ! i = coremap (cm s) ! i"
  shows "card (free_frames_of s) \<le> Suc (card (free_frames_of s'))"
proof -
  have "free_frames_of s - {f} \<subseteq> free_frames_of s'"
    using assms by (auto simp: free_frames_of_def evolves_def)
  then have "card (free_frames_of s - {f}) \<le> card (free_frames_of s')" by (intro card_mono) auto
  then show ?thesis using card_Diff1_le [of "free_frames_of s" f] by (cases "f \<in> free_frames_of s") auto
qed

definition can_sleep :: "('v, 'p) vm \<Rightarrow> bool" where
  "can_sleep s \<longleftrightarrow> dumbvm_can_sleep s = Inr ()"

lemma can_sleep_evolves: "evolves s s' \<Longrightarrow> can_sleep s' = can_sleep s"
  by (simp add: can_sleep_def dumbvm_can_sleep_def evolves_def)

lemma alloc_kpages_returns:
  assumes "vm_inv stored X s" and "can_sleep s" and "0 < card (free_frames_of s)"
  shows "\<exists>r. alloc_kpages ops (Suc 0) s = Inr r"
proof -
  obtain f where "f \<in> free_frames_of s" using assms(3) by (metis card.empty equals0I less_irrefl)
  then obtain pa s' where "getppages ops (Suc 0) s = Inr (pa, s')"
    using getppages_one_free [of s f ops] assms(1) by (auto simp: free_frames_of_def vm_inv_def)
  then show ?thesis using assms(2) by (simp add: alloc_kpages_def can_sleep_def)
qed

lemma kmalloc_comes_back:
  assumes inv: "vm_kinv ops stored X s0 s" and hi: "heap_inv (kowned s) h" and sz: "unat sz \<le> PAGE_SIZE"
    and sleep: "can_sleep s" and free: "2 \<le> card (free_frames_of s)"
  shows "\<exists>p h' s'. kmalloc (kp_vm ops) sz h s = Inr (p, h', s')"
proof (cases "kmalloc (kp_vm ops) sz h s")
  case (Inr r)
  then show ?thesis by (cases r) auto
next
  case (Inl e)
  have vi: "vm_inv stored X s" "page_store_ok ops stored" "pending_ok X s" using inv by (simp_all add: vm_kinv_def)
  obtain P s1 where al: "alloc_kpages ops (Suc 0) s = Inr (P, s1)"
    using alloc_kpages_returns [OF vi(1) sleep, of ops] free by auto
  have next_ok: "\<exists>r. alloc_kpages ops (Suc 0) s1 = Inr r"
  proof (rule alloc_kpages_one [OF vi(1) al vi(2,3)])
    fix f assume *: "vm_inv stored X s1" "evolves s s1" "\<forall>i. i \<noteq> f \<longrightarrow> coremap (cm s1) ! i = coremap (cm s) ! i"
    have "0 < card (free_frames_of s1)" using free_frames_change_one [OF *(2,3)] free by simp
    then show ?thesis using alloc_kpages_returns [OF *(1)] can_sleep_evolves [OF *(2)] sleep by blast
  qed
  show ?thesis using vmk.kmalloc_stops [OF inv hi sz Inl] al next_ok by (auto simp: kp_vm_def)
qed

lemma kmalloc_returns:
  assumes inv: "vm_kinv ops stored X s0 s" and hi: "heap_inv (kowned s) h" and sz: "unat sz \<le> PAGE_SIZE"
    and sleep: "can_sleep s" and free: "2 \<le> card (free_frames_of s)" and root: "first_root (kheaproots h) 0 \<noteq> None"
  shows "\<exists>p h' s'. kmalloc (kp_vm ops) sz h s = Inr (p, h', s') \<and> p \<noteq> 0"
proof -
  obtain p h' s' where r: "kmalloc (kp_vm ops) sz h s = Inr (p, h', s')" using kmalloc_comes_back [OF inv hi sz sleep free] by blast
  then show ?thesis using vmk.kmalloc_ok [OF inv hi sz r] root by auto
qed

text \<open>What a call that succeeds may take: at most two frames.\<close>

lemma kmalloc_frames:
  assumes inv: "vm_kinv ops stored X s0 s" and hi: "heap_inv (kowned s) h" and sz: "unat sz \<le> PAGE_SIZE"
    and run: "kmalloc (kp_vm ops) sz h s = Inr (p, h', s')" and p: "p \<noteq> 0"
  shows "can_sleep s' = can_sleep s \<and> card (free_frames_of s) \<le> card (free_frames_of s') + 2"
proof -
  have one: "vm_inv stored X s2 \<and> pending_ok X s2 \<and> can_sleep s2 = can_sleep s1 \<and> card (free_frames_of s1) \<le> Suc (card (free_frames_of s2))"
    if "vm_inv stored X s1" "pending_ok X s1" "alloc_kpages ops (Suc 0) s1 = Inr (va, s2)" for s1 s2 va
  proof -
    have ok: "page_store_ok ops stored" using inv by (simp add: vm_kinv_def)
    show ?thesis
    proof (rule alloc_kpages_one [OF that(1,3) ok that(2)])
      fix f assume *: "vm_inv stored X s2" "evolves s1 s2" "\<forall>i. i \<noteq> f \<longrightarrow> coremap (cm s2) ! i = coremap (cm s1) ! i"
        "pending_ok X s2"
      show ?thesis using * free_frames_change_one [OF *(2,3)] can_sleep_evolves [OF *(2)] by simp
    qed
  qed
  have vi: "vm_inv stored X s" "pending_ok X s" using inv by (simp_all add: vm_kinv_def)
  consider "s' = s" | va where "alloc_kpages ops (Suc 0) s = Inr (va, s')"
    | va s1 va' where "alloc_kpages ops (Suc 0) s = Inr (va, s1)" "alloc_kpages ops (Suc 0) s1 = Inr (va', s')"
    using kmalloc_steps [OF run p sz] by (auto simp: kp_vm_def)
  then show ?thesis
  proof cases
    case 2
    then show ?thesis using one [OF vi] by simp
  next
    case (3 va s1 va')
    have o: "vm_inv stored X s1 \<and> pending_ok X s1 \<and> can_sleep s1 = can_sleep s \<and> card (free_frames_of s) \<le> Suc (card (free_frames_of s1))"
      by (rule one [OF vi 3(1)])
    then have "can_sleep s' = can_sleep s1 \<and> card (free_frames_of s1) \<le> Suc (card (free_frames_of s'))"
      using one [OF _ _ 3(2)] by blast
    then show ?thesis using o by simp
  qed simp
qed

definition readable :: "('v, 'p) vnode_ops \<Rightarrow> bool" where
  "readable ops \<longleftrightarrow> (\<forall>v k old. fst (vop_read ops v (slot_pos k) old) = 0)"

lemma swap_in_returns:
  assumes "readable ops" and "k < SWAPSLOTS"
  shows "\<exists>s'. swap_in ops k pa s = Inr (0, s') \<and> cm s' = cm s"
proof -
  obtain p v where "vop_read ops (swapspace (sw s)) (slot_pos k) (mem s (addr_frame pa)) = (0, p, v)"
    using assms(1) unfolding readable_def by (metis prod.collapse)
  then show ?thesis using assms(2) by (auto simp: swap_in_def read_page_def set_slot_def)
qed

lemma getuserppage_from_free:
  assumes "vm_inv stored {} s" and "0 < card (free_frames_of s)"
  shows "\<exists>pa s'. getuserppage ops s = Inr (pa, s')"
proof -
  obtain f where "f \<in> free_frames_of s" using assms(2) by (metis card.empty equals0I less_irrefl)
  then show ?thesis using getuserppage_free [of s f ops] assms(1) by (auto simp: free_frames_of_def vm_inv_def)
qed

lemma fault_new_page_returns:
  assumes ok: "page_store_ok ops stored" and inv: "vm_inv stored {} s" and hi: "heap_inv (kowned s) h"
    and page: "page_aligned page" "page \<notin> pte_vaddr ` set (cur_entries s)"
    and res: "can_sleep s" "3 \<le> card (free_frames_of s)" "first_root (kheaproots h) 0 \<noteq> None"
  shows "\<exists>r. fault_new_page ops page h s = Inr r"
proof -
  obtain pa s1 where get: "getuserppage ops s = Inr (pa, s1)" using getuserppage_from_free [OF inv, of ops] res(2) by auto
  obtain f where f: "pa = frame_addr f" "firstFreeFrame (cm s) \<le> f" "f < nRamFrames (cm s)"
    "status (coremap (cm s) ! f) \<noteq> FIXED"
    "vm_inv stored {f} s1" "user_view stored s1 = user_view stored s" "evolves s s1" "mem s1 = mem s"
    "coremap (cm s1) = (coremap (cm s))[f := (coremap (cm s) ! f)
       \<lparr>status := DIRTY, ce_paddr := frame_addr f, ce_size := 1\<rparr>]"
    using getuserppage_ok [OF ok inv get] by blast
  have len: "f < length (coremap (cm s))" "f < 2 ^ 20" "0 < f" using inv f(2,3) by (auto simp: vm_inv_def cm_wf_def)
  have af: "addr_frame pa = f" "pa \<noteq> 0" using f(1) len by (simp_all add: frame_addr_eq_0_iff)
  define s1' where "s1' = cm_upd f (\<lambda>e. e\<lparr>ce_vaddr := page\<rparr>) s1"
  have inv1: "vm_inv stored {f} s1'" unfolding s1'_def by (rule vm_inv_set_vaddr [OF f(5)])
  have ev1: "evolves s s1'" unfolding s1'_def using f(7) evolves_cm_upd evolves_trans by blast
  have "pending_ok {f} s1'"
    using page evolves_pages [OF ev1] len f(9) by (simp add: pending_ok_def s1'_def)
  then have k1: "vm_kinv ops stored {f} s1' s1'" by (rule vm_kinv_refl [OF ok inv1])
  have own1: "kowned s1' = kowned s"
    unfolding s1'_def kowned_set_vaddr by (rule kowned_getuserppage [OF f(7,4) len(1) f(9)])
  have "\<forall>i. i \<noteq> f \<longrightarrow> coremap (cm s1') ! i = coremap (cm s) ! i" by (simp add: s1'_def f(9))
  then have "2 \<le> card (free_frames_of s1')" using free_frames_change_one [OF ev1, of f] res(2) by simp
  then obtain p h' s2 where km: "kmalloc (kp_vm ops) sizeof_ptentry h s1' = Inr (p, h', s2)" "p \<noteq> 0"
    using kmalloc_returns [OF k1, of h sizeof_ptentry] hi own1 res(1,3) can_sleep_evolves [OF ev1]
    by (auto simp: sizeof_ptentry_def)
  then have "vm_kinv ops stored {f} s1' s2"
    using vmk.kmalloc_ok [OF k1 _ _ km(1)] hi own1 by (simp add: sizeof_ptentry_def)
  then have "f < length (coremap (cm s2))" by (auto simp: vm_kinv_def vm_inv_def cm_wf_def)
  moreover have "f < length (coremap (cm s1))" using len f(9) by simp
  ultimately show ?thesis
    using get af km by (simp add: fault_new_page_def Let_def cm_at_def pt_add_def flip: s1'_def)
qed

lemma fault_swapped_page_returns:
  assumes ok: "page_store_ok ops stored" and inv: "vm_inv stored {} s"
    and k: "k < length (cur_entries s)" "swapped (cur_entries s ! k)"
    and res: "0 < card (free_frames_of s)" "readable ops"
  shows "\<exists>r. fault_swapped_page ops page k s = Inr r"
proof -
  obtain pa s1 where get: "getuserppage ops s = Inr (pa, s1)" using getuserppage_from_free [OF inv res(1)] by blast
  obtain f where f: "pa = frame_addr f" "f < nRamFrames (cm s)" "vm_inv stored {f} s1" "evolves s s1"
    by (rule getuserppage_ok [OF ok inv get])
  have len: "f < 2 ^ 20" using inv f(2) by (auto simp: vm_inv_def cm_wf_def)
  have e: "k < length (cur_entries s1)" "cur_entries s1 ! k = cur_entries s ! k"
    using f(4) k pages_kept_nth [of "cur_entries s" "cur_entries s1" k] by (simp_all add: evolves_def)
  have "slot_used stored (sw s1) (cur_entries s ! k)"
    using f(3) k(2) nth_mem [OF e(1)] e(2) by (simp add: vm_inv_def)
  then obtain s2 where sin: "swap_in ops (swap_index (cur_entries s ! k)) pa s1 = Inr (0, s2)" "cm s2 = cm s1"
    using swap_in_returns [OF res(2), of "swap_index (cur_entries s ! k)"] by (auto simp: slot_used_def)
  have "f < length (coremap (cm s1))" using f(3) by (auto simp: vm_inv_def cm_wf_def)
  then show ?thesis using get sin e(2) f(1) len by (simp add: fault_swapped_page_def Let_def cm_at_def)
qed

lemma vm_fault_returns:
  assumes ok: "page_store_ok ops stored" and inv: "vm_inv stored {} s" and hi: "heap_inv (kowned s) h"
    and as: "proc_getas s = Some as" "pt_ptr (as_pt as) \<noteq> 0" "start_region as \<noteq> []"
    and ft: "ft = VM_FAULT_READ \<or> ft = VM_FAULT_WRITE" and valid: "fault_valid as fa"
    and res: "can_sleep s" "3 \<le> card (free_frames_of s)" "first_root (kheaproots h) 0 \<noteq> None" "readable ops"
  shows "\<exists>h' s'. vm_fault ops ft fa h s = Inr (0, h', s')"
proof -
  let ?page = "fa AND PAGE_FRAME"
  have cur: "curproc s \<noteq> None" using as(1) by (auto simp: proc_getas_def split: option.splits)
  have es: "cur_entries s = pt_entries (as_pt as)" using as(1) by (simp add: cur_entries_def)
  have wf: "pt_wf (pt_entries (as_pt as))" using inv es by (simp add: vm_inv_def)
  have free: "0 < card (free_frames_of s)" using res(2) by simp
  have "\<exists>pa h1 s1. fault_page ops as ?page h s = Inr (pa, h1, s1) \<and> page_aligned pa"
  proof (cases "pt_search (as_pt as) ?page")
    case None
    then have new: "?page \<notin> pte_vaddr ` set (cur_entries s)" using pt_search_None_iff [OF wf] es by simp
    obtain pa h1 s1 where "fault_new_page ops ?page h s = Inr (pa, h1, s1)"
      using fault_new_page_returns [OF ok inv hi _ new res(1-3)] by auto
    moreover then have "page_aligned pa"
      using inv by (auto simp: fault_new_page_def Let_def elim!: getuserppage_ok [OF ok inv])
        (auto simp: vm_inv_def cm_wf_def)
    ultimately show ?thesis using None by (simp add: fault_page_def)
  next
    case (Some k)
    then have k: "k < length (cur_entries s)" using pt_search_Some_iff [OF wf] es by auto
    show ?thesis
    proof (cases "swapped (cur_entries s ! k)")
      case True
      then obtain pa s1 where "fault_swapped_page ops ?page k s = Inr (pa, s1)"
        using fault_swapped_page_returns [OF ok inv k True free res(4), of ?page] by auto
      moreover then have "page_aligned pa"
        using inv by (auto simp: fault_swapped_page_def Let_def elim!: getuserppage_ok [OF ok inv])
          (auto simp: vm_inv_def cm_wf_def)
      ultimately show ?thesis using Some True es by (simp add: fault_page_def)
    next
      case False
      then have "frame_mapped (cm s) {} (cur_entries s ! k)" using inv k by (auto simp: vm_inv_def)
      then have "ppage_index (cur_entries s ! k) < 2 ^ 20" using inv by (auto simp: frame_mapped_def vm_inv_def cm_wf_def)
      then show ?thesis using Some False es by (simp add: fault_page_def)
    qed
  qed
  then show ?thesis using cur as ft valid by (auto simp: vm_fault_def Let_def page_aligned_def)
qed

end
