(* ===== verification/UserMemory.thy ===== *)
theory UserMemory
  imports VmFault
begin

text \<open>
  What a user program sees of the virtual memory system. An access goes through the TLB; a
  miss traps into \<open>mips_trap\<close> of \<open>kern/arch/mips/locore/trap.c\<close>, which calls
  \<open>vm_fault\<close>, and the instruction is restarted. The specification is a flat memory from
  pages to contents; a page holds some contents when it is first touched and afterwards what
  the program stored in it.
\<close>

section \<open>Traps\<close>

abbreviation (input) EX_IRQ :: nat where "EX_IRQ \<equiv> 0"
abbreviation (input) EX_MOD :: nat where "EX_MOD \<equiv> 1"
abbreviation (input) EX_TLBL :: nat where "EX_TLBL \<equiv> 2"
abbreviation (input) EX_TLBS :: nat where "EX_TLBS \<equiv> 3"
abbreviation (input) EX_ADEL :: nat where "EX_ADEL \<equiv> 4"
abbreviation (input) EX_ADES :: nat where "EX_ADES \<equiv> 5"
abbreviation (input) EX_IBE :: nat where "EX_IBE \<equiv> 6"
abbreviation (input) EX_DBE :: nat where "EX_DBE \<equiv> 7"
abbreviation (input) EX_SYS :: nat where "EX_SYS \<equiv> 8"
abbreviation (input) NTRAPCODES :: nat where "NTRAPCODES \<equiv> 13"

definition kill_curthread :: "nat \<Rightarrow> 'a res" where
  "kill_curthread code =
     kbind (kassert (code < NTRAPCODES) ''code < NTRAPCODES'') (\<lambda>_.
     if code = EX_IRQ \<or> code = EX_IBE \<or> code = EX_DBE \<or> code = EX_SYS then Inl (Assert ''0'')
     else Inl (Panic ''I do not know how to handle this''))"

text \<open>
  The part of \<open>mips_trap\<close> that handles exceptions other than interrupts and system calls:
  the result is the address at which execution resumes, if it is not the trapped
  instruction.
\<close>

definition trap_fault ::
  "('v, 'p) vnode_ops \<Rightarrow> nat \<Rightarrow> bool \<Rightarrow> vaddr_t option \<Rightarrow> vaddr_t \<Rightarrow> kheap \<Rightarrow> ('v, 'p) vm \<Rightarrow>
   (vaddr_t option \<times> kheap \<times> ('v, 'p) vm) res" where
  "trap_fault ops code iskern badfaultfunc vaddr h s =
     kbind
       (if code = EX_MOD then vm_fault ops VM_FAULT_READONLY vaddr h s
        else if code = EX_TLBL then vm_fault ops VM_FAULT_READ vaddr h s
        else if code = EX_TLBS then vm_fault ops VM_FAULT_WRITE vaddr h s
        else if code = EX_IBE \<or> code = EX_DBE then Inl (Panic ''Bus error exception'')
        else Inr (1, h, s))
       (\<lambda>(err, h1, s1).
          if err = 0 then Inr (None, h1, s1)
          else if \<not> iskern then kill_curthread code
          else case badfaultfunc of
                 Some epc \<Rightarrow> Inr (Some epc, h1, s1)
               | None \<Rightarrow> Inl (Panic ''I can not handle this''))"

section \<open>Accesses\<close>

datatype 'p access = Load vaddr_t | Store vaddr_t "'p \<Rightarrow> 'p"

fun access_addr :: "'p access \<Rightarrow> vaddr_t" where
  "access_addr (Load va) = va"
| "access_addr (Store va g) = va"

fun access_effect :: "'p access \<Rightarrow> 'p \<Rightarrow> 'p" where
  "access_effect (Load va) p = p"
| "access_effect (Store va g) p = g p"

definition access_page :: "'p access \<Rightarrow> vaddr_t" where
  "access_page a = access_addr a AND PAGE_FRAME"

definition trap_code :: "'p access \<Rightarrow> nat" where
  "trap_code a = (case a of Load va \<Rightarrow> EX_TLBL | Store va g \<Rightarrow> EX_TLBS)"

text \<open>One access of the program: the translation, with a trap on a miss, and the effect on the
  frame. The result is the contents of the page before the access.\<close>

definition user_translate ::
  "('v, 'p) vnode_ops \<Rightarrow> 'p access \<Rightarrow> kheap \<Rightarrow> ('v, 'p) vm \<Rightarrow> (paddr_t \<times> kheap \<times> ('v, 'p) vm) res" where
  "user_translate ops a h s =
     (case tlb_translate (tlb s) (access_page a) of
        Some pa \<Rightarrow> Inr (pa, h, s)
      | None \<Rightarrow>
          kbind (trap_fault ops (trap_code a) False None (access_addr a) h s) (\<lambda>(_, h1, s1).
          case tlb_translate (tlb s1) (access_page a) of
            Some pa \<Rightarrow> Inr (pa, h1, s1)
          | None \<Rightarrow> Inl (Undefined ''the restarted instruction faults again'')))"

definition user_access ::
  "('v, 'p) vnode_ops \<Rightarrow> 'p access \<Rightarrow> kheap \<times> ('v, 'p) vm \<Rightarrow> ('p \<times> kheap \<times> ('v, 'p) vm) res" where
  "user_access ops a = (\<lambda>(h, s).
     kbind (user_translate ops a h s) (\<lambda>(pa, h1, s1).
     let f = addr_frame pa; p = mem s1 f in
     Inr (p, h1, s1\<lparr>mem := (mem s1)(f := access_effect a p)\<rparr>)))"

fun run_all :: "('a \<Rightarrow> 's \<Rightarrow> ('r \<times> 's) res) \<Rightarrow> 'a list \<Rightarrow> 's \<Rightarrow> ('r list \<times> 's) res" where
  "run_all step [] s = Inr ([], s)"
| "run_all step (a # as) s =
     kbind (step a s) (\<lambda>(r, s1). kbind (run_all step as s1) (\<lambda>(rs, s2). Inr (r # rs, s2)))"

section \<open>The flat memory\<close>

inductive mem_step :: "(vaddr_t \<rightharpoonup> 'p) \<Rightarrow> 'p access \<Rightarrow> 'p \<Rightarrow> (vaddr_t \<rightharpoonup> 'p) \<Rightarrow> bool" where
  old_page: "m (access_page a) = Some p \<Longrightarrow> mem_step m a p (m(access_page a \<mapsto> access_effect a p))"
| new_page: "m (access_page a) = None \<Longrightarrow> mem_step m a p (m(access_page a \<mapsto> access_effect a p))"

inductive mem_run :: "(vaddr_t \<rightharpoonup> 'p) \<Rightarrow> 'p access list \<Rightarrow> 'p list \<Rightarrow> (vaddr_t \<rightharpoonup> 'p) \<Rightarrow> bool" where
  nil: "mem_run m [] [] m"
| cons: "mem_step m a p m1 \<Longrightarrow> mem_run m1 as ps m2 \<Longrightarrow> mem_run m (a # as) (p # ps) m2"

inductive_cases mem_run_ConsE: "mem_run m (a # as) ps m'"
inductive_simps mem_run_Nil [simp]: "mem_run m [] ps m'"
inductive_simps mem_step_iff: "mem_step m a p m'"

lemma mem_run_keeps:
  assumes "mem_run m as ps m'" and "m page = Some p" and "\<forall>a \<in> set as. \<forall>va g. a = Store va g \<longrightarrow> access_page a \<noteq> page"
  shows "m' page = Some p"
  using assms
proof (induction arbitrary: rule: mem_run.induct)
  case (cons m a q m1 as ps m2)
  have "m1 page = Some p"
    using cons.hyps(1) cons.prems by (cases a) (auto simp: mem_step_iff access_page_def)
  then show ?case using cons by simp
qed simp

lemma mem_run_append:
  "mem_run m (as @ bs) rs m' \<Longrightarrow> \<exists>ps qs m1. rs = ps @ qs \<and> length ps = length as \<and> mem_run m as ps m1 \<and> mem_run m1 bs qs m'"
proof (induction as arbitrary: m rs)
  case Nil
  then show ?case by (intro exI [of _ "[]"] exI [of _ rs] exI [of _ m]) simp
next
  case (Cons a as)
  then obtain p rs1 m1 where step: "mem_step m a p m1" "mem_run m1 (as @ bs) rs1 m'" "rs = p # rs1"
    by (auto elim: mem_run_ConsE)
  then obtain ps qs m2 where "rs1 = ps @ qs" "length ps = length as" "mem_run m1 as ps m2" "mem_run m2 bs qs m'"
    using Cons.IH by blast
  then show ?case using step by (intro exI [of _ "p # ps"] exI [of _ qs] exI [of _ m2]) (auto intro: mem_run.cons)
qed

text \<open>
  A memory that refines the flat one step by step refines it over whole runs. \<open>good\<close> are the
  states the steps stay in, \<open>view\<close> is the flat memory a state stands for.
\<close>

locale flat_memory =
  fixes step :: "'p access \<Rightarrow> 's \<Rightarrow> ('p \<times> 's) res" and good :: "'s \<Rightarrow> bool"
    and view :: "'s \<Rightarrow> vaddr_t \<Rightarrow> 'p option" and allowed :: "'p access \<Rightarrow> bool"
  assumes simulates: "good s \<Longrightarrow> allowed a \<Longrightarrow> step a s = Inr (p, s') \<Longrightarrow>
      good s' \<and> mem_step (view s) a p (view s')"
begin

lemma run_refines:
  "good s \<Longrightarrow> list_all allowed as \<Longrightarrow> run_all step as s = Inr (ps, s') \<Longrightarrow>
   good s' \<and> mem_run (view s) as ps (view s')"
proof (induction as arbitrary: s ps)
  case Nil
  then show ?case by (auto intro: mem_run.nil)
next
  case (Cons a as)
  then obtain p s1 qs where step: "step a s = Inr (p, s1)" "run_all step as s1 = Inr (qs, s')" "ps = p # qs" by auto
  then have "good s1" "mem_step (view s) a p (view s1)" using simulates Cons.prems by auto
  then show ?case using Cons step by (auto intro: mem_run.cons)
qed

text \<open>What was stored in a page is what the next load from it sees.\<close>

lemma load_after_store:
  assumes good: "good s" and all: "list_all allowed (Store va g # as @ [Load va'])"
    and run: "run_all step (Store va g # as @ [Load va']) s = Inr (ps, s')"
    and same: "va AND PAGE_FRAME = va' AND PAGE_FRAME"
    and others: "\<forall>a \<in> set as. \<forall>w g. a = Store w g \<longrightarrow> access_page a \<noteq> va AND PAGE_FRAME"
  shows "last ps = g (hd ps)"
proof -
  have "mem_run (view s) (Store va g # as @ [Load va']) ps (view s')" using run_refines [OF good all run] by blast
  then obtain p m1 rs where step: "mem_step (view s) (Store va g) p m1" "mem_run m1 (as @ [Load va']) rs (view s')"
    and ps: "ps = p # rs" by (auto elim: mem_run_ConsE)
  obtain qs us m2 where split: "rs = qs @ us" "mem_run m1 as qs m2" "mem_run m2 [Load va'] us (view s')"
    using mem_run_append [OF step(2)] by blast
  have "m1 (va AND PAGE_FRAME) = Some (g p)" using step(1) by (auto simp: mem_step_iff access_page_def)
  then have m2: "m2 (va AND PAGE_FRAME) = Some (g p)" using mem_run_keeps [OF split(2)] others by blast
  obtain q where "us = [q]" "mem_step m2 (Load va') q (view s')" using split(3) by (auto elim: mem_run_ConsE)
  then show ?thesis using m2 same ps split(1) by (auto simp: mem_step_iff access_page_def)
qed

end

section \<open>The virtual memory system refines the flat memory\<close>

definition vm_good :: "('v, 'p) vnode_ops \<Rightarrow> ('v \<Rightarrow> nat \<Rightarrow> 'p option) \<Rightarrow> kheap \<times> ('v, 'p) vm \<Rightarrow> bool" where
  "vm_good ops stored = (\<lambda>(h, s). page_store_ok ops stored \<and> vm_inv stored {} s \<and> heap_inv (kowned s) h)"

definition vm_view :: "('v \<Rightarrow> nat \<Rightarrow> 'p option) \<Rightarrow> kheap \<times> ('v, 'p) vm \<Rightarrow> vaddr_t \<Rightarrow> 'p option" where
  "vm_view stored = (\<lambda>(h, s). user_view stored s)"

definition user_access_ok :: "'p access \<Rightarrow> bool" where
  "user_access_ok a \<longleftrightarrow> access_addr a < USERSPACETOP"

lemma vm_inv_mem [simp]: "vm_inv stored X (s\<lparr>mem := m\<rparr>) = vm_inv stored X s"
  by (simp add: vm_inv_def)

lemma kowned_mem [simp]: "kowned (s\<lparr>mem := m\<rparr>) = kowned s"
  by (simp add: kowned_def kpages_def)

lemma tlb_hit:
  assumes inv: "vm_inv stored {} s" and hit: "tlb_translate (tlb s) page = Some pa"
  obtains e where "e \<in> set (cur_entries s)" "\<not> swapped e" "pte_vaddr e = page" "addr_frame pa = ppage_index e"
proof -
  have wf: "tlb_wf (tlb s)" using inv by (simp add: vm_inv_def)
  obtain i where i: "i < NUM_TLB" "tlb_valid (tlb s) i" "fst (tlb_entry (tlb s) i) = page"
    "snd (tlb_entry (tlb s) i) AND TLBLO_PPAGE = pa" using hit tlb_translate_Some_iff [OF wf] by blast
  then obtain e where e: "e \<in> set (cur_entries s)" "\<not> swapped e" "pte_vaddr e = page"
    "snd (tlb_entry (tlb s) i) = tlb_lo (frame_addr (ppage_index e))"
    using inv by (auto simp: vm_inv_def tlb_maps_def)
  have "frame_mapped (cm s) {} e" using inv e by (auto simp: vm_inv_def)
  then have "ppage_index e < 2 ^ 20" using inv by (auto simp: vm_inv_def cm_wf_def frame_mapped_def)
  moreover from this have "pa = frame_addr (ppage_index e)" using i(4) e(4) by simp
  ultimately have "addr_frame pa = ppage_index e" by simp
  then show thesis using that e by blast
qed

lemma store_view:
  assumes inv: "vm_inv stored X s" and e: "e \<in> set (cur_entries s)" "\<not> swapped e"
  shows "user_view stored (s\<lparr>mem := (mem s)(ppage_index e := q)\<rparr>) = (user_view stored s)(pte_vaddr e \<mapsto> q)"
proof
  fix page
  let ?s = "s\<lparr>mem := (mem s)(ppage_index e := q)\<rparr>"
  show "user_view stored ?s page = ((user_view stored s)(pte_vaddr e \<mapsto> q)) page"
  proof (cases "page \<in> pte_vaddr ` set (cur_entries s)")
    case False
    then show ?thesis using user_view_None [of page s] user_view_None [of page ?s] e(1) by auto
  next
    case True
    then obtain e' where e': "e' \<in> set (cur_entries s)" "page = pte_vaddr e'" by auto
    obtain i k where ik: "i < length (cur_entries s)" "cur_entries s ! i = e" "k < length (cur_entries s)" "cur_entries s ! k = e'"
      using e(1) e'(1) by (auto simp: in_set_conv_nth)
    have wf: "pt_wf (cur_entries s)" using inv by (simp add: vm_inv_def)
    have v: "user_view stored ?s page = pte_content stored ?s e'" "user_view stored s page = pte_content stored s e'"
      using user_view_nth [of ?s k stored] user_view_nth [of s k stored] wf ik(3,4) e'(2) by simp_all
    show ?thesis
    proof (cases "i = k")
      case True
      then show ?thesis using v e' ik e(2) by (simp add: pte_content_def)
    next
      case False
      then have "pte_vaddr e' \<noteq> pte_vaddr e" using pt_wf_inj [OF wf ik(1,3)] ik by metis
      moreover have "swapped e' \<or> ppage_index e' \<noteq> ppage_index e"
        using vm_inv_frames_inj [OF inv ik(1,3)] ik e(2) False by auto
      ultimately show ?thesis using v e'(2) by (auto simp: pte_content_def)
    qed
  qed
qed

lemma user_translate_ok:
  assumes good: "vm_good ops stored (h, s)" and a: "user_access_ok a"
    and run: "user_translate ops a h s = Inr (pa, h1, s1)"
  obtains e where "vm_good ops stored (h1, s1)" "e \<in> set (cur_entries s1)" "\<not> swapped e" "pte_vaddr e = access_page a"
    "addr_frame pa = ppage_index e"
    "\<forall>q. user_view stored s q \<noteq> None \<or> q \<noteq> access_page a \<longrightarrow> user_view stored s1 q = user_view stored s q"
proof (cases "tlb_translate (tlb s) (access_page a)")
  case (Some pa')
  then have "pa' = pa" "h1 = h" "s1 = s" using run by (auto simp: user_translate_def)
  then show thesis using that tlb_hit [of stored s "access_page a" pa] Some good by (auto simp: vm_good_def)
next
  case None
  have ok: "page_store_ok ops stored" "vm_inv stored {} s" "heap_inv (kowned s) h" using good by (auto simp: vm_good_def)
  obtain ft where vf: "vm_fault ops ft (access_addr a) h s = Inr (0, h1, s1)"
    and hit: "tlb_translate (tlb s1) (access_page a) = Some pa"
    using run None by (cases a)
      (auto simp: user_translate_def trap_fault_def trap_code_def kill_curthread_def split: if_splits option.splits)
  have fa: "access_addr a < MIPS_KSEG0" "access_page a = access_addr a AND PAGE_FRAME"
    using a by (simp_all add: user_access_ok_def access_page_def)
  show thesis
  proof (rule vm_fault_ok [OF ok fa None vf])
    fix f assume *: "vm_inv stored {} s1" "heap_inv (kowned s1) h1"
      "\<forall>q. user_view stored s q \<noteq> None \<or> q \<noteq> access_page a \<longrightarrow> user_view stored s1 q = user_view stored s q"
    obtain e where "e \<in> set (cur_entries s1)" "\<not> swapped e" "pte_vaddr e = access_page a" "addr_frame pa = ppage_index e"
      using tlb_hit [OF *(1) hit] by blast
    then show thesis using that * ok(1) by (auto simp: vm_good_def)
  qed
qed

interpretation vmm: flat_memory "user_access ops" "vm_good ops stored" "vm_view stored" user_access_ok
  for ops :: "('v, 'p) vnode_ops" and stored
proof
  fix s s' :: "kheap \<times> ('v, 'p) vm" and a p
  assume good: "vm_good ops stored s" and a: "user_access_ok a" and run: "user_access ops a s = Inr (p, s')"
  obtain h t where s: "s = (h, t)" by (cases s)
  obtain pa h1 t1 where tr: "user_translate ops a h t = Inr (pa, h1, t1)" and p: "p = mem t1 (addr_frame pa)"
    and s': "s' = (h1, t1\<lparr>mem := (mem t1)(addr_frame pa := access_effect a p)\<rparr>)"
    using run by (auto simp: user_access_def s Let_def)
  obtain e where e: "vm_good ops stored (h1, t1)" "e \<in> set (cur_entries t1)" "\<not> swapped e" "pte_vaddr e = access_page a"
    "addr_frame pa = ppage_index e"
    "\<forall>q. user_view stored t q \<noteq> None \<or> q \<noteq> access_page a \<longrightarrow> user_view stored t1 q = user_view stored t q"
    using user_translate_ok [OF good [unfolded s] a tr] by blast
  have inv: "vm_inv stored {} t1" using e(1) by (simp add: vm_good_def)
  have p': "user_view stored t1 (access_page a) = Some p" using view_entry [OF inv e(2,3)] e(4,5) p by simp
  have view: "vm_view stored s' = (user_view stored t1)(access_page a \<mapsto> access_effect a p)"
    using store_view [OF inv e(2,3), of "access_effect a p"] e(4,5) by (simp add: vm_view_def s')
  also have "\<dots> = (user_view stored t)(access_page a \<mapsto> access_effect a p)" using e(6) by auto
  finally have view: "vm_view stored s' = (vm_view stored s)(access_page a \<mapsto> access_effect a p)"
    by (simp add: vm_view_def s)
  have "vm_view stored s (access_page a) = Some p \<or> vm_view stored s (access_page a) = None"
    using e(6) p' by (cases "user_view stored t (access_page a)") (auto simp: vm_view_def s)
  then have "mem_step (vm_view stored s) a p (vm_view stored s')"
    unfolding mem_step_iff view by auto
  moreover have "vm_good ops stored s'" using e(1) by (simp add: s' vm_good_def)
  ultimately show "vm_good ops stored s' \<and> mem_step (vm_view stored s) a p (vm_view stored s')" by simp
qed

end
