(* ===== verification/SmallMachine.thy ===== *)
theory SmallMachine
  imports UserMemory
begin

text \<open>
  A small concrete machine on which the theorems are instantiated: eight frames, the first two
  of them the kernel's, one process with a region of two pages that has touched none of them,
  an empty kernel heap, and a swap file that stores what is written to it. What a page holds is
  left open; on \<open>sm_vm\<close> it is a number.
\<close>

definition sm_ops :: "(nat \<rightharpoonup> 'p, 'p) vnode_ops" where
  "sm_ops = \<lparr>vop_write = (\<lambda>v pos p. (0, v(nat (pos div 4096) \<mapsto> p))),
             vop_read = (\<lambda>v pos old. (0, case v (nat (pos div 4096)) of Some p \<Rightarrow> p | None \<Rightarrow> old, v))\<rparr>"

definition sm_stored :: "(nat \<rightharpoonup> 'p) \<Rightarrow> nat \<Rightarrow> 'p option" where
  "sm_stored v = v"

definition sm_as :: addrspace where
  "sm_as = \<lparr>as_ptr = 0x80002000,
            start_region = [\<lparr>reg_ptr = 0x80002040, reg_start = 0x400000, reg_size = 0x2000, reg_npages = 2\<rparr>],
            as_pt = \<lparr>pt_ptr = 0x80002010, pt_nil = 0x80003000, pt_entries = [], pt_npages = 0\<rparr>\<rparr>"

definition sm_frame :: "status_t \<Rightarrow> coremap_entry" where
  "sm_frame st = \<lparr>status = st, ce_paddr = 0, ce_vaddr = 0, ce_size = 0\<rparr>"

definition sm_cm :: coremap_st where
  "sm_cm = \<lparr>coremap = replicate 2 (sm_frame FIXED) @ replicate 6 (sm_frame CLEAN), nRamFrames = 8,
            allocTableActive = True, firstFreeFrame = 2, next_victim = 0\<rparr>"

definition sm_machine :: "(nat \<Rightarrow> 'p) \<Rightarrow> (nat \<rightharpoonup> 'p, 'p) vm" where
  "sm_machine m = \<lparr>ram = \<lparr>firstpaddr = 0, lastpaddr = 0\<rparr>, cm = sm_cm,
            sw = \<lparr>swaptable = (\<lambda>_. True), swapspace = Map.empty\<rparr>,
            tlb = \<lparr>tlb_entry = (\<lambda>i. (TLBHI_INVALID i, TLBLO_INVALID)), tlb_next_victim = 0\<rparr>,
            stats = stats_init, mem = m, curproc = Some \<lparr>p_addrspace = Some sm_as\<rparr>,
            curcpu_exists = True, c_spinlocks = 0, t_in_interrupt = False\<rparr>"

abbreviation sm_vm :: "(nat \<rightharpoonup> nat, nat) vm" where
  "sm_vm \<equiv> sm_machine (\<lambda>f. f)"

definition sm_heap :: kheap where
  "sm_heap = \<lparr>kheaproots = replicate 16 \<lparr>kr_page = 0, pagerefs_inuse = replicate 8 0, numinuse = 0\<rparr>,
              refs = (\<lambda>_. \<lparr>pageaddr_and_blocktype = 0, freelist_offset = 0, nfree = 0\<rparr>),
              kwords = (\<lambda>_. 0), sizebases = replicate 8 [], allbase = []\<rparr>"

lemma slot_pos_div: "nat (slot_pos k div 4096) = k"
  by (simp add: slot_pos_def)

lemma smm_store: "page_store_ok sm_ops sm_stored"
  unfolding page_store_ok_def sm_ops_def sm_stored_def
  by (auto simp: slot_pos_div split: option.splits)

lemma smm_rw: "readable sm_ops" "writable sm_ops"
  by (simp_all add: readable_def writable_def sm_ops_def)

lemma sm_coremap: "i < 8 \<Longrightarrow> coremap sm_cm ! i = sm_frame (if i < 2 then FIXED else CLEAN)" "length (coremap sm_cm) = 8"
  by (auto simp: sm_cm_def nth_append)

lemma smm_tlb: "tlb_wf (tlb (sm_machine m))" "\<not> tlb_valid (tlb (sm_machine m)) i"
proof -
  show invalid: "\<not> tlb_valid (tlb (sm_machine m)) i" for i by (simp add: tlb_valid_def sm_machine_def TLBLO_INVALID_def)
  then show "tlb_wf (tlb (sm_machine m))"
    using TLBHI_INVALID_props by (simp add: tlb_wf_def sm_machine_def NUM_TLB_def)
qed

lemma smm_entries: "cur_entries (sm_machine m) = []" "proc_getas (sm_machine m) = Some sm_as"
  by (simp_all add: cur_entries_def proc_getas_def sm_machine_def sm_as_def)

lemma smm_inv: "vm_inv sm_stored {} (sm_machine m)"
proof (rule vm_invI)
  show "cm_wf (cm (sm_machine m))" by (simp add: cm_wf_def sm_machine_def sm_cm_def)
  show "tlb_maps (tlb (sm_machine m)) (cur_entries (sm_machine m))" using smm_tlb(2) [of m] by (simp add: tlb_maps_def)
  show "\<exists>e \<in> set (cur_entries (sm_machine m)). \<not> swapped e \<and> ppage_index e = i"
    if "i < nRamFrames (cm (sm_machine m))" "status (coremap (cm (sm_machine m)) ! i) = DIRTY" for i
    using that sm_coremap(1) [of i] by (auto simp: sm_machine_def sm_frame_def sm_cm_def split: if_splits)
qed (simp_all add: smm_tlb smm_entries)

lemma smm_kpages: "kpages (sm_machine m) = {}"
proof -
  have "status (coremap (cm (sm_machine m)) ! i) = CLEAN" if "2 \<le> i" "i < 8" for i
    using sm_coremap(1) [of i] that by (simp add: sm_machine_def sm_frame_def)
  then show ?thesis by (auto simp: kpages_def) (auto simp: sm_machine_def sm_cm_def)
qed

lemma sm_root: "root_used \<lparr>kr_page = 0, pagerefs_inuse = replicate 8 0, numinuse = 0\<rparr> = {}"
  by (auto simp: root_used_def inuse_consts)

lemma smm_heap_inv: "heap_inv (kowned (sm_machine m)) sm_heap"
  using sm_root
  by (simp add: heap_inv_def heap_wf_def sm_heap_def kowned_def smm_kpages roots_ok_def root_ok_def root_pages_def
      all_refs_def root_refs_def inuse_consts NSIZES_def inj_on_def)

lemma smm_good: "vm_good sm_ops sm_stored (sm_heap, sm_machine m)"
  by (simp add: vm_good_def smm_store smm_inv smm_heap_inv)

lemma sm_first_root: "first_root (kheaproots sm_heap) 0 \<noteq> None"
proof -
  have "root_slot \<lparr>kr_page = 0, pagerefs_inuse = replicate 8 0, numinuse = 0\<rparr> = Some 0"
    by (auto simp: root_slot_def inuse_consts find_upt_Some_iff)
  then show ?thesis by (simp add: sm_heap_def numeral_eq_Suc)
qed

lemma smm_free_frames: "free_frames_of (sm_machine m) = {2..<8}"
  using sm_coremap by (auto simp: free_frames_of_def sm_machine_def frame_free_def sm_frame_def) (simp_all add: sm_cm_def)

lemma smm_can_sleep: "can_sleep (sm_machine m)"
  by (simp add: can_sleep_def dumbvm_can_sleep_def sm_machine_def)

lemma sm_fault_valid: "fault_valid sm_as 0x400123"
  by (simp add: fault_valid_def region_covers_def sm_as_def)

lemma smm_miss: "tlb_translate (tlb (sm_machine m)) page = None"
  using smm_tlb(2) [of m] by (simp add: tlb_translate_None_iff)

text \<open>The same facts for pages that hold a number.\<close>

lemma sm_store: "page_store_ok (sm_ops :: (nat \<rightharpoonup> nat, nat) vnode_ops) sm_stored"
  by (rule smm_store)

lemma sm_rw: "readable (sm_ops :: (nat \<rightharpoonup> nat, nat) vnode_ops)" "writable (sm_ops :: (nat \<rightharpoonup> nat, nat) vnode_ops)"
  by (rule smm_rw)+

lemmas sm_tlb = smm_tlb [where m = "\<lambda>f. f :: nat"]
lemmas sm_entries = smm_entries [where m = "\<lambda>f. f :: nat"]
lemmas sm_inv = smm_inv [where m = "\<lambda>f. f :: nat"]
lemmas sm_kpages = smm_kpages [where m = "\<lambda>f. f :: nat"]
lemmas sm_heap_inv = smm_heap_inv [where m = "\<lambda>f. f :: nat"]
lemmas sm_good = smm_good [where m = "\<lambda>f. f :: nat"]
lemmas sm_free_frames = smm_free_frames [where m = "\<lambda>f. f :: nat"]
lemmas sm_can_sleep = smm_can_sleep [where m = "\<lambda>f. f :: nat"]
lemmas sm_miss = smm_miss [where m = "\<lambda>f. f :: nat"]

end
