(* ===== verification/VmProperties.thy ===== *)
theory VmProperties
  imports SmallMachine
begin

text \<open>
  What the virtual memory system and the kernel heap guarantee, stated over the model of
  \<open>kern/vm\<close> and of \<open>kern/arch/mips/vm\<close>, each with an instance on the small machine.
\<close>

section \<open>Runs on the small machine\<close>


lemma sm_resources: "can_sleep sm_vm" "3 \<le> card (free_frames_of sm_vm)" "2 \<le> card (free_frames_of sm_vm)"
  "first_root (kheaproots sm_heap) 0 \<noteq> None" "readable (sm_ops :: (nat \<rightharpoonup> nat, nat) vnode_ops)" "pt_ptr (as_pt sm_as) \<noteq> 0" "start_region sm_as \<noteq> []"
  using sm_can_sleep sm_first_root sm_rw(1) by (simp_all add: sm_free_frames sm_as_def)






section \<open>Demand paging\<close>










text \<open>
  C24: the faults \<open>vm_fault\<close> refuses. Without an address space it returns \<open>EFAULT\<close>; a write to a
  page the TLB has read-only panics; an unknown fault type gives \<open>EINVAL\<close>; an address outside
  every region and the stack gives \<open>EFAULT\<close>; in the cases that return, nothing has changed. An
  address space with no region stops the kernel.
\<close>

theorem vm_fault_refusals:
  "(proc_getas s = None \<longrightarrow> vm_fault ops ft fa h s = Inr (EFAULT, h, s)) \<and>
   (\<forall>as. proc_getas s = Some as \<longrightarrow>
      vm_fault ops VM_FAULT_READONLY fa h s = Inl (Panic ''dumbvm: got VM_FAULT_READONLY'') \<and>
      (ft \<notin> {VM_FAULT_READ, VM_FAULT_WRITE, VM_FAULT_READONLY} \<longrightarrow> vm_fault ops ft fa h s = Inr (EINVAL, h, s)) \<and>
      (ft \<in> {VM_FAULT_READ, VM_FAULT_WRITE} \<and> pt_ptr (as_pt as) \<noteq> 0 \<longrightarrow>
         (start_region as \<noteq> [] \<and> \<not> fault_valid as fa \<longrightarrow> vm_fault ops ft fa h s = Inr (EFAULT, h, s)) \<and>
         (start_region as = [] \<longrightarrow> vm_fault ops ft fa h s = Inl (Assert ''as-> start_region != NULL''))))"
  by (auto simp: vm_fault_def kassert_If proc_getas_def split: option.splits)

theorem vm_fault_refusals_witness:
  "vm_fault sm_ops VM_FAULT_READ 0x1000 sm_heap sm_vm = Inr (EFAULT, sm_heap, sm_vm) \<and>
   vm_fault sm_ops 7 0x1000 sm_heap sm_vm = Inr (EINVAL, sm_heap, sm_vm)"
proof -
  have "\<not> fault_valid sm_as 0x1000"
    by (simp add: fault_valid_def region_covers_def sm_as_def DUMBVM_STACKPAGES_def Let_def)
  then show ?thesis
    using vm_fault_refusals [of sm_vm sm_ops _ "0x1000" sm_heap] sm_entries(2) sm_resources(6,7) by simp
qed

section \<open>The kernel heap on the frames of the machine\<close>






end
