(* ===== verification/FrameProperties.thy ===== *)
theory FrameProperties
  imports SmallMachine
begin

text \<open>
  Properties of the frame table, of the swap file and of the counters, and the behaviours of the
  allocator that its callers have to avoid.
\<close>

section \<open>Frames and swap slots\<close>

text \<open>
  C25: the table \<open>coremap_init\<close> builds. On a machine with at most 512 megabytes the table covers
  all of memory, the frames that hold the kernel image, what was stolen at boot and the table
  itself are \<open>FIXED\<close>, every frame after them is free, and the allocator's invariant holds.
\<close>

theorem coremap_init_table:
  assumes "coremap_init junk r cs = Inr (r', cs')" and "unat (lastpaddr r) \<le> 2 ^ 29"
    and "0 < firstpaddr r" and "next_victim cs = 0"
  shows "boot_table r cs'"
  by (rule coremap_init_boot_table [OF assms])

abbreviation (input) sm_ram :: ram_st where
  "sm_ram \<equiv> \<lparr>firstpaddr = 0x2000, lastpaddr = 0x8000\<rparr>"

lemma sm_coremap_init:
  "\<exists>cs. coremap_init (\<lambda>_. 0) sm_ram sm_cm = Inr (\<lparr>firstpaddr = 0, lastpaddr = 0\<rparr>, cs) \<and> nRamFrames cs = 8 \<and>
     firstFreeFrame cs = 3 \<and> allocTableActive cs \<and>
     coremap cs = map (\<lambda>i. \<lparr>status = FIXED, ce_paddr = frame_addr i, ce_vaddr = 0, ce_size = 2\<rparr>) [0..<2] @
       map (\<lambda>i. \<lparr>status = FIXED, ce_paddr = frame_addr 2, ce_vaddr = 0, ce_size = 1\<rparr>) [2..<3] @
       map (\<lambda>i. \<lparr>status = CLEAN, ce_paddr = -1, ce_vaddr = 0, ce_size = 0\<rparr>) [3..<8]"
  by (simp add: coremap_init_def Let_def ram_getsize_def ram_getfirstfree_def page_round_up_def
      sizeof_coremap_entry_def frame_addr_def kassert_If PADDR_TO_KVADDR_def)

theorem coremap_init_table_witness:
  "\<exists>r cs. coremap_init (\<lambda>_. 0) sm_ram sm_cm = Inr (r, cs) \<and> boot_table sm_ram cs"
proof -
  obtain cs where run: "coremap_init (\<lambda>_. 0) sm_ram sm_cm = Inr (\<lparr>firstpaddr = 0, lastpaddr = 0\<rparr>, cs)"
    using sm_coremap_init by blast
  have "boot_table sm_ram cs" by (rule coremap_init_table [OF run]) (simp_all add: sm_cm_def)
  then show ?thesis using run by blast
qed

text \<open>
  C18: victims are taken round robin. For one frame, \<open>coremap_victim_selection\<close> returns the first
  frame that is not \<open>FIXED\<close> at or after \<open>next_victim\<close>, wrapping around once to the first frame
  after the kernel, sets \<open>next_victim\<close> to the one after it, and panics only when every frame is
  \<open>FIXED\<close>.
\<close>

theorem victim_selection_round_robin:
  assumes "cm_wf cs" and "firstFreeFrame cs < nRamFrames cs"
  shows "coremap_victim_selection 1 cs =
      (case round_robin_victim cs of
         Some v \<Rightarrow> Inr (int v, cs\<lparr>next_victim := Suc v\<rparr>)
       | None \<Rightarrow> Inl (Panic ''no more victims in the coremap'')) \<and>
    (round_robin_victim cs = None \<longleftrightarrow>
      (\<forall>i. firstFreeFrame cs \<le> i \<and> i < nRamFrames cs \<longrightarrow> status (coremap cs ! i) = FIXED))"
  using coremap_victim_selection_one [OF assms] round_robin_victim_None_iff [OF assms] by simp

theorem victim_selection_round_robin_witness:
  "coremap_victim_selection 1 sm_cm = Inr (2, sm_cm\<lparr>next_victim := 3\<rparr>)"
proof -
  have "cm_wf sm_cm" "firstFreeFrame sm_cm < nRamFrames sm_cm" by (simp_all add: cm_wf_def sm_cm_def)
  moreover have "round_robin_victim sm_cm = Some 2"
    by (simp add: round_robin_victim_def victim_start_def unfixed_def sm_cm_def sm_frame_def upt_rec nth_append)
  ultimately show ?thesis using victim_selection_round_robin by simp
qed

text \<open>
  C17: a page that goes to the swap file comes back. Reading a slot that \<open>swap_out\<close> has just
  written puts the contents the first frame had into the second, touches no other frame, and
  leaves the slots as free or as used as they were.
\<close>

theorem swap_roundtrip:
  assumes "page_store_ok ops stored" and "swap_out ops pa s = Inr (r, s1)" and "0 \<le> r"
    and "swap_in ops (nat r) pb s1 = Inr (0, s2)"
  shows "mem s2 = (mem s)(addr_frame pb := mem s (addr_frame pa)) \<and> swaptable (sw s2) = swaptable (sw s) \<and>
    cm s2 = cm s \<and> cur_entries s2 = cur_entries s"
proof (rule swap_out_ok [OF assms(1-3)])
  fix j v assume out: "r = int j" "swaptable (sw s) j"
    "stored v = (stored (swapspace (sw s)))(j \<mapsto> mem s (addr_frame pa))"
    "s1 = s\<lparr>sw := \<lparr>swaptable = (swaptable (sw s))(j := False), swapspace = v\<rparr>,
            stats := (stats s)\<lparr>swapfile_writes := swapfile_writes (stats s) + 1\<rparr>\<rparr>"
  have "stored (swapspace (sw s1)) (nat r) = Some (mem s (addr_frame pa))" using out by simp
  from swap_in_ok [OF assms(1,4) this] obtain v' where
    "s2 = s1\<lparr>sw := \<lparr>swaptable = (swaptable (sw s1))(nat r := True), swapspace = v'\<rparr>,
             mem := (mem s1)(addr_frame pb := mem s (addr_frame pa))\<rparr>" by blast
  then show ?thesis using out by (auto simp: fun_upd_idem)
qed

theorem swap_roundtrip_witness:
  "\<exists>r s1 s2. swap_out sm_ops 0x3000 sm_vm = Inr (r, s1) \<and> swap_in sm_ops (nat r) 0x5000 s1 = Inr (0, s2) \<and>
     mem s2 5 = 3 \<and> mem s2 3 = 3"
proof -
  have "swaptable (sw sm_vm) 0" "0 < SWAPSLOTS" by (simp_all add: sm_machine_def SWAPSLOTS_def)
  from swap_out_returns [OF sm_rw(2) this(2,1)] obtain r s1
    where out: "swap_out sm_ops 0x3000 sm_vm = Inr (int r, s1)" by blast
  have "r < SWAPSLOTS" by (rule swap_out_ok [OF sm_store out]) simp_all
  from swap_in_returns [OF sm_rw(1) this] obtain s2 where inn: "swap_in sm_ops r 0x5000 s1 = Inr (0, s2)" by blast
  have "mem s2 = (mem sm_vm)(addr_frame 0x5000 := mem sm_vm (addr_frame 0x3000))"
    using swap_roundtrip [OF sm_store out] inn by simp
  then show ?thesis using out inn by (intro exI [of _ "int r"]) (auto simp: sm_machine_def addr_frame_def)
qed

text \<open>
  C33: \<open>swap_out\<close> stops the kernel in one case only, when all the slots of the swap file are in
  use; a write the file refuses is the value -1.
\<close>

theorem swap_out_errors:
  "swap_out ops page s = Inl e \<longleftrightarrow>
     e = Panic ''no more space in the swap file'' \<and> {i \<in> {..<SWAPSLOTS}. swaptable (sw s) i} = {}"
  using swap_out_panics_iff [of ops page s e] by auto

section \<open>Taking a frame\<close>

text \<open>
  C7: \<open>getuserppage\<close> never takes a page away from the process. The frame it returns is one that
  is not the kernel's, no page of the process lies in it any more, and all pages of the process
  still have their contents, in memory or in the swap file; it changes no frame's contents. When a
  frame is free, or one can be evicted to a free slot of a file that can be written, it returns.
\<close>

theorem getuserppage_keeps_pages:
  assumes "page_store_ok ops stored" and "vm_inv stored {} s" and "can_take ops s"
  shows "\<exists>f s'. getuserppage ops s = Inr (frame_addr f, s') \<and> firstFreeFrame (cm s) \<le> f \<and> f < nRamFrames (cm s) \<and>
    status (coremap (cm s) ! f) \<noteq> FIXED \<and> vm_inv stored {f} s' \<and> user_view stored s' = user_view stored s \<and>
    (\<forall>e \<in> set (cur_entries s'). swapped e \<or> ppage_index e \<noteq> f) \<and> mem s' = mem s"
proof -
  obtain pa s' where get: "getuserppage ops s = Inr (pa, s')" using getuserppage_returns [OF assms(2,3)] by auto
  show ?thesis
  proof (rule getuserppage_ok [OF assms(1,2) get])
    fix f assume *: "pa = frame_addr f" "firstFreeFrame (cm s) \<le> f" "f < nRamFrames (cm s)"
      "status (coremap (cm s) ! f) \<noteq> FIXED" "vm_inv stored {f} s'" "user_view stored s' = user_view stored s" "mem s' = mem s"
    have "\<forall>e \<in> set (cur_entries s'). swapped e \<or> ppage_index e \<noteq> f"
      using vm_inv_unused_frame [OF *(5)] by blast
    then show ?thesis using * get by blast
  qed
qed

theorem getuserppage_keeps_pages_witness:
  "\<exists>f s. getuserppage sm_ops sm_vm = Inr (frame_addr f, s) \<and> 2 \<le> f \<and> vm_inv sm_stored {f} s"
proof -
  have "2 \<in> free_frames_of sm_vm" by (simp add: sm_free_frames)
  then have "can_take sm_ops sm_vm" by (auto simp: can_take_def free_frames_of_def)
  from getuserppage_keeps_pages [OF sm_store sm_inv this] show ?thesis by (auto simp: sm_machine_def sm_cm_def)
qed



section \<open>Counters\<close>




section \<open>Which addresses are valid\<close>

text \<open>
  C27: the addresses \<open>vm_fault\<close> accepts. They are those from the start of a region to its end and
  from the bottom of the stack to its top, both ends included: the first byte after a region and
  the first byte after the stack, which is a kernel address, are accepted as well.
\<close>

theorem fault_valid_range:
  assumes "\<forall>r \<in> set (start_region as). unat (reg_start r) + unat (reg_npages r) * PAGE_SIZE < 2 ^ 32"
  shows "fault_valid as fa \<longleftrightarrow>
    (\<exists>r \<in> set (start_region as). unat (reg_start r) \<le> unat fa \<and>
       unat fa \<le> unat (reg_start r) + unat (reg_npages r) * PAGE_SIZE) \<or>
    2 ^ 31 - DUMBVM_STACKPAGES * PAGE_SIZE \<le> unat fa \<and> unat fa \<le> 2 ^ 31"
proof -
  have region: "region_covers fa r \<longleftrightarrow> unat (reg_start r) \<le> unat fa \<and>
       unat fa \<le> unat (reg_start r) + unat (reg_npages r) * PAGE_SIZE" if "r \<in> set (start_region as)" for r
  proof -
    have small: "unat (reg_start r) + unat (reg_npages r) * 4096 < 2 ^ 32" using assms that by simp
    have "unat (reg_npages r * 4096) = unat (reg_npages r) * 4096"
      using small by (simp add: unat_word_ariths)
    then have "unat (reg_start r + reg_npages r * 4096) = unat (reg_start r) + unat (reg_npages r) * 4096"
      using small by (simp add: unat_word_ariths)
    then show ?thesis by (simp add: region_covers_def Let_def word_le_nat_alt)
  qed
  show ?thesis
    using region by (auto simp: fault_valid_def Let_def list_ex_iff DUMBVM_STACKPAGES_def word_le_nat_alt)
qed

theorem fault_valid_range_witness:
  "fault_valid sm_as 0x402000 \<and> fault_valid sm_as 0x80000000 \<and> \<not> fault_valid sm_as 0x402001"
proof -
  have "\<forall>r \<in> set (start_region sm_as). unat (reg_start r) + unat (reg_npages r) * PAGE_SIZE < 2 ^ 32"
    by (simp add: sm_as_def)
  from fault_valid_range [OF this] show ?thesis by (simp add: sm_as_def DUMBVM_STACKPAGES_def)
qed

section \<open>Requests for more than one frame\<close>

lemma free_run_Some:
  assumes "free_run c n npages i fp = (m, Some k)" and "fp < npages" and "fp \<le> i"
    and "\<forall>j. i - fp \<le> j \<and> j < i \<longrightarrow> frame_free (c ! j)"
  shows "m = npages \<and> i - fp \<le> k \<and> k + npages \<le> n \<and> (\<forall>j. k \<le> j \<and> j < k + npages \<longrightarrow> frame_free (c ! j))"
  using assms
proof (induction c n npages i fp rule: free_run.induct)
  case (1 c n npages i fp)
  show ?case
  proof (cases "i < n \<and> frame_free (c ! i)")
    case True
    have free: "\<forall>j. Suc i - Suc fp \<le> j \<and> j < Suc i \<longrightarrow> frame_free (c ! j)"
      using "1.prems"(3,4) True by (auto simp: less_Suc_eq)
    show ?thesis
    proof (cases "Suc fp = npages")
      case found: True
      then have res: "m = npages" "k = i - fp"
        using "1.prems"(1) True by (auto simp: free_run.simps [of c n npages i])
      show ?thesis using res found True free "1.prems"(3) by (intro conjI) auto
    next
      case False
      then have "free_run c n npages (Suc i) (Suc fp) = (m, Some k)"
        using "1.prems"(1) True by (simp add: free_run.simps [of c n npages i])
      then show ?thesis using "1.IH" [of "Suc fp"] True False free "1.prems"(2,3) by auto
    qed
  next
    case False
    have "i < n" using "1.prems"(1) by (cases "i < n") (simp_all add: free_run.simps [of c n npages i])
    then have rest: "free_run c n npages (Suc i) 0 = (m, Some k)" and busy: "\<not> frame_free (c ! i)"
      using "1.prems"(1,2) False by (simp_all add: free_run.simps [of c n npages i])
    have "m = npages \<and> Suc i - 0 \<le> k \<and> k + npages \<le> n \<and> (\<forall>j. k \<le> j \<and> j < k + npages \<longrightarrow> frame_free (c ! j))"
      by (rule "1.IH" [OF \<open>i < n\<close> _ _ rest]) (use busy "1.prems"(2) in auto)
    moreover from this have "i - fp \<le> k" by linarith
    ultimately show ?thesis by blast
  qed
qed

text \<open>
  C35: a request for several frames protects only the first. When \<open>getppages\<close> finds a run of free
  frames for a request of two or more, it returns the run, but marks only its first frame as
  \<open>FIXED\<close>: the others are still free in the table, and the next request may be given them too.
\<close>

theorem getppages_run_unprotected:
  assumes "cm_wf (cm s)" and "Suc 0 < npages"
    and "free_run (coremap (cm s)) (nRamFrames (cm s)) npages (firstFreeFrame (cm s)) 0 = (npages, Some k)"
  shows "\<exists>s'. getppages ops npages s = Inr (frame_addr k, s') \<and> status (coremap (cm s') ! k) = FIXED \<and>
    (\<forall>i. 0 < i \<and> i < npages \<longrightarrow> frame_free (coremap (cm s') ! (k + i)))"
proof -
  have run: "k + npages \<le> nRamFrames (cm s)" "\<forall>j. k \<le> j \<and> j < k + npages \<longrightarrow> frame_free (coremap (cm s) ! j)"
    using free_run_Some [OF assms(3) _ le0] assms(2) leD by auto
  moreover have "nRamFrames (cm s) = length (coremap (cm s))" using assms(1) by (simp add: cm_wf_def)
  moreover have "isTableActive s" using assms(1) by (simp add: cm_wf_def isTableActive_def)
  ultimately show ?thesis using assms(2,3) by (auto simp: getppages_def Let_def)
qed

theorem getppages_run_unprotected_witness:
  "\<exists>s. getppages sm_ops 2 sm_vm = Inr (frame_addr 2, s) \<and> frame_free (coremap (cm s) ! 3)"
proof -
  have "cm_wf (cm sm_vm)" using sm_inv by (simp add: vm_inv_def)
  moreover have "frame_free (coremap sm_cm ! 2)" "frame_free (coremap sm_cm ! 3)"
    using sm_coremap(1) by (simp_all add: frame_free_def sm_frame_def)
  then have "free_run (coremap sm_cm) 8 2 2 0 = (2, Some 2)"
    by (simp add: free_run.simps [of _ _ _ 2] free_run.simps [of _ _ _ 3] free_run.simps [of _ _ _ "Suc 2"])
  then have "free_run (coremap (cm sm_vm)) (nRamFrames (cm sm_vm)) 2 (firstFreeFrame (cm sm_vm)) 0 = (2, Some 2)"
    by (simp add: sm_machine_def) (simp add: sm_cm_def)
  ultimately have "\<exists>s'. getppages sm_ops 2 sm_vm = Inr (frame_addr 2, s') \<and> status (coremap (cm s') ! 2) = FIXED \<and>
      (\<forall>i. 0 < i \<and> i < 2 \<longrightarrow> frame_free (coremap (cm s') ! (2 + i)))"
    by (intro getppages_run_unprotected) simp_all
  then obtain s where s: "getppages sm_ops 2 sm_vm = Inr (frame_addr 2, s)"
    "\<forall>i. 0 < i \<and> i < 2 \<longrightarrow> frame_free (coremap (cm s) ! (2 + i))" by blast
  have "frame_free (coremap (cm s) ! 3)" using s(2) [rule_format, of "Suc 0"] by (simp add: numeral_eq_Suc)
  then show ?thesis using s(1) by blast
qed


lemma free_frames_ok:
  assumes "first + m \<le> length (coremap (cm s))"
  shows "\<exists>s'. free_frames first m s = Inr s' \<and> length (coremap (cm s')) = length (coremap (cm s)) \<and>
    (\<forall>i. first \<le> i \<and> i < first + m \<longrightarrow> status (coremap (cm s') ! i) = FREE) \<and>
    (\<forall>i. i < first \<or> first + m \<le> i \<longrightarrow> coremap (cm s') ! i = coremap (cm s) ! i)"
  using assms
proof (induction m arbitrary: first s)
  case (Suc m)
  let ?s = "cm_upd first (\<lambda>e. e\<lparr>status := FREE, ce_size := 0\<rparr>) s"
  have "Suc first + m \<le> length (coremap (cm ?s))" using Suc.prems by simp
  from Suc.IH [OF this] obtain s' where "free_frames (Suc first) m ?s = Inr s'" "length (coremap (cm s')) = length (coremap (cm s))"
    "\<forall>i. Suc first \<le> i \<and> i < Suc first + m \<longrightarrow> status (coremap (cm s') ! i) = FREE"
    "\<forall>i. i < Suc first \<or> Suc first + m \<le> i \<longrightarrow> coremap (cm s') ! i = coremap (cm ?s) ! i" by auto
  note s' = this
  have first: "status (coremap (cm s') ! first) = FREE" using s'(4) Suc.prems by simp
  have "status (coremap (cm s') ! i) = FREE" if "first \<le> i" "i < first + Suc m" for i
    using that first s'(3) by (cases "i = first") auto
  moreover have "coremap (cm s') ! i = coremap (cm s) ! i" if "i < first \<or> first + Suc m \<le> i" for i
    using that s'(4) by auto
  ultimately show ?case using s'(1,2) Suc.prems by auto
qed auto

text \<open>
  C37: freeing a page stolen at boot frees the frame table. \<open>coremap_init\<close> gives every frame of the
  kernel the size of the whole kernel, so \<open>free_kpages\<close> of the kernel's frame number \<open>k > 0\<close> marks
  as many frames as the kernel has, from \<open>k\<close> on, as \<open>FREE\<close>, and among them the first frame of the
  table itself.
\<close>

theorem free_kpages_boot_page:
  assumes "coremap_init junk r cs = Inr (r', cs')" and "unat (lastpaddr r) \<le> 2 ^ 29"
    and "kpgs = page_round_up (unat (firstpaddr r))" and "0 < k" and "k < kpgs"
    and "k + kpgs \<le> nRamFrames cs'" and "cm s = cs'"
  shows "\<exists>s'. free_kpages (kpage_addr k) s = Inr s' \<and> status (coremap (cm s) ! kpgs) = FIXED \<and>
    (\<forall>i. k \<le> i \<and> i < k + kpgs \<longrightarrow> status (coremap (cm s') ! i) = FREE)"
proof -
  let ?n = "unat (lastpaddr r) div 4096" and ?cp = "page_round_up (unat (lastpaddr r) div 4096 * sizeof_coremap_entry)"
  have n: "?n \<le> 2 ^ 17" using div_le_mono [OF assms(2), of 4096] by simp
  have fit: "kpgs + ?cp \<le> ?n"
    using assms(1,3) by (auto simp: coremap_init_def Let_def ram_getsize_def ram_getfirstfree_def split: if_splits)
  then have "frame_addr kpgs \<noteq> 0" using assms(4,5) n frame_addr_eq_0_iff [of kpgs] by simp
  then have cm: "coremap cs' = map (\<lambda>i. \<lparr>status = FIXED, ce_paddr = frame_addr i, ce_vaddr = junk i, ce_size = kpgs\<rparr>) [0..<kpgs] @
      map (\<lambda>i. \<lparr>status = FIXED, ce_paddr = frame_addr kpgs, ce_vaddr = junk i, ce_size = ?cp\<rparr>) [kpgs..<kpgs + ?cp] @
      map (\<lambda>i. \<lparr>status = CLEAN, ce_paddr = -1, ce_vaddr = junk i, ce_size = 0\<rparr>) [kpgs + ?cp..<?n]"
    and active: "allocTableActive cs'" and frames: "nRamFrames cs' = ?n"
    unfolding assms(3) using assms(1) fit [unfolded assms(3)]
    by (auto simp: coremap_init_def Let_def ram_getsize_def ram_getfirstfree_def kassert_If split: if_splits)
  have len: "length (coremap (cm s)) = ?n" using fit by (simp add: assms(7) cm)
  have k: "ce_size (coremap (cm s) ! k) = kpgs" using assms(5) by (simp add: assms(7) cm nth_append)
  have "0 < ?cp" using fit assms(4,5) page_round_up_eq_0_iff [of "?n * sizeof_coremap_entry"] by (simp add: sizeof_coremap_entry_def)
  then have fixed: "status (coremap (cm s) ! kpgs) = FIXED" by (simp add: assms(7) cm nth_append)
  have "addr_frame (frame_addr k) = k" "unat (frame_addr k) mod 4096 = 0" using assms(5) fit n by (simp_all add: unat_frame_addr)
  then have "free_kpages (kpage_addr k) s = free_frames k kpgs s"
    using active k len assms(4,5) fit by (auto simp: free_kpages_def kpage_addr_def Let_def kassert_If isTableActive_def assms(7) frames)
  then show ?thesis using free_frames_ok [of k kpgs s] assms(6) frames len fixed by auto
qed

theorem free_kpages_boot_page_witness:
  "\<exists>cs s'. coremap_init (\<lambda>_. 0) sm_ram sm_cm = Inr (\<lparr>firstpaddr = 0, lastpaddr = 0\<rparr>, cs) \<and>
     free_kpages (kpage_addr 1) (sm_vm\<lparr>cm := cs\<rparr>) = Inr s' \<and> status (coremap (cm s') ! 2) = FREE"
proof -
  obtain cs where cs: "coremap_init (\<lambda>_. 0) sm_ram sm_cm = Inr (\<lparr>firstpaddr = 0, lastpaddr = 0\<rparr>, cs)" "nRamFrames cs = 8"
    using sm_coremap_init by blast
  have "\<exists>s'. free_kpages (kpage_addr 1) (sm_vm\<lparr>cm := cs\<rparr>) = Inr s' \<and> status (coremap (cm (sm_vm\<lparr>cm := cs\<rparr>)) ! 2) = FIXED \<and>
      (\<forall>i. 1 \<le> i \<and> i < 1 + 2 \<longrightarrow> status (coremap (cm s') ! i) = FREE)"
    by (rule free_kpages_boot_page [where r = sm_ram and junk = "\<lambda>_. 0" and cs = sm_cm and cs' = cs and r' = "\<lparr>firstpaddr = 0, lastpaddr = 0\<rparr>"])
      (use cs in \<open>simp_all add: page_round_up_def\<close>)
  then show ?thesis using cs(1) by auto
qed

end
