(* ===== verification/Bitmaps.thy ===== *)
theory Bitmaps
  imports KernelHeap
begin

text \<open>
  The bitmaps of \<open>kern/lib/bitmap.c\<close>: an array of bytes of which bit \<open>i mod 8\<close> of byte
  \<open>i div 8\<close> says whether \<open>i\<close> is in use. They are shown to behave as a set of indexes in
  which an allocation takes the least one that is free.
\<close>

section \<open>The code\<close>

definition DIVROUNDUP :: "u32 \<Rightarrow> u32 \<Rightarrow> u32" where
  "DIVROUNDUP a b = (a + b - 1) div b"

abbreviation (input) BITS_PER_WORD :: nat where "BITS_PER_WORD \<equiv> 8"
abbreviation (input) WORD_ALLBITS :: u8 where "WORD_ALLBITS \<equiv> 0xff"

text \<open>The structure, with the addresses of the structure and of its array.\<close>

record bitmap =
  b_ptr :: vaddr_t
  b_vptr :: vaddr_t
  nbits :: u32
  b_v :: "u8 list"

definition sizeof_bitmap :: size_t where
  "sizeof_bitmap = 8"

text \<open>\<open>b->v[ix] |= ((WORD_TYPE)1 << j)\<close> and its converse.\<close>

definition set_bits :: "u8 list \<Rightarrow> nat \<Rightarrow> u8 \<Rightarrow> u8 list" where
  "set_bits v ix m = v[ix := v ! ix OR m]"

definition clear_bits :: "u8 list \<Rightarrow> nat \<Rightarrow> u8 \<Rightarrow> u8 list" where
  "clear_bits v ix m = v[ix := v ! ix AND NOT m]"

text \<open>The bits left over at the end are marked as used.\<close>

definition mark_leftover :: "u32 \<Rightarrow> u32 \<Rightarrow> u8 list \<Rightarrow> u8 list res" where
  "mark_leftover words n v =
     (if words > n div 8 then
        let ix = words - 1; overbits = n - ix * 8 in
        kbind (kassert (n div 8 = words - 1) ''nbits / BITS_PER_WORD == words-1'') (\<lambda>_.
        kbind (kassert (overbits > 0 \<and> overbits < 8) ''overbits > 0 && overbits < BITS_PER_WORD'') (\<lambda>_.
        Inr (fold (\<lambda>j w. set_bits w (unat ix) (push_bit j 1)) [unat overbits..<BITS_PER_WORD] v)))
      else Inr v)"

definition bitmap_create :: "'s kpage_ops \<Rightarrow> u32 \<Rightarrow> kheap \<Rightarrow> 's \<Rightarrow> (bitmap option \<times> kheap \<times> 's) res" where
  "bitmap_create kp n h s =
     (let words = DIVROUNDUP n 8 in
      kbind (kmalloc kp sizeof_bitmap h s) (\<lambda>(b, h1, s1).
      if b = 0 then Inr (None, h1, s1)
      else
        kbind (kmalloc kp words h1 s1) (\<lambda>(v, h2, s2).
        if v = 0 then kbind (kfree kp b h2 s2) (\<lambda>(h3, s3). Inr (None, h3, s3))
        else
          kbind (mark_leftover words n (replicate (unat words) 0)) (\<lambda>bits.
          Inr (Some \<lparr>b_ptr = b, b_vptr = v, nbits = n, b_v = bits\<rparr>, h2, s2)))))"

definition bitmap_getdata :: "bitmap \<Rightarrow> u8 list" where
  "bitmap_getdata b = b_v b"

definition bitmap_alloc :: "bitmap \<Rightarrow> (int \<times> u32 option \<times> bitmap) res" where
  "bitmap_alloc b =
     (case List.find (\<lambda>ix. b_v b ! ix \<noteq> WORD_ALLBITS) [0..<unat (DIVROUNDUP (nbits b) 8)] of
        None \<Rightarrow> Inr (ENOSPC, None, b)
      | Some ix \<Rightarrow>
          (case List.find (\<lambda>offset. b_v b ! ix AND push_bit offset 1 = 0) [0..<BITS_PER_WORD] of
             None \<Rightarrow> Inl (Assert ''0'')
           | Some offset \<Rightarrow>
               let index = of_nat (ix * BITS_PER_WORD + offset) in
               kbind (kassert (index < nbits b) ''*index < b->nbits'') (\<lambda>_.
               Inr (0, Some index, b\<lparr>b_v := set_bits (b_v b) ix (push_bit offset 1)\<rparr>))))"

definition bitmap_translate :: "u32 \<Rightarrow> nat \<times> u8" where
  "bitmap_translate bitno = (unat (bitno div 8), push_bit (unat (bitno mod 8)) 1)"

definition bitmap_mark :: "bitmap \<Rightarrow> u32 \<Rightarrow> bitmap res" where
  "bitmap_mark b index =
     kbind (kassert (index < nbits b) ''index < b->nbits'') (\<lambda>_.
     case bitmap_translate index of (ix, m) \<Rightarrow>
     kbind (kassert (b_v b ! ix AND m = 0) ''(b->v[ix] & mask)==0'') (\<lambda>_.
     Inr (b\<lparr>b_v := set_bits (b_v b) ix m\<rparr>)))"

definition bitmap_unmark :: "bitmap \<Rightarrow> u32 \<Rightarrow> bitmap res" where
  "bitmap_unmark b index =
     kbind (kassert (index < nbits b) ''index < b->nbits'') (\<lambda>_.
     case bitmap_translate index of (ix, m) \<Rightarrow>
     kbind (kassert (b_v b ! ix AND m \<noteq> 0) ''(b->v[ix] & mask)!=0'') (\<lambda>_.
     Inr (b\<lparr>b_v := clear_bits (b_v b) ix m\<rparr>)))"

definition bitmap_isset :: "bitmap \<Rightarrow> u32 \<Rightarrow> int res" where
  "bitmap_isset b index =
     (case bitmap_translate index of (ix, m) \<Rightarrow>
        if ix < length (b_v b) then Inr (uint (b_v b ! ix AND m)) else Inl (Undefined ''b->v[ix]''))"

definition bitmap_destroy :: "'s kpage_ops \<Rightarrow> bitmap \<Rightarrow> kheap \<Rightarrow> 's \<Rightarrow> (kheap \<times> 's) res" where
  "bitmap_destroy kp b h s = kbind (kfree kp (b_vptr b) h s) (\<lambda>(h1, s1). kfree kp (b_ptr b) h1 s1)"

section \<open>Bits of bytes\<close>

lemma byte_not_full_iff: "(w :: u8) \<noteq> WORD_ALLBITS \<longleftrightarrow> (\<exists>k < 8. \<not> bit w k)"
proof -
  have "(0xff :: u8) = mask 8" by (simp add: mask_eq_exp_minus_1)
  then have "w = WORD_ALLBITS \<longleftrightarrow> (\<forall>k < 8. bit w k)" by (simp add: bit_eq_iff bit_mask_iff)
  then show ?thesis by blast
qed

lemma byte_and_bit: "k < 8 \<Longrightarrow> (w :: u8) AND push_bit k 1 = 0 \<longleftrightarrow> \<not> bit w k"
  by (simp add: and_exp_eq_0_iff_not_bit)

lemma bit_or_bit: "k < 8 \<Longrightarrow> bit ((w :: u8) OR push_bit k 1) j \<longleftrightarrow> bit w j \<or> j = k"
  by (auto simp: bit_simps)

lemma bit_and_not_bit: "k < 8 \<Longrightarrow> bit ((w :: u8) AND NOT (push_bit k 1)) j \<longleftrightarrow> bit w j \<and> j \<noteq> k"
  by (auto simp: bit_simps dest: bit_imp_le_length)

section \<open>Bitmaps as sets\<close>

definition in_use :: "u8 list \<Rightarrow> nat \<Rightarrow> bool" where
  "in_use v i \<longleftrightarrow> bit (v ! (i div 8)) (i mod 8)"

definition marked :: "bitmap \<Rightarrow> nat set" where
  "marked b = {i. i < unat (nbits b) \<and> in_use (b_v b) i}"

definition bitmap_wf :: "bitmap \<Rightarrow> bool" where
  "bitmap_wf b \<longleftrightarrow> unat (nbits b) + 7 < 2 ^ 32 \<and> length (b_v b) = (unat (nbits b) + 7) div 8 \<and>
     (\<forall>i. unat (nbits b) \<le> i \<and> i < 8 * length (b_v b) \<longrightarrow> in_use (b_v b) i)"

lemma length_bits [simp]: "length (set_bits v ix m) = length v" "length (clear_bits v ix m) = length v"
  by (simp_all add: set_bits_def clear_bits_def)

lemma in_use_set:
  assumes "ix < length v" and "k < 8"
  shows "in_use (set_bits v ix (push_bit k 1)) i \<longleftrightarrow> in_use v i \<or> i = 8 * ix + k"
proof (cases "i div 8 = ix")
  case True
  then have "i = 8 * ix + i mod 8" by (metis mult_div_mod_eq)
  then have "i = 8 * ix + k \<longleftrightarrow> i mod 8 = k" by (metis add_left_cancel)
  then show ?thesis using True assms bit_or_bit [OF assms(2)] by (simp add: in_use_def set_bits_def)
next
  case False
  then have "i \<noteq> 8 * ix + k" using assms(2) by auto
  then show ?thesis using False by (simp add: in_use_def set_bits_def)
qed

lemma in_use_clear:
  assumes "ix < length v" and "k < 8"
  shows "in_use (clear_bits v ix (push_bit k 1)) i \<longleftrightarrow> in_use v i \<and> i \<noteq> 8 * ix + k"
proof (cases "i div 8 = ix")
  case True
  then have "i = 8 * ix + i mod 8" by (metis mult_div_mod_eq)
  then have "i = 8 * ix + k \<longleftrightarrow> i mod 8 = k" by (metis add_left_cancel)
  then show ?thesis using True assms bit_and_not_bit [OF assms(2)] by (simp add: in_use_def clear_bits_def)
next
  case False
  then have "i \<noteq> 8 * ix + k" using assms(2) by auto
  then show ?thesis using False by (simp add: in_use_def clear_bits_def)
qed

lemma in_use_split: "k < 8 \<Longrightarrow> in_use v (8 * ix + k) \<longleftrightarrow> bit (v ! ix) k"
  by (simp add: in_use_def)

lemma unat_DIVROUNDUP:
  assumes "unat n + 7 < 2 ^ 32"
  shows "unat (DIVROUNDUP n 8) = (unat n + 7) div 8"
proof -
  have "unat (7 + n) = unat n + 7" using assms by (simp add: unat_word_ariths)
  then show ?thesis by (simp add: DIVROUNDUP_def unat_div)
qed

lemma bitmap_wf_index:
  assumes "bitmap_wf b" and "i < unat (nbits b)"
  shows "i div 8 < length (b_v b)"
  using assms div_le_mono [of "i + 8" "unat (nbits b) + 7" 8] by (simp add: bitmap_wf_def)

text \<open>The two loops find the least index that is not in use.\<close>

lemma first_byte_not_full:
  assumes "List.find (\<lambda>ix. v ! ix \<noteq> WORD_ALLBITS) [0..<n] = Some ix"
    and "List.find (\<lambda>k. v ! ix AND push_bit k 1 = 0) [0..<BITS_PER_WORD] = Some k"
  shows "ix < n" "k < 8" "\<not> in_use v (8 * ix + k)" "\<And>i. i < 8 * ix + k \<Longrightarrow> in_use v i"
proof -
  have ix: "ix < n" "\<And>j. j < ix \<Longrightarrow> v ! j = WORD_ALLBITS" using assms(1) by (auto simp: find_upt_Some_iff)
  have k: "k < 8" "\<not> bit (v ! ix) k" "\<And>j. j < k \<Longrightarrow> bit (v ! ix) j"
    using assms(2) by (auto simp: find_upt_Some_iff byte_and_bit simp del: push_bit_of_1)
  show "ix < n" "k < 8" by (fact ix(1) k(1))+
  show "\<not> in_use v (8 * ix + k)" using k by (simp add: in_use_split)
  show "in_use v i" if "i < 8 * ix + k" for i
  proof (cases "i div 8 < ix")
    case True
    then have "v ! (i div 8) = WORD_ALLBITS" by (rule ix(2))
    then show ?thesis using byte_not_full_iff [of "v ! (i div 8)"] by (simp add: in_use_def)
  next
    case False
    have "i div 8 \<le> ix" using that k(1) div_le_mono [of i "8 * ix + k" 8] by simp
    then have ix: "i div 8 = ix" using False by simp
    have "i = 8 * (i div 8) + i mod 8" by simp
    then have "i mod 8 < k" using that unfolding ix by linarith
    then show ?thesis using k(3) ix by (simp add: in_use_def)
  qed
qed

lemma all_bytes_full:
  assumes "List.find (\<lambda>ix. v ! ix \<noteq> WORD_ALLBITS) [0..<n] = None" and "i < 8 * n"
  shows "in_use v i"
proof -
  have "i div 8 < n" using assms(2) by (simp add: div_less_iff_less_mult)
  then have "v ! (i div 8) = WORD_ALLBITS" using assms(1) by (auto simp: find_upt_None_iff)
  then show ?thesis using byte_not_full_iff [of "v ! (i div 8)"] by (simp add: in_use_def)
qed

lemma bitmap_alloc_cases:
  assumes wf: "bitmap_wf b"
  shows "marked b = {..<unat (nbits b)} \<Longrightarrow> bitmap_alloc b = Inr (ENOSPC, None, b)"
    and "marked b \<noteq> {..<unat (nbits b)} \<Longrightarrow>
      \<exists>i b'. bitmap_alloc b = Inr (0, Some (of_nat i), b') \<and> i < unat (nbits b) \<and> i \<notin> marked b \<and>
        (\<forall>j < i. j \<in> marked b) \<and> bitmap_wf b' \<and> marked b' = insert i (marked b) \<and> nbits b' = nbits b"
proof -
  let ?n = "(unat (nbits b) + 7) div 8"
  have n: "unat (DIVROUNDUP (nbits b) 8) = ?n" "length (b_v b) = ?n" using wf by (simp_all add: bitmap_wf_def unat_DIVROUNDUP)
  have tail: "in_use (b_v b) i" if "unat (nbits b) \<le> i" "i < 8 * ?n" for i using wf that n(2) by (simp add: bitmap_wf_def)
  have big: "unat (nbits b) \<le> 8 * ?n" by simp
  consider "List.find (\<lambda>ix. b_v b ! ix \<noteq> WORD_ALLBITS) [0..<?n] = None"
    | ix where "List.find (\<lambda>ix. b_v b ! ix \<noteq> WORD_ALLBITS) [0..<?n] = Some ix" by fastforce
  then have "bitmap_alloc b = Inr (ENOSPC, None, b) \<and> marked b = {..<unat (nbits b)} \<or>
      (\<exists>i b'. bitmap_alloc b = Inr (0, Some (of_nat i), b') \<and> i < unat (nbits b) \<and> i \<notin> marked b \<and>
        (\<forall>j < i. j \<in> marked b) \<and> bitmap_wf b' \<and> marked b' = insert i (marked b) \<and> nbits b' = nbits b)"
  proof cases
    case 1
    then show ?thesis using all_bytes_full [OF 1] big by (auto simp: bitmap_alloc_def n marked_def)
  next
    case (2 ix)
    then have "b_v b ! ix \<noteq> WORD_ALLBITS" by (simp add: find_upt_Some_iff)
    then obtain j where "j < 8" "\<not> bit (b_v b ! ix) j" using byte_not_full_iff by blast
    then have "List.find (\<lambda>k. b_v b ! ix AND push_bit k 1 = 0) [0..<BITS_PER_WORD] \<noteq> None"
      by (auto simp: find_upt_None_iff byte_and_bit simp del: push_bit_of_1)
    then obtain k where k: "List.find (\<lambda>k. b_v b ! ix AND push_bit k 1 = 0) [0..<BITS_PER_WORD] = Some k" by blast
    note f = first_byte_not_full [OF 2 k]
    let ?i = "8 * ix + k"
    have i: "?i < unat (nbits b)" using f(1,2,3) tail [of ?i] by (cases "unat (nbits b) \<le> ?i") auto
    have u: "unat (of_nat ?i :: u32) = ?i" using i wf by (simp add: unat_of_nat bitmap_wf_def del: of_nat_add of_nat_mult)
    let ?b = "b\<lparr>b_v := set_bits (b_v b) ix (push_bit k 1)\<rparr>"
    have run: "bitmap_alloc b = Inr (0, Some (of_nat ?i), ?b)"
      using 2 k i u by (simp add: bitmap_alloc_def n Let_def word_less_nat_alt mult.commute del: push_bit_of_1 of_nat_add of_nat_mult)
    have set: "in_use (b_v ?b) j \<longleftrightarrow> in_use (b_v b) j \<or> j = ?i" for j
      using in_use_set [of ix "b_v b" k j] f(1,2) n(2) by (simp del: push_bit_of_1)
    have "bitmap_wf ?b" using wf set by (simp add: bitmap_wf_def del: push_bit_of_1)
    moreover have "marked ?b = insert ?i (marked b)" using set i by (auto simp: marked_def)
    moreover have "?i \<notin> marked b" "\<forall>j < ?i. j \<in> marked b" using f(3,4) i by (auto simp: marked_def)
    ultimately show ?thesis using run i by (intro disjI2 exI [of _ ?i] exI [of _ ?b]) simp
  qed
  then show "marked b = {..<unat (nbits b)} \<Longrightarrow> bitmap_alloc b = Inr (ENOSPC, None, b)"
    "marked b \<noteq> {..<unat (nbits b)} \<Longrightarrow>
      \<exists>i b'. bitmap_alloc b = Inr (0, Some (of_nat i), b') \<and> i < unat (nbits b) \<and> i \<notin> marked b \<and>
        (\<forall>j < i. j \<in> marked b) \<and> bitmap_wf b' \<and> marked b' = insert i (marked b) \<and> nbits b' = nbits b"
    by auto
qed

lemma bitmap_translate_eq: "bitmap_translate i = (unat i div 8, push_bit (unat i mod 8) 1)"
  by (simp add: bitmap_translate_def unat_div unat_mod)

lemma bit_of_index:
  assumes "bitmap_wf b" and "i < nbits b"
  shows "b_v b ! (unat i div 8) AND push_bit (unat i mod 8) 1 = 0 \<longleftrightarrow> unat i \<notin> marked b"
  using assms(2) by (simp add: byte_and_bit marked_def in_use_def word_less_nat_alt del: push_bit_of_1)

lemma bitmap_mark_ok:
  assumes wf: "bitmap_wf b" and i: "i < nbits b"
  shows "bitmap_mark b i =
      (if unat i \<in> marked b then Inl (Assert ''(b->v[ix] & mask)==0'')
       else Inr (b\<lparr>b_v := set_bits (b_v b) (unat i div 8) (push_bit (unat i mod 8) 1)\<rparr>))"
    and "bitmap_wf (b\<lparr>b_v := set_bits (b_v b) (unat i div 8) (push_bit (unat i mod 8) 1)\<rparr>)"
    and "marked (b\<lparr>b_v := set_bits (b_v b) (unat i div 8) (push_bit (unat i mod 8) 1)\<rparr>) = insert (unat i) (marked b)"
proof -
  have ui: "unat i < unat (nbits b)" using i by (simp add: word_less_nat_alt)
  have set: "in_use (set_bits (b_v b) (unat i div 8) (push_bit (unat i mod 8) 1)) j \<longleftrightarrow> in_use (b_v b) j \<or> j = unat i" for j
    using in_use_set [of "unat i div 8" "b_v b" "unat i mod 8" j] bitmap_wf_index [OF wf ui] by (simp del: push_bit_of_1)
  show "bitmap_mark b i = (if unat i \<in> marked b then Inl (Assert ''(b->v[ix] & mask)==0'')
       else Inr (b\<lparr>b_v := set_bits (b_v b) (unat i div 8) (push_bit (unat i mod 8) 1)\<rparr>))"
    using i bit_of_index [OF wf i] by (simp add: bitmap_mark_def bitmap_translate_eq kassert_If del: push_bit_of_1)
  show "bitmap_wf (b\<lparr>b_v := set_bits (b_v b) (unat i div 8) (push_bit (unat i mod 8) 1)\<rparr>)"
    using wf set by (simp add: bitmap_wf_def del: push_bit_of_1)
  show "marked (b\<lparr>b_v := set_bits (b_v b) (unat i div 8) (push_bit (unat i mod 8) 1)\<rparr>) = insert (unat i) (marked b)"
    using set ui by (auto simp: marked_def simp del: push_bit_of_1)
qed

lemma bitmap_unmark_ok:
  assumes wf: "bitmap_wf b" and i: "i < nbits b"
  shows "bitmap_unmark b i =
      (if unat i \<notin> marked b then Inl (Assert ''(b->v[ix] & mask)!=0'')
       else Inr (b\<lparr>b_v := clear_bits (b_v b) (unat i div 8) (push_bit (unat i mod 8) 1)\<rparr>))"
    and "bitmap_wf (b\<lparr>b_v := clear_bits (b_v b) (unat i div 8) (push_bit (unat i mod 8) 1)\<rparr>)"
    and "marked (b\<lparr>b_v := clear_bits (b_v b) (unat i div 8) (push_bit (unat i mod 8) 1)\<rparr>) = marked b - {unat i}"
proof -
  have ui: "unat i < unat (nbits b)" using i by (simp add: word_less_nat_alt)
  have set: "in_use (clear_bits (b_v b) (unat i div 8) (push_bit (unat i mod 8) 1)) j \<longleftrightarrow> in_use (b_v b) j \<and> j \<noteq> unat i" for j
    using in_use_clear [of "unat i div 8" "b_v b" "unat i mod 8" j] bitmap_wf_index [OF wf ui] by (simp del: push_bit_of_1)
  show "bitmap_unmark b i = (if unat i \<notin> marked b then Inl (Assert ''(b->v[ix] & mask)!=0'')
       else Inr (b\<lparr>b_v := clear_bits (b_v b) (unat i div 8) (push_bit (unat i mod 8) 1)\<rparr>))"
    using i bit_of_index [OF wf i] by (simp add: bitmap_unmark_def bitmap_translate_eq kassert_If del: push_bit_of_1)
  show "bitmap_wf (b\<lparr>b_v := clear_bits (b_v b) (unat i div 8) (push_bit (unat i mod 8) 1)\<rparr>)"
    using wf set ui by (auto simp: bitmap_wf_def simp del: push_bit_of_1)
  show "marked (b\<lparr>b_v := clear_bits (b_v b) (unat i div 8) (push_bit (unat i mod 8) 1)\<rparr>) = marked b - {unat i}"
    using set ui by (auto simp: marked_def simp del: push_bit_of_1)
qed

lemma bitmap_isset_ok:
  assumes wf: "bitmap_wf b" and i: "i < nbits b"
  shows "\<exists>r. bitmap_isset b i = Inr r \<and> (r \<noteq> 0 \<longleftrightarrow> unat i \<in> marked b)"
  using bitmap_wf_index [OF wf, of "unat i"] bit_of_index [OF wf i] i
  by (simp add: bitmap_isset_def bitmap_translate_eq word_less_nat_alt del: push_bit_of_1)
    (metis uint_0_iff)

section \<open>Creation\<close>

lemma fold_set_bits:
  assumes "ix < length v" and "b \<le> 8"
  shows "length (fold (\<lambda>j w. set_bits w ix (push_bit j 1)) [a..<b] v) = length v \<and>
    (\<forall>i. in_use (fold (\<lambda>j w. set_bits w ix (push_bit j 1)) [a..<b] v) i \<longleftrightarrow>
       in_use v i \<or> 8 * ix + a \<le> i \<and> i < 8 * ix + b)"
  using assms(2)
proof (induction b)
  case (Suc b)
  show ?case
  proof (cases "a \<le> b")
    case True
    define w where "w = fold (\<lambda>j w. set_bits w ix (push_bit j 1)) [a..<b] v"
    have ih: "length w = length v" "\<And>i. in_use w i \<longleftrightarrow> in_use v i \<or> 8 * ix + a \<le> i \<and> i < 8 * ix + b"
      using Suc by (auto simp: w_def simp del: push_bit_of_1)
    have f: "fold (\<lambda>j w. set_bits w ix (push_bit j 1)) [a..<Suc b] v = set_bits w ix (push_bit b 1)"
      using True by (simp add: w_def del: push_bit_of_1)
    have "in_use (set_bits w ix (push_bit b 1)) i \<longleftrightarrow> in_use w i \<or> i = 8 * ix + b" for i
      using assms(1) Suc.prems ih(1) by (intro in_use_set) simp_all
    then have "in_use (set_bits w ix (push_bit b 1)) i \<longleftrightarrow> in_use v i \<or> 8 * ix + a \<le> i \<and> i < 8 * ix + Suc b" for i
      using True ih(2) by auto
    then show ?thesis unfolding f using ih(1) by (simp del: push_bit_of_1)
  qed auto
qed auto

lemma in_use_zero: "i < 8 * n \<Longrightarrow> \<not> in_use (replicate n 0) i"
  by (simp add: in_use_def div_less_iff_less_mult mult.commute)

lemma mark_leftover_ok:
  assumes n: "unat n + 7 < 2 ^ 32" and words: "words = DIVROUNDUP n 8"
  shows "\<exists>v. mark_leftover words n (replicate (unat words) 0) = Inr v \<and>
     bitmap_wf \<lparr>b_ptr = p, b_vptr = q, nbits = n, b_v = v\<rparr> \<and> marked \<lparr>b_ptr = p, b_vptr = q, nbits = n, b_v = v\<rparr> = {}"
proof -
  have w: "unat words = (unat n + 7) div 8" using unat_DIVROUNDUP [OF n] words by simp
  have d: "unat (n div 8) = unat n div 8" by (simp add: unat_div)
  show ?thesis
  proof (cases "unat n mod 8 = 0")
    case True
    then have "(unat n + 7) div 8 = unat n div 8" "8 * (unat n div 8) = unat n" by (auto elim!: dvdE simp: mod_eq_0_iff_dvd)
    then show ?thesis using w d n in_use_zero [of _ "unat n div 8"]
      by (auto simp: mark_leftover_def word_less_nat_alt bitmap_wf_def marked_def)
  next
    case False
    let ?ix = "unat n div 8" and ?over = "unat n mod 8"
    have up: "(unat n + 7) div 8 = Suc ?ix"
    proof -
      have "unat n + 7 = 8 * ?ix + (?over + 7)" by simp
      moreover have "(?over + 7) div 8 = 1" using False by (intro div_nat_eqI) (auto simp: le_Suc_eq)
      ultimately show ?thesis by (metis Suc_eq_plus1 div_mult_self4 add.commute zero_neq_numeral)
    qed
    have uix: "unat (words - 1) = ?ix" using w up by (subst unat_sub) (auto simp: word_le_nat_alt)
    have eq: "n div 8 = words - 1" using uix d by (simp add: word_unat_eq_iff)
    have over: "unat (n - (words - 1) * 8) = ?over"
    proof -
      have "n - (n div 8) * 8 = n mod 8" by (simp add: minus_div_mult_eq_mod)
      then show ?thesis using eq by (simp add: unat_mod)
    qed
    let ?v = "fold (\<lambda>j w. set_bits w ?ix (push_bit j 1)) [?over..<8] (replicate (Suc ?ix) 0)"
    have len: "length ?v = Suc ?ix" and bits: "\<And>i. in_use ?v i \<longleftrightarrow> in_use (replicate (Suc ?ix) 0) i \<or> 8 * ?ix + ?over \<le> i \<and> i < 8 * ?ix + 8"
      using fold_set_bits [of ?ix "replicate (Suc ?ix) 0" 8 ?over] by (auto simp del: replicate.simps push_bit_of_1)
    have "mark_leftover words n (replicate (unat words) 0) = Inr ?v"
      using uix over False eq w up
      by (simp add: mark_leftover_def word_less_nat_alt Let_def kassert_If d del: replicate.simps push_bit_of_1)
    moreover have "bitmap_wf \<lparr>b_ptr = p, b_vptr = q, nbits = n, b_v = ?v\<rparr>"
      using n len bits up by (simp add: bitmap_wf_def del: replicate.simps push_bit_of_1)
    moreover have "marked \<lparr>b_ptr = p, b_vptr = q, nbits = n, b_v = ?v\<rparr> = {}"
      using bits in_use_zero [of _ "Suc ?ix"] by (auto simp: marked_def simp del: replicate.simps push_bit_of_1)
    ultimately show ?thesis by blast
  qed
qed

context kpage_provider
begin

lemma bitmap_create_ok:
  assumes inv: "inv s" and hi: "heap_inv (owned s) h" and n: "unat n \<le> 8 * PAGE_SIZE"
    and run: "bitmap_create kp n h s = Inr (r, h', s')"
  shows "inv s' \<and> heap_inv (owned s') h' \<and>
    (r = None \<and> live (owned s') h' = live (owned s) h \<or>
     (\<exists>b bs vs. r = Some b \<and> bitmap_wf b \<and> marked b = {} \<and> nbits b = n \<and> vs \<ge> (unat n + 7) div 8 \<and>
        live (owned s') h' = insert (b_vptr b, vs) (insert (b_ptr b, bs) (live (owned s) h)) \<and>
        (b_ptr b, bs) \<notin> live (owned s) h \<and> (b_vptr b, vs) \<notin> insert (b_ptr b, bs) (live (owned s) h)))"
proof -
  have n': "unat n + 7 < 2 ^ 32" using n by simp
  define words where "words = DIVROUNDUP n 8"
  have w: "unat words = (unat n + 7) div 8" using unat_DIVROUNDUP [OF n'] by (simp add: words_def)
  then have small: "unat words \<le> PAGE_SIZE" "unat sizeof_bitmap \<le> PAGE_SIZE" using n by (simp_all add: sizeof_bitmap_def)
  obtain p h1 s1 where k1: "kmalloc kp sizeof_bitmap h s = Inr (p, h1, s1)"
    and rest: "(if p = 0 then Inr (None, h1, s1) else
        kbind (kmalloc kp words h1 s1) (\<lambda>(v, h2, s2).
        if v = 0 then kbind (kfree kp p h2 s2) (\<lambda>(h3, s3). Inr (None, h3, s3))
        else kbind (mark_leftover words n (replicate (unat words) 0)) (\<lambda>bits.
          Inr (Some \<lparr>b_ptr = p, b_vptr = v, nbits = n, b_v = bits\<rparr>, h2, s2)))) = Inr (r, h', s')"
    using run by (auto simp: bitmap_create_def Let_def simp flip: words_def)
  note m1 = kmalloc_ok [OF inv hi small(2) k1]
  show ?thesis
  proof (cases "p = 0")
    case True
    then show ?thesis using m1 rest by auto
  next
    case False
    then obtain bs where i1: "inv s1" "heap_inv (owned s1) h1" "p \<notin> fst ` live (owned s) h"
      and l1: "live (owned s1) h1 = insert (p, bs) (live (owned s) h)" using m1 by auto
    obtain v h2 s2 where k2: "kmalloc kp words h1 s1 = Inr (v, h2, s2)"
      and rest2: "(if v = 0 then kbind (kfree kp p h2 s2) (\<lambda>(h3, s3). Inr (None, h3, s3))
        else kbind (mark_leftover words n (replicate (unat words) 0)) (\<lambda>bits.
          Inr (Some \<lparr>b_ptr = p, b_vptr = v, nbits = n, b_v = bits\<rparr>, h2, s2))) = Inr (r, h', s')"
      using rest False by auto
    note m2 = kmalloc_ok [OF i1(1,2) small(1) k2]
    show ?thesis
    proof (cases "v = 0")
      case True
      then have i2: "inv s2" "heap_inv (owned s2) h2" "(p, bs) \<in> live (owned s2) h2" "live (owned s2) h2 = live (owned s1) h1"
        using m2 l1 by auto
      from kfree_ok [OF i2(1-3)] show ?thesis using True rest2 i2(4) l1 i1(3) by force
    next
      case False
      then obtain vs where i2: "inv s2" "heap_inv (owned s2) h2" "v \<notin> fst ` live (owned s1) h1" "vs \<ge> unat words"
        and l2: "live (owned s2) h2 = insert (v, vs) (live (owned s1) h1)" using m2 by auto
      obtain bits where bits: "mark_leftover words n (replicate (unat words) 0) = Inr bits"
        "bitmap_wf \<lparr>b_ptr = p, b_vptr = v, nbits = n, b_v = bits\<rparr>" "marked \<lparr>b_ptr = p, b_vptr = v, nbits = n, b_v = bits\<rparr> = {}"
        using mark_leftover_ok [OF n' words_def] by blast
      then have r: "r = Some \<lparr>b_ptr = p, b_vptr = v, nbits = n, b_v = bits\<rparr>" "h' = h2" "s' = s2" using rest2 False by auto
      have "(p, bs) \<notin> live (owned s) h" "(v, vs) \<notin> live (owned s1) h1" using i1(3) i2(3) by force+
      then have "bitmap_wf (the r) \<and> marked (the r) = {} \<and> nbits (the r) = n \<and> vs \<ge> (unat n + 7) div 8 \<and>
        live (owned s') h' = insert (b_vptr (the r), vs) (insert (b_ptr (the r), bs) (live (owned s) h)) \<and>
        (b_ptr (the r), bs) \<notin> live (owned s) h \<and> (b_vptr (the r), vs) \<notin> insert (b_ptr (the r), bs) (live (owned s) h)"
        using bits(2,3) i2(4) l1 l2 w by (simp add: r)
      then show ?thesis using r(1) i2(1,2) unfolding r(2,3) by auto
    qed
  qed
qed

lemma bitmap_destroy_ok:
  assumes inv: "inv s" and hi: "heap_inv (owned s) h"
    and live: "(b_vptr b, vs) \<in> live (owned s) h" "(b_ptr b, bs) \<in> live (owned s) h" "b_vptr b \<noteq> b_ptr b"
  shows "\<exists>h' s'. bitmap_destroy kp b h s = Inr (h', s') \<and> inv s' \<and> heap_inv (owned s') h' \<and>
    live (owned s') h' = live (owned s) h - {(b_vptr b, vs), (b_ptr b, bs)}"
proof -
  obtain h1 s1 where f1: "kfree kp (b_vptr b) h s = Inr (h1, s1)" "inv s1" "heap_inv (owned s1) h1"
    "live (owned s1) h1 = live (owned s) h - {(b_vptr b, vs)}" using kfree_ok [OF inv hi live(1)] by blast
  have "(b_ptr b, bs) \<in> live (owned s1) h1" using f1(4) live(2,3) by auto
  from kfree_ok [OF f1(2,3) this] show ?thesis using f1 by (auto simp: bitmap_destroy_def)
qed

end

end
