(* ===== verification/Arrays.thy ===== *)
theory Arrays
  imports KernelHeap
begin

text \<open>
  The resizable arrays of \<open>kern/lib/array.c\<close> and \<open>kern/include/array.h\<close>. An array refines a
  list; the loop that doubles the capacity ends for every request up to \<open>2 ^ 31\<close> and for no
  larger one.
\<close>

section \<open>The code\<close>

text \<open>
  The structure with its address, the address of the vector and its contents. The contents of
  memory that \<open>kmalloc\<close> returns are unknown: the argument \<open>junk\<close> of the operations that allocate.
\<close>

record 'a karray =
  a_ptr :: vaddr_t
  a_num :: u32
  a_max :: u32
  a_vptr :: vaddr_t
  a_v :: "'a list"

definition sizeof_array :: size_t where
  "sizeof_array = 12"

definition array_init :: "vaddr_t \<Rightarrow> 'a karray" where
  "array_init a = \<lparr>a_ptr = a, a_num = 0, a_max = 0, a_vptr = 0, a_v = []\<rparr>"

definition array_create :: "'s kpage_ops \<Rightarrow> kheap \<Rightarrow> 's \<Rightarrow> ('a karray option \<times> kheap \<times> 's) res" where
  "array_create kp h s =
     kbind (kmalloc kp sizeof_array h s) (\<lambda>(a, h1, s1).
     Inr (if a \<noteq> 0 then Some (array_init a) else None, h1, s1))"

definition array_cleanup :: "'s kpage_ops \<Rightarrow> 'a karray \<Rightarrow> kheap \<Rightarrow> 's \<Rightarrow> ('a karray \<times> kheap \<times> 's) res" where
  "array_cleanup kp a h s =
     kbind (kassert (a_num a = 0) ''a->num == 0'') (\<lambda>_.
     kbind (kfree kp (a_vptr a) h s) (\<lambda>(h1, s1).
     Inr (a\<lparr>a_vptr := 0, a_v := []\<rparr>, h1, s1)))"

definition array_destroy :: "'s kpage_ops \<Rightarrow> 'a karray \<Rightarrow> kheap \<Rightarrow> 's \<Rightarrow> (kheap \<times> 's) res" where
  "array_destroy kp a h s =
     kbind (array_cleanup kp a h s) (\<lambda>(a1, h1, s1). kfree kp (a_ptr a1) h1 s1)"

text \<open>The loop \<open>while (num > newmax)\<close>; \<open>None\<close> is a loop that does not end.\<close>

partial_function (option) grow_max :: "u32 \<Rightarrow> u32 \<Rightarrow> u32 option" where
  "grow_max num newmax =
     (if num > newmax then grow_max num (if newmax \<noteq> 0 then newmax * 2 else 4) else Some newmax)"

text \<open>The vector after \<open>memcpy(newptr, a->v, a->num * sizeof(*a->v))\<close> into a block of \<open>size\<close> bytes.\<close>

definition copy_vector :: "(nat \<Rightarrow> 'a) \<Rightarrow> size_t \<Rightarrow> u32 \<Rightarrow> 'a list \<Rightarrow> 'a list res" where
  "copy_vector junk sz num v =
     (let n = unat sz div 4 in
      if unat num \<le> n \<and> unat num \<le> length v then Inr (take (unat num) v @ map junk [unat num..<n])
      else Inl (Undefined ''memcpy outside the block''))"

definition array_preallocate ::
  "'s kpage_ops \<Rightarrow> (nat \<Rightarrow> 'a) \<Rightarrow> 'a karray \<Rightarrow> u32 \<Rightarrow> kheap \<Rightarrow> 's \<Rightarrow> (int \<times> 'a karray \<times> kheap \<times> 's) res option" where
  "array_preallocate kp junk a num h s =
     (if num > a_max a then
        (case grow_max num (a_max a) of
           None \<Rightarrow> None
         | Some newmax \<Rightarrow> Some (
             kbind (kmalloc kp (newmax * 4) h s) (\<lambda>(newptr, h1, s1).
             if newptr = 0 then Inr (ENOMEM, a, h1, s1)
             else
               kbind (copy_vector junk (newmax * 4) (a_num a) (a_v a)) (\<lambda>v.
               kbind (kfree kp (a_vptr a) h1 s1) (\<lambda>(h2, s2).
               Inr (0, a\<lparr>a_v := v, a_vptr := newptr, a_max := newmax\<rparr>, h2, s2))))))
      else Some (Inr (0, a, h, s)))"

definition array_setsize ::
  "'s kpage_ops \<Rightarrow> (nat \<Rightarrow> 'a) \<Rightarrow> 'a karray \<Rightarrow> u32 \<Rightarrow> kheap \<Rightarrow> 's \<Rightarrow> (int \<times> 'a karray \<times> kheap \<times> 's) res option" where
  "array_setsize kp junk a num h s =
     map_option (\<lambda>r. kbind r (\<lambda>(result, a1, h1, s1).
       if result \<noteq> 0 then Inr (result, a1, h1, s1) else Inr (0, a1\<lparr>a_num := num\<rparr>, h1, s1)))
       (array_preallocate kp junk a num h s)"

definition array_remove :: "'a karray \<Rightarrow> u32 \<Rightarrow> 'a karray res" where
  "array_remove a index =
     kbind (kassert (a_num a \<le> a_max a) ''a->num <= a->max'') (\<lambda>_.
     kbind (kassert (index < a_num a) ''index < a->num'') (\<lambda>_.
     let num_to_move = unat (a_num a - (index + 1)); i = unat index; v = a_v a in
     Inr (a\<lparr>a_v := take i v @ take num_to_move (drop (i + 1) v) @ drop (i + num_to_move) v, a_num := a_num a - 1\<rparr>)))"

definition array_get :: "'a karray \<Rightarrow> u32 \<Rightarrow> 'a res" where
  "array_get a index =
     kbind (kassert (index < a_num a) ''index < a->num'') (\<lambda>_.
     if unat index < length (a_v a) then Inr (a_v a ! unat index) else Inl (Undefined ''a->v[index]''))"

definition array_set :: "'a karray \<Rightarrow> u32 \<Rightarrow> 'a \<Rightarrow> 'a karray res" where
  "array_set a index val =
     kbind (kassert (index < a_num a) ''index < a->num'') (\<lambda>_.
     if unat index < length (a_v a) then Inr (a\<lparr>a_v := (a_v a)[unat index := val]\<rparr>) else Inl (Undefined ''a->v[index]''))"

definition array_add ::
  "'s kpage_ops \<Rightarrow> (nat \<Rightarrow> 'a) \<Rightarrow> 'a karray \<Rightarrow> 'a \<Rightarrow> kheap \<Rightarrow> 's \<Rightarrow> (int \<times> u32 option \<times> 'a karray \<times> kheap \<times> 's) res option" where
  "array_add kp junk a val h s =
     (let index = a_num a in
      map_option (\<lambda>r. kbind r (\<lambda>(ret, a1, h1, s1).
        if ret \<noteq> 0 then Inr (ret, None, a1, h1, s1)
        else if unat index < length (a_v a1)
        then Inr (0, Some index, a1\<lparr>a_v := (a_v a1)[unat index := val]\<rparr>, h1, s1)
        else Inl (Undefined ''a->v[index]'')))
        (array_setsize kp junk a (index + 1) h s))"

section \<open>The capacity\<close>

text \<open>The capacities the loop goes through: 0, and 4 times a power of 2.\<close>

definition capacity :: "u32 \<Rightarrow> bool" where
  "capacity m \<longleftrightarrow> m = 0 \<or> (\<exists>k < 30. unat m = 4 * 2 ^ k)"

lemma capacity_step:
  assumes "capacity m"
  shows "capacity (if m \<noteq> 0 then m * 2 else 4)"
proof (cases "m = 0")
  case True
  then show ?thesis by (auto simp: capacity_def intro: exI [of _ 0])
next
  case False
  then obtain k where k: "k < 30" "unat m = 4 * 2 ^ k" using assms by (auto simp: capacity_def)
  have "unat (m * 2) = (4 * 2 ^ Suc k) mod 2 ^ 32" using k(2) by (simp add: unat_word_ariths mult_ac)
  also have "\<dots> = 2 ^ (k + 3) mod 2 ^ 32" by (simp add: power_add mult_ac)
  finally have u: "unat (m * 2) = 2 ^ (k + 3) mod 2 ^ 32" .
  show ?thesis
  proof (cases "k = 29")
    case True
    then have "m * 2 = 0" using u by (simp add: word_unat_eq_iff)
    then show ?thesis using False by (simp add: capacity_def)
  next
    case less: False
    then have "(2 :: nat) ^ (k + 3) < 2 ^ 32" using k(1) by (intro power_strict_increasing) auto
    then have "unat (m * 2) = 4 * 2 ^ Suc k" using u by (simp add: power_add)
    then have "\<exists>j < 30. unat (m * 2) = 4 * 2 ^ j" using less k(1) by (intro exI [of _ "Suc k"]) auto
    then show ?thesis using False by (simp add: capacity_def)
  qed
qed

lemma grow_max_capacity:
  assumes "grow_max num m = Some r"
  shows "capacity m \<longrightarrow> capacity r \<and> num \<le> r"
proof (rule grow_max.raw_induct [where P = "\<lambda>num m r. capacity m \<longrightarrow> capacity r \<and> num \<le> r", OF _ assms])
  fix f :: "u32 \<Rightarrow> u32 \<Rightarrow> u32 option" and num m r
  assume ih: "\<And>num m r. f num m = Some r \<Longrightarrow> capacity m \<longrightarrow> capacity r \<and> num \<le> r"
    and body: "(if m < num then f num (if m \<noteq> 0 then m * 2 else 4) else Some m) = Some r"
  show "capacity m \<longrightarrow> capacity r \<and> num \<le> r"
  proof (cases "m < num")
    case True
    then show ?thesis using body ih capacity_step [of m] by simp
  next
    case False
    then show ?thesis using body by auto
  qed
qed

lemma grow_max_from:
  assumes "k < 30" and "unat m = 4 * 2 ^ k" and "unat num \<le> 2 ^ 31"
  shows "\<exists>r. grow_max num m = Some r"
  using assms
proof (induction "29 - k" arbitrary: k m)
  case 0
  then have "k = 29" by simp
  then have "unat m = 2 ^ 31" using "0.prems" by simp
  then show ?case using "0.prems" by (subst grow_max.simps) (simp add: word_less_nat_alt)
next
  case (Suc d)
  have k: "k < 29" using Suc.hyps(2) by simp
  have "(2 :: nat) ^ (k + 3) < 2 ^ 32" using k by (intro power_strict_increasing) auto
  then have "unat (m * 2) = 4 * 2 ^ Suc k" using Suc.prems(2) by (simp add: unat_word_ariths power_add mult_ac)
  then have "\<exists>r. grow_max num (m * 2) = Some r" using Suc.hyps k Suc.prems(3) by (intro Suc.hyps(1) [of "Suc k"]) auto
  moreover have "m \<noteq> 0" using Suc.prems(2) by auto
  ultimately show ?case by (subst grow_max.simps) auto
qed

lemma grow_max_returns:
  assumes "capacity m" and "unat num \<le> 2 ^ 31"
  shows "\<exists>r. grow_max num m = Some r \<and> capacity r \<and> num \<le> r"
proof -
  have "\<exists>r. grow_max num m = Some r"
  proof (cases "m = 0")
    case True
    have "\<exists>r. grow_max num 4 = Some r" using assms(2) by (intro grow_max_from [of 0]) auto
    then show ?thesis using True by (subst grow_max.simps) auto
  next
    case False
    then show ?thesis using assms grow_max_from by (auto simp: capacity_def)
  qed
  then show ?thesis using grow_max_capacity assms(1) by blast
qed

lemma capacity_le: "capacity m \<Longrightarrow> unat m \<le> 2 ^ 31"
proof -
  assume "capacity m"
  moreover have "(4 :: nat) * 2 ^ k \<le> 4 * 2 ^ 29" if "k < 30" for k using that by (intro mult_left_mono power_increasing) auto
  ultimately show ?thesis by (auto simp: capacity_def)
qed

lemma grow_max_diverges:
  assumes "capacity m" and "2 ^ 31 < unat num"
  shows "grow_max num m = None"
proof (rule ccontr)
  assume "grow_max num m \<noteq> None"
  then obtain r where "grow_max num m = Some r" by auto
  then have "capacity r" "num \<le> r" using grow_max_capacity assms(1) by auto
  then show False using capacity_le [of r] assms(2) by (simp add: word_le_nat_alt)
qed

section \<open>Arrays as lists\<close>

definition array_wf :: "'a karray \<Rightarrow> bool" where
  "array_wf a \<longleftrightarrow> capacity (a_max a) \<and> unat (a_max a) < 2 ^ 30 \<and> length (a_v a) = unat (a_max a) \<and>
     unat (a_num a) \<le> unat (a_max a)"

definition array_list :: "'a karray \<Rightarrow> 'a list" where
  "array_list a = take (unat (a_num a)) (a_v a)"

lemma array_init_wf: "array_wf (array_init p)" "array_list (array_init p) = []"
  by (simp_all add: array_wf_def array_list_def array_init_def capacity_def)

lemma length_array_list: "array_wf a \<Longrightarrow> length (array_list a) = unat (a_num a)"
  by (simp add: array_wf_def array_list_def)

lemma capacity_small:
  assumes "capacity m" and "unat m \<le> 2 ^ 29"
  shows "unat (m * 4) = 4 * unat m"
  using assms by (simp add: unat_word_ariths)

text \<open>Up to \<open>2 ^ 29\<close> elements the size in bytes does not wrap around.\<close>

lemma grow_max_small:
  assumes "capacity m" and "num > m" and "unat num \<le> 2 ^ 29"
  obtains r where "grow_max num m = Some r" "capacity r" "num \<le> r" "unat r \<le> 2 ^ 29" "unat (r * 4) div 4 = unat r"
proof -
  have aux: "\<exists>r. grow_max num m = Some r \<and> unat r \<le> 2 ^ 29" if "k < 28" "unat m = 4 * 2 ^ k" for k m
    using that
  proof (induction "27 - k" arbitrary: k m)
    case 0
    then have "k = 27" by simp
    then have "unat m = 2 ^ 29" using "0.prems" by simp
    then show ?case using assms(3) by (subst grow_max.simps) (simp add: word_less_nat_alt)
  next
    case (Suc d)
    have k: "k < 27" using Suc.hyps(2) by simp
    have "(2 :: nat) ^ (k + 3) < 2 ^ 32" using k by (intro power_strict_increasing) auto
    then have "unat (m * 2) = 4 * 2 ^ Suc k" using Suc.prems(2) by (simp add: unat_word_ariths power_add mult_ac)
    then have "\<exists>r. grow_max num (m * 2) = Some r \<and> unat r \<le> 2 ^ 29" using Suc.hyps k by (intro Suc.hyps(1) [of "Suc k"]) auto
    moreover have "m \<noteq> 0" using Suc.prems(2) by auto
    moreover have "(4 :: nat) * 2 ^ k \<le> 2 ^ 29" using k power_increasing [of "k + 2" 29 "2 :: nat"] by (simp add: power_add)
    ultimately show ?case using Suc.prems(2) by (subst grow_max.simps) auto
  qed
  have "\<exists>r. grow_max num m = Some r \<and> unat r \<le> 2 ^ 29"
  proof (cases "m = 0")
    case True
    then show ?thesis using aux [of 0 4] assms(2) by (subst grow_max.simps) auto
  next
    case False
    then obtain k where k: "k < 30" "unat m = 4 * 2 ^ k" using assms(1) by (auto simp: capacity_def)
    then have "(2 :: nat) ^ (k + 2) < 2 ^ 29" using assms(2,3) by (simp add: word_less_nat_alt power_add)
    then have "k < 28" using power_less_imp_less_exp [of "2 :: nat" "k + 2" 29] by simp
    then show ?thesis using aux k(2) by blast
  qed
  then obtain r where r: "grow_max num m = Some r" "unat r \<le> 2 ^ 29" by blast
  moreover have "capacity r" "num \<le> r" using grow_max_capacity [OF r(1)] assms(1) by auto
  ultimately show thesis using that capacity_small by simp
qed

lemma copy_vector_ok:
  assumes "array_wf a" and "unat (a_max a) \<le> unat m" and "unat (m * 4) div 4 = unat m"
  shows "\<exists>v. copy_vector junk (m * 4) (a_num a) (a_v a) = Inr v \<and> length v = unat m \<and>
    take (unat (a_num a)) v = array_list a"
  using assms by (simp add: copy_vector_def array_wf_def array_list_def Let_def)

lemma array_preallocate_ok:
  assumes wf: "array_wf a" and num: "unat num \<le> 2 ^ 29"
  shows "\<exists>r. array_preallocate kp junk a num h s = Some r"
    and "array_preallocate kp junk a num h s = Some (Inr (e, a', h', s')) \<Longrightarrow>
      array_wf a' \<and> array_list a' = array_list a \<and> a_num a' = a_num a \<and> a_ptr a' = a_ptr a \<and>
      (e = 0 \<and> num \<le> a_max a' \<or> e = ENOMEM \<and> a' = a)"
proof -
  have "(\<exists>r. array_preallocate kp junk a num h s = Some r) \<and>
    (array_preallocate kp junk a num h s = Some (Inr (e, a', h', s')) \<longrightarrow>
      array_wf a' \<and> array_list a' = array_list a \<and> a_num a' = a_num a \<and> a_ptr a' = a_ptr a \<and>
      (e = 0 \<and> num \<le> a_max a' \<or> e = ENOMEM \<and> a' = a))"
  proof (cases "num > a_max a")
    case True
    have cap: "capacity (a_max a)" using wf by (simp add: array_wf_def)
    obtain m where m: "grow_max num (a_max a) = Some m" "capacity m" "num \<le> m" "unat m \<le> 2 ^ 29" "unat (m * 4) div 4 = unat m"
      using grow_max_small [OF cap True num] by blast
    have le: "unat (a_max a) \<le> unat m" using True m(3) by (simp add: word_less_nat_alt word_le_nat_alt)
    obtain v where v: "copy_vector junk (m * 4) (a_num a) (a_v a) = Inr v" "length v = unat m" "take (unat (a_num a)) v = array_list a"
      using copy_vector_ok [OF wf le m(5)] by blast
    have "array_wf (a\<lparr>a_v := v, a_vptr := p, a_max := m\<rparr>)" for p
      using wf le m v(2) by (simp add: array_wf_def)
    moreover have "array_list (a\<lparr>a_v := v, a_vptr := p, a_max := m\<rparr>) = array_list a" for p
      using v(3) by (simp add: array_list_def)
    ultimately show ?thesis using True m v wf by (auto simp: array_preallocate_def split: if_splits)
  next
    case False
    then show ?thesis using wf by (auto simp: array_preallocate_def)
  qed
  then show "\<exists>r. array_preallocate kp junk a num h s = Some r"
    "array_preallocate kp junk a num h s = Some (Inr (e, a', h', s')) \<Longrightarrow>
      array_wf a' \<and> array_list a' = array_list a \<and> a_num a' = a_num a \<and> a_ptr a' = a_ptr a \<and>
      (e = 0 \<and> num \<le> a_max a' \<or> e = ENOMEM \<and> a' = a)" by auto
qed

lemma array_setsize_ok:
  assumes wf: "array_wf a" and num: "unat num \<le> 2 ^ 29"
    and run: "array_setsize kp junk a num h s = Some (Inr (e, a', h', s'))"
  shows "array_wf a' \<and> a_ptr a' = a_ptr a \<and>
    (e = 0 \<and> a_num a' = num \<and> take (unat num) (array_list a) = take (unat (a_num a)) (array_list a') \<or> e = ENOMEM \<and> a' = a)"
proof -
  obtain e1 a1 h1 s1 where pre: "array_preallocate kp junk a num h s = Some (Inr (e1, a1, h1, s1))"
    and res: "(if e1 \<noteq> 0 then Inr (e1, a1, h1, s1) else Inr (0, a1\<lparr>a_num := num\<rparr>, h1, s1)) = (Inr (e, a', h', s') :: (int \<times> _) res)"
    using run by (auto simp: array_setsize_def)
  note p = array_preallocate_ok(2) [OF wf num pre]
  have "array_list a = take (unat (a_num a)) (a_v a1)" using p by (auto simp: array_list_def)
  then have "take (unat num) (array_list a) = take (unat (a_num a)) (take (unat num) (a_v a1))"
    by (simp add: min.commute)
  then show ?thesis
    using res p by (auto simp: array_wf_def word_le_nat_alt split: if_splits) (simp add: array_list_def)
qed

lemma array_add_ok:
  assumes wf: "array_wf a" and num: "unat (a_num a) < 2 ^ 29"
  shows "\<exists>r. array_add kp junk a x h s = Some r"
    and "array_add kp junk a x h s = Some (Inr (e, i, a', h', s')) \<Longrightarrow>
      array_wf a' \<and> (e = 0 \<and> i = Some (a_num a) \<and> array_list a' = array_list a @ [x] \<or> e = ENOMEM \<and> i = None \<and> a' = a)"
proof -
  have n: "unat (a_num a + 1) = Suc (unat (a_num a))" using num by (simp add: unat_word_ariths)
  then have num': "unat (a_num a + 1) \<le> 2 ^ 29" using num by simp
  show "\<exists>r. array_add kp junk a x h s = Some r"
    using array_preallocate_ok(1) [OF wf num', of kp junk h s] by (auto simp: array_add_def array_setsize_def Let_def)
  assume "array_add kp junk a x h s = Some (Inr (e, i, a', h', s'))"
  then obtain e1 a1 h1 s1 where pre: "array_preallocate kp junk a (a_num a + 1) h s = Some (Inr (e1, a1, h1, s1))"
    and res: "(if e1 \<noteq> 0 then e = e1 \<and> i = None \<and> a' = a1 else unat (a_num a) < length (a_v a1) \<and>
      e = 0 \<and> i = Some (a_num a) \<and> a' = a1\<lparr>a_num := a_num a + 1, a_v := (a_v a1)[unat (a_num a) := x]\<rparr>)"
    by (fastforce simp: array_add_def array_setsize_def Let_def split: if_splits)
  note p = array_preallocate_ok(2) [OF wf num' pre]
  show "array_wf a' \<and> (e = 0 \<and> i = Some (a_num a) \<and> array_list a' = array_list a @ [x] \<or> e = ENOMEM \<and> i = None \<and> a' = a)"
  proof (cases "e1 = 0")
    case True
    have a1: "array_wf a1" "a_num a1 = a_num a" "array_list a1 = array_list a" "a_num a + 1 \<le> a_max a1" using p True by auto
    have len: "unat (a_num a) < length (a_v a1)" using res True by simp
    have "take (Suc (unat (a_num a))) ((a_v a1)[unat (a_num a) := x]) = array_list a @ [x]"
      using len a1(2,3) by (simp add: take_Suc_conv_app_nth array_list_def)
    then show ?thesis using True res a1 n by (simp add: array_wf_def array_list_def word_le_nat_alt)
  next
    case False
    then show ?thesis using res p by auto
  qed
qed

lemma array_remove_ok:
  assumes wf: "array_wf a" and i: "index < a_num a"
  shows "\<exists>a'. array_remove a index = Inr a' \<and> array_wf a' \<and>
    array_list a' = take (unat index) (array_list a) @ drop (Suc (unat index)) (array_list a)"
proof -
  let ?n = "unat (a_num a)" and ?i = "unat index"
  have ui: "?i < ?n" using i by (simp add: word_less_nat_alt)
  have i1: "unat (index + 1) = Suc ?i" using ui wf by (simp add: unat_word_ariths array_wf_def)
  have mv: "unat (a_num a - (index + 1)) = ?n - Suc ?i" using ui i1 by (subst unat_sub) (simp_all add: word_le_nat_alt)
  have n1: "unat (a_num a - 1) = ?n - 1" using ui by (subst unat_sub) (auto simp: word_le_nat_alt)
  let ?v = "take ?i (a_v a) @ take (?n - Suc ?i) (drop (Suc ?i) (a_v a)) @ drop (?i + (?n - Suc ?i)) (a_v a)"
  let ?a = "a\<lparr>a_v := ?v, a_num := a_num a - 1\<rparr>"
  have run: "array_remove a index = Inr ?a"
    using wf i mv by (simp add: array_remove_def array_wf_def word_le_nat_alt Let_def kassert_If)
  have len: "?n \<le> length (a_v a)" "?i + (?n - Suc ?i) = ?n - 1" using wf ui by (auto simp: array_wf_def)
  have "array_wf ?a" using wf n1 ui by (auto simp: array_wf_def)
  moreover have "array_list ?a = take ?i (array_list a) @ drop (Suc ?i) (array_list a)"
    using ui len n1 by (cases "?n - Suc 0 = ?i") (auto simp: array_list_def take_drop min_def)
  ultimately show ?thesis using run by blast
qed

lemma array_get_set_ok:
  assumes wf: "array_wf a" and i: "index < a_num a"
  shows "array_get a index = Inr (array_list a ! unat index)"
    and "\<exists>a'. array_set a index x = Inr a' \<and> array_wf a' \<and> array_list a' = (array_list a)[unat index := x]"
proof -
  have ui: "unat index < unat (a_num a)" using i by (simp add: word_less_nat_alt)
  then show "array_get a index = Inr (array_list a ! unat index)"
    using wf i by (simp add: array_get_def array_wf_def array_list_def)
  show "\<exists>a'. array_set a index x = Inr a' \<and> array_wf a' \<and> array_list a' = (array_list a)[unat index := x]"
    using wf i ui by (simp add: array_set_def array_wf_def array_list_def take_update_swap)
qed

end
