(* ===== verification/ThreadLists.thy ===== *)
theory ThreadLists
  imports Prelude
begin

text \<open>
  The doubly linked thread lists of \<open>kern/thread/threadlist.c\<close>, in the style of AmigaOS: head
  and tail nodes are part of the list structure and always linked in. The nodes are a store of
  pointers shared by all lists; the operations are shown to implement those of sequences and to
  leave every other list alone.
\<close>

section \<open>The code\<close>

text \<open>
  Addresses of nodes: the two bookends inside list number \<open>tl\<close> and the node inside thread
  number \<open>t\<close>. \<open>None\<close> is the null pointer.
\<close>

datatype tlnode = TLHead nat | TLTail nat | TNode nat

record tlstate =
  tln_prev :: "tlnode \<Rightarrow> tlnode option"
  tln_next :: "tlnode \<Rightarrow> tlnode option"
  tln_self :: "tlnode \<Rightarrow> nat option"
  tl_count :: "nat \<Rightarrow> u32"

definition set_prev :: "tlnode \<Rightarrow> tlnode option \<Rightarrow> tlstate \<Rightarrow> tlstate" where
  "set_prev n p s = s\<lparr>tln_prev := (tln_prev s)(n := p)\<rparr>"

definition set_next :: "tlnode \<Rightarrow> tlnode option \<Rightarrow> tlstate \<Rightarrow> tlstate" where
  "set_next n p s = s\<lparr>tln_next := (tln_next s)(n := p)\<rparr>"

definition set_self :: "tlnode \<Rightarrow> nat option \<Rightarrow> tlstate \<Rightarrow> tlstate" where
  "set_self n p s = s\<lparr>tln_self := (tln_self s)(n := p)\<rparr>"

definition add_count :: "nat \<Rightarrow> u32 \<Rightarrow> tlstate \<Rightarrow> tlstate" where
  "add_count l d s = s\<lparr>tl_count := (tl_count s)(l := tl_count s l + d)\<rparr>"

definition deref :: "tlnode option \<Rightarrow> tlnode res" where
  "deref p = (case p of None \<Rightarrow> Inl (Undefined ''null pointer'') | Some n \<Rightarrow> Inr n)"

definition threadlistnode_init :: "tlnode \<Rightarrow> nat option \<Rightarrow> tlstate \<Rightarrow> tlstate res" where
  "threadlistnode_init tln t s =
     kbind (kassert (t \<noteq> None) ''t != NULL'') (\<lambda>_.
     Inr (set_self tln t (set_prev tln None (set_next tln None s))))"

definition threadlistnode_cleanup :: "tlnode \<Rightarrow> tlstate \<Rightarrow> unit res" where
  "threadlistnode_cleanup tln s =
     kbind (kassert (tln_next s tln = None) ''tln->tln_next == NULL'') (\<lambda>_.
     kbind (kassert (tln_prev s tln = None) ''tln->tln_prev == NULL'') (\<lambda>_.
     kassert (tln_self s tln \<noteq> None) ''tln->tln_self != NULL''))"

definition threadlist_init :: "nat \<Rightarrow> tlstate \<Rightarrow> tlstate" where
  "threadlist_init l s =
     (let s1 = set_prev (TLHead l) None (set_next (TLHead l) (Some (TLTail l)) s);
          s2 = set_prev (TLTail l) (Some (TLHead l)) (set_next (TLTail l) None s1);
          s3 = set_self (TLTail l) None (set_self (TLHead l) None s2)
      in s3\<lparr>tl_count := (tl_count s3)(l := 0)\<rparr>)"

definition threadlist_isempty :: "nat \<Rightarrow> tlstate \<Rightarrow> bool" where
  "threadlist_isempty l s = (tl_count s l = 0)"

definition threadlist_cleanup :: "nat \<Rightarrow> tlstate \<Rightarrow> unit res" where
  "threadlist_cleanup l s =
     kbind (kassert (threadlist_isempty l s) ''threadlist_isempty(tl)'') (\<lambda>_.
     kassert (tl_count s l = 0) ''tl->tl_count == 0'')"

definition threadlist_insertafternode :: "tlnode \<Rightarrow> nat \<Rightarrow> tlstate \<Rightarrow> tlstate res" where
  "threadlist_insertafternode onlist t s =
     (let addee = TNode t;
          s1 = set_prev addee (Some onlist) s;
          s2 = set_next addee (tln_next s1 onlist) s1
      in kbind (deref (tln_prev s2 addee)) (\<lambda>p.
         let s3 = set_next p (Some addee) s2 in
         kbind (deref (tln_next s3 addee)) (\<lambda>n.
         Inr (set_prev n (Some addee) s3))))"

definition threadlist_insertbeforenode :: "nat \<Rightarrow> tlnode \<Rightarrow> tlstate \<Rightarrow> tlstate res" where
  "threadlist_insertbeforenode t onlist s =
     (let addee = TNode t;
          s1 = set_prev addee (tln_prev s onlist) s;
          s2 = set_next addee (Some onlist) s1
      in kbind (deref (tln_prev s2 addee)) (\<lambda>p.
         let s3 = set_next p (Some addee) s2 in
         kbind (deref (tln_next s3 addee)) (\<lambda>n.
         Inr (set_prev n (Some addee) s3))))"

definition threadlist_removenode :: "tlnode \<Rightarrow> tlstate \<Rightarrow> tlstate res" where
  "threadlist_removenode tln s =
     kbind (deref (tln_prev s tln)) (\<lambda>p.
     let s1 = set_next p (tln_next s tln) s in
     kbind (deref (tln_next s1 tln)) (\<lambda>n.
     let s2 = set_prev n (tln_prev s1 tln) s1 in
     Inr (set_next tln None (set_prev tln None s2))))"

definition threadlist_addhead :: "nat \<Rightarrow> nat \<Rightarrow> tlstate \<Rightarrow> tlstate res" where
  "threadlist_addhead l t s =
     kbind (threadlist_insertafternode (TLHead l) t s) (\<lambda>s1. Inr (add_count l 1 s1))"

definition threadlist_addtail :: "nat \<Rightarrow> nat \<Rightarrow> tlstate \<Rightarrow> tlstate res" where
  "threadlist_addtail l t s =
     kbind (threadlist_insertbeforenode t (TLTail l) s) (\<lambda>s1. Inr (add_count l 1 s1))"

definition threadlist_remhead :: "nat \<Rightarrow> tlstate \<Rightarrow> (nat option \<times> tlstate) res" where
  "threadlist_remhead l s =
     kbind (deref (tln_next s (TLHead l))) (\<lambda>tln.
     if tln_next s tln = None then Inr (None, s)
     else kbind (threadlist_removenode tln s) (\<lambda>s1.
          let s2 = add_count l (-1) s1 in Inr (tln_self s2 tln, s2)))"

definition threadlist_remtail :: "nat \<Rightarrow> tlstate \<Rightarrow> (nat option \<times> tlstate) res" where
  "threadlist_remtail l s =
     kbind (deref (tln_prev s (TLTail l))) (\<lambda>tln.
     if tln_prev s tln = None then Inr (None, s)
     else kbind (threadlist_removenode tln s) (\<lambda>s1.
          let s2 = add_count l (-1) s1 in Inr (tln_self s2 tln, s2)))"

definition threadlist_insertafter :: "nat \<Rightarrow> nat \<Rightarrow> nat \<Rightarrow> tlstate \<Rightarrow> tlstate res" where
  "threadlist_insertafter l onlist addee s =
     kbind (threadlist_insertafternode (TNode onlist) addee s) (\<lambda>s1. Inr (add_count l 1 s1))"

definition threadlist_insertbefore :: "nat \<Rightarrow> nat \<Rightarrow> nat \<Rightarrow> tlstate \<Rightarrow> tlstate res" where
  "threadlist_insertbefore l addee onlist s =
     kbind (threadlist_insertbeforenode addee (TNode onlist) s) (\<lambda>s1. Inr (add_count l 1 s1))"

definition threadlist_remove :: "nat \<Rightarrow> nat \<Rightarrow> tlstate \<Rightarrow> tlstate res" where
  "threadlist_remove l t s =
     kbind (threadlist_removenode (TNode t) s) (\<lambda>s1. Inr (add_count l (-1) s1))"

section \<open>Linked paths\<close>

fun linked :: "tlstate \<Rightarrow> tlnode list \<Rightarrow> bool" where
  "linked s (a # b # r) \<longleftrightarrow> tln_next s a = Some b \<and> tln_prev s b = Some a \<and> linked s (b # r)"
| "linked s _ \<longleftrightarrow> True"

lemma linked_append:
  "ps \<noteq> [] \<Longrightarrow> qs \<noteq> [] \<Longrightarrow> linked s (ps @ qs) \<longleftrightarrow>
     linked s ps \<and> linked s qs \<and> tln_next s (last ps) = Some (hd qs) \<and> tln_prev s (hd qs) = Some (last ps)"
proof (induction ps rule: induct_list012)
  case (2 a)
  then show ?case by (cases qs) auto
qed auto

lemma linked_cong:
  "\<forall>a \<in> set (butlast ps). tln_next s' a = tln_next s a \<Longrightarrow> \<forall>b \<in> set (tl ps). tln_prev s' b = tln_prev s b \<Longrightarrow>
   linked s' ps = linked s ps"
  by (induction ps rule: induct_list012) (auto split: if_splits)

text \<open>A list structure holds the threads \<open>ts\<close> in this order.\<close>

definition tl_nodes :: "nat \<Rightarrow> nat list \<Rightarrow> tlnode list" where
  "tl_nodes l ts = TLHead l # map TNode ts @ [TLTail l]"

definition tl_rep :: "tlstate \<Rightarrow> nat \<Rightarrow> nat list \<Rightarrow> bool" where
  "tl_rep s l ts \<longleftrightarrow> linked s (tl_nodes l ts) \<and> tln_prev s (TLHead l) = None \<and> tln_next s (TLTail l) = None \<and>
     tln_self s (TLHead l) = None \<and> tln_self s (TLTail l) = None \<and> (\<forall>t \<in> set ts. tln_self s (TNode t) = Some t) \<and>
     distinct ts \<and> unat (tl_count s l) = length ts"

text \<open>What an operation may change: the links of its own list and of the thread it moves.\<close>

definition links_kept :: "tlnode set \<Rightarrow> tlstate \<Rightarrow> tlstate \<Rightarrow> bool" where
  "links_kept N s s' \<longleftrightarrow> (\<forall>a. a \<notin> N \<longrightarrow> tln_next s' a = tln_next s a \<and> tln_prev s' a = tln_prev s a) \<and> tln_self s' = tln_self s"

lemma tl_rep_other:
  assumes "tl_rep s k us" and "links_kept N s s'" and "tl_count s' k = tl_count s k"
    and "set (tl_nodes k us) \<inter> N = {}"
  shows "tl_rep s' k us"
proof -
  have keep: "tln_next s' a = tln_next s a" "tln_prev s' a = tln_prev s a" if "a \<in> set (tl_nodes k us)" for a
    using assms(2,4) that by (auto simp: links_kept_def)
  have "linked s' (tl_nodes k us) = linked s (tl_nodes k us)"
    using keep by (intro linked_cong) (auto dest: in_set_butlastD list.set_sel(2) [rotated] simp: tl_nodes_def)
  then show ?thesis
    using assms(1-3) keep [of "TLHead k"] keep [of "TLTail k"] by (simp add: tl_rep_def links_kept_def tl_nodes_def)
qed

section \<open>Insertion and removal\<close>

lemmas set_links = set_prev_def set_next_def set_self_def add_count_def

definition linked_in :: "tlnode \<Rightarrow> tlnode \<Rightarrow> tlnode \<Rightarrow> tlstate \<Rightarrow> tlstate" where
  "linked_in a n b s = s\<lparr>tln_next := (tln_next s)(n := Some b, a := Some n), tln_prev := (tln_prev s)(n := Some a, b := Some n)\<rparr>"

definition taken_out :: "tlnode \<Rightarrow> tlnode \<Rightarrow> tlnode \<Rightarrow> tlstate \<Rightarrow> tlstate" where
  "taken_out a n b s = s\<lparr>tln_next := (tln_next s)(a := Some b, n := None), tln_prev := (tln_prev s)(b := Some a, n := None)\<rparr>"

lemma insertafternode_eq:
  assumes "tln_next s a = Some b" and "a \<noteq> TNode t" and "b \<noteq> TNode t"
  shows "threadlist_insertafternode a t s = Inr (linked_in a (TNode t) b s)"
  using assms by (simp add: threadlist_insertafternode_def linked_in_def set_links deref_def Let_def)

lemma insertbeforenode_eq:
  assumes "tln_prev s b = Some a" and "a \<noteq> TNode t" and "b \<noteq> TNode t"
  shows "threadlist_insertbeforenode t b s = Inr (linked_in a (TNode t) b s)"
  using assms by (simp add: threadlist_insertbeforenode_def linked_in_def set_links deref_def Let_def)

lemma removenode_eq:
  assumes "tln_prev s n = Some a" and "tln_next s n = Some b" and "a \<noteq> n" and "b \<noteq> n"
  shows "threadlist_removenode n s = Inr (taken_out a n b s)"
  using assms by (auto simp: threadlist_removenode_def taken_out_def set_links deref_def Let_def fun_upd_twist)

lemma last_notin_butlast: "distinct xs \<Longrightarrow> xs \<noteq> [] \<Longrightarrow> last xs \<notin> set (butlast xs)"
  by (induction xs rule: rev_induct) auto

lemma linked_linked_in:
  assumes path: "linked s (ps @ qs)" and ne: "ps \<noteq> []" "qs \<noteq> []" and dist: "distinct (ps @ qs)" "n \<notin> set (ps @ qs)"
  shows "linked (linked_in (last ps) n (hd qs) s) (ps @ n # qs)"
proof -
  let ?s = "linked_in (last ps) n (hd qs) s"
  have parts: "linked s ps" "linked s qs" using path linked_append [OF ne] by auto
  have sep: "last ps \<notin> set (butlast ps)" "last ps \<notin> set qs" "hd qs \<notin> set ps"
    using dist ne last_notin_butlast [of ps] by (auto simp: disjoint_iff)
  have "linked ?s ps"
    using parts(1) dist ne sep by (subst linked_cong [where s = s]) (auto simp: linked_in_def dest: in_set_butlastD list.set_sel(2) [rotated])
  moreover have "hd qs \<notin> set (tl qs)" using dist ne(2) by (cases qs) auto
  then have "linked ?s qs"
    using parts(2) dist ne sep by (subst linked_cong [where s = s]) (auto simp: linked_in_def dest: in_set_butlastD list.set_sel(2) [rotated])
  moreover have "last ps \<noteq> hd qs" "n \<noteq> last ps" "n \<noteq> hd qs" using dist sep last_in_set [OF ne(1)] hd_in_set [OF ne(2)] by auto
  ultimately show ?thesis using linked_append [OF ne(1), of "n # qs" ?s] ne by (cases qs) (auto simp: linked_in_def)
qed

lemma linked_taken_out:
  assumes path: "linked s (ps @ n # qs)" and ne: "ps \<noteq> []" "qs \<noteq> []" and dist: "distinct (ps @ n # qs)"
  shows "linked (taken_out (last ps) n (hd qs) s) (ps @ qs)"
    and "tln_prev s n = Some (last ps)" and "tln_next s n = Some (hd qs)"
proof -
  let ?s = "taken_out (last ps) n (hd qs) s"
  have parts: "linked s ps" "linked s (n # qs)" "tln_prev s n = Some (last ps)" using path linked_append [OF ne(1), of "n # qs" s] by auto
  then show "tln_prev s n = Some (last ps)" by simp
  have qs: "linked s qs" "tln_next s n = Some (hd qs)" using parts(2) ne(2) by (cases qs; simp)+
  then show "tln_next s n = Some (hd qs)" by simp
  have sep: "last ps \<notin> set (butlast ps)" "last ps \<notin> set qs" "hd qs \<notin> set ps"
    using dist ne last_notin_butlast [of ps] by (auto simp: disjoint_iff)
  have "linked ?s ps"
    using parts(1) dist ne sep by (subst linked_cong [where s = s]) (auto simp: taken_out_def dest: in_set_butlastD list.set_sel(2) [rotated])
  moreover have "hd qs \<notin> set (tl qs)" using dist ne(2) by (cases qs) auto
  then have "linked ?s qs"
    using qs(1) dist ne sep by (subst linked_cong [where s = s]) (auto simp: taken_out_def dest: in_set_butlastD list.set_sel(2) [rotated])
  moreover have "last ps \<noteq> hd qs" "n \<noteq> last ps" "n \<noteq> hd qs" using dist sep last_in_set [OF ne(1)] hd_in_set [OF ne(2)] by auto
  ultimately show "linked ?s (ps @ qs)" using linked_append [OF ne, of ?s] by (auto simp: taken_out_def)
qed

lemma tl_nodes_split: "tl_nodes l (us @ vs) = (TLHead l # map TNode us) @ (map TNode vs @ [TLTail l])"
  by (simp add: tl_nodes_def)

lemma tl_nodes_insert: "tl_nodes l (us @ t # vs) = (TLHead l # map TNode us) @ TNode t # (map TNode vs @ [TLTail l])"
  by (simp add: tl_nodes_def)

lemma distinct_tl_nodes: "distinct ts \<Longrightarrow> distinct (tl_nodes l ts)"
  by (auto simp: tl_nodes_def distinct_map inj_on_def)

abbreviation (input) node_before :: "nat \<Rightarrow> nat list \<Rightarrow> tlnode" where
  "node_before l us \<equiv> last (TLHead l # map TNode us)"

abbreviation (input) node_after :: "nat \<Rightarrow> nat list \<Rightarrow> tlnode" where
  "node_after l vs \<equiv> hd (map TNode vs @ [TLTail l])"

lemma node_before_in: "node_before l us \<in> set (TLHead l # map TNode us)"
  by (rule last_in_set) simp

lemma node_after_in: "node_after l vs \<in> set (map TNode vs @ [TLTail l])"
  by (rule hd_in_set) simp

text \<open>Putting a thread between \<open>us\<close> and \<open>vs\<close>.\<close>

lemma tl_rep_insert:
  assumes rep: "tl_rep s l (us @ vs)" and t: "t \<notin> set (us @ vs)" "tln_self s (TNode t) = Some t"
    and room: "length (us @ vs) + 1 < 2 ^ 32"
  defines "s' \<equiv> add_count l 1 (linked_in (node_before l us) (TNode t) (node_after l vs) s)"
  shows "tl_rep s' l (us @ t # vs)" "links_kept (set (tl_nodes l (us @ t # vs))) s s'" "\<And>k. k \<noteq> l \<Longrightarrow> tl_count s' k = tl_count s k"
    "tln_next s (node_before l us) = Some (node_after l vs)" "tln_prev s (node_after l vs) = Some (node_before l us)"
    "node_before l us \<noteq> TNode t" "node_after l vs \<noteq> TNode t"
proof -
  let ?ps = "TLHead l # map TNode us" and ?qs = "map TNode vs @ [TLTail l]"
  have ne: "?ps \<noteq> []" "?qs \<noteq> []" by simp_all
  have path: "linked s (?ps @ ?qs)" using rep unfolding tl_rep_def tl_nodes_split by blast
  have dist: "distinct (?ps @ ?qs)" using rep distinct_tl_nodes [of "us @ vs" l] by (simp add: tl_rep_def tl_nodes_def)
  have notin: "TNode t \<notin> set (?ps @ ?qs)" using t(1) by auto
  show adj: "tln_next s (node_before l us) = Some (node_after l vs)" "tln_prev s (node_after l vs) = Some (node_before l us)"
    using linked_append [OF ne, of s] path by auto
  show neq: "node_before l us \<noteq> TNode t" "node_after l vs \<noteq> TNode t"
    using notin node_before_in [of l us] node_after_in [of vs l] by (metis Un_iff set_append)+
  have "linked (linked_in (node_before l us) (TNode t) (node_after l vs) s) (tl_nodes l (us @ t # vs))"
    using linked_linked_in [OF path ne dist notin] by (simp only: tl_nodes_insert)
  then have lk: "linked s' (tl_nodes l (us @ t # vs))"
    by (subst linked_cong [where s = "linked_in (node_before l us) (TNode t) (node_after l vs) s"]) (simp_all add: s'_def add_count_def)
  have ends: "node_before l us \<noteq> TLTail l" "node_after l vs \<noteq> TLHead l"
    using node_before_in [of l us] node_after_in [of vs l] by auto
  have cnt: "unat (tl_count s l + 1) = Suc (length (us @ vs))"
    using rep room by (simp add: tl_rep_def unat_word_ariths)
  show "tl_rep s' l (us @ t # vs)"
    using rep lk t ends cnt by (auto simp: tl_rep_def) (auto simp: s'_def add_count_def linked_in_def)
  show "links_kept (set (tl_nodes l (us @ t # vs))) s s'"
    using node_before_in [of l us] node_after_in [of vs l]
    by (auto simp: links_kept_def s'_def add_count_def linked_in_def tl_nodes_insert)
  show "tl_count s' k = tl_count s k" if "k \<noteq> l" for k using that by (simp add: s'_def add_count_def linked_in_def)
qed

text \<open>Taking the thread between \<open>us\<close> and \<open>vs\<close> out.\<close>

lemma tl_rep_remove:
  assumes rep: "tl_rep s l (us @ t # vs)"
  defines "s1 \<equiv> taken_out (node_before l us) (TNode t) (node_after l vs) s"
  defines "s' \<equiv> add_count l (-1) s1"
  shows "threadlist_removenode (TNode t) s = Inr s1" "tl_rep s' l (us @ vs)"
    "links_kept (set (tl_nodes l (us @ t # vs))) s s'" "\<And>k. k \<noteq> l \<Longrightarrow> tl_count s' k = tl_count s k"
    "tln_next s' (TNode t) = None" "tln_prev s' (TNode t) = None" "tln_self s' (TNode t) = Some t"
proof -
  let ?ps = "TLHead l # map TNode us" and ?qs = "map TNode vs @ [TLTail l]"
  have ne: "?ps \<noteq> []" "?qs \<noteq> []" by simp_all
  have path: "linked s (?ps @ TNode t # ?qs)" using rep unfolding tl_rep_def tl_nodes_insert by blast
  have dist: "distinct (?ps @ TNode t # ?qs)"
    using rep distinct_tl_nodes [of "us @ t # vs" l] by (simp add: tl_rep_def tl_nodes_def)
  note out = linked_taken_out [OF path ne dist]
  have neq: "node_before l us \<noteq> TNode t" "node_after l vs \<noteq> TNode t"
    using dist node_before_in [of l us] node_after_in [of vs l] by auto
  show "threadlist_removenode (TNode t) s = Inr s1" unfolding s1_def by (rule removenode_eq [OF out(2,3) neq])
  have "linked s1 (tl_nodes l (us @ vs))" using out(1) by (simp only: s1_def tl_nodes_split)
  then have lk: "linked s' (tl_nodes l (us @ vs))"
    by (subst linked_cong [where s = s1]) (simp_all add: s'_def add_count_def)
  have ends: "node_before l us \<noteq> TLTail l" "node_after l vs \<noteq> TLHead l"
    using node_before_in [of l us] node_after_in [of vs l] by auto
  have "unat (tl_count s l) = Suc (length (us @ vs))" using rep by (simp add: tl_rep_def)
  then have cnt: "unat (tl_count s l - 1) = length (us @ vs)" by (subst unat_sub) (auto simp: word_le_nat_alt)
  show "tl_rep s' l (us @ vs)"
    using rep lk ends cnt by (auto simp: tl_rep_def) (auto simp: s'_def s1_def add_count_def taken_out_def)
  show "links_kept (set (tl_nodes l (us @ t # vs))) s s'"
    using node_before_in [of l us] node_after_in [of vs l]
    by (auto simp: links_kept_def s'_def s1_def add_count_def taken_out_def tl_nodes_insert)
  show "tl_count s' k = tl_count s k" if "k \<noteq> l" for k using that by (simp add: s'_def s1_def add_count_def taken_out_def)
  show "tln_next s' (TNode t) = None" "tln_prev s' (TNode t) = None" "tln_self s' (TNode t) = Some t"
    using rep neq by (simp_all add: s'_def s1_def add_count_def taken_out_def tl_rep_def)
qed

section \<open>The operations on sequences\<close>

text \<open>Lists other than \<open>l\<close> that share no thread with it, nor hold \<open>t\<close>, are unchanged.\<close>

definition others_kept :: "nat \<Rightarrow> nat set \<Rightarrow> tlstate \<Rightarrow> tlstate \<Rightarrow> bool" where
  "others_kept l T s s' \<longleftrightarrow> (\<forall>k us. k \<noteq> l \<and> set us \<inter> T = {} \<and> tl_rep s k us \<longrightarrow> tl_rep s' k us)"

lemma others_keptI:
  assumes "links_kept (set (tl_nodes l ts)) s s'" and "\<And>k. k \<noteq> l \<Longrightarrow> tl_count s' k = tl_count s k"
  shows "others_kept l (set ts) s s'"
  unfolding others_kept_def
proof (intro allI impI)
  fix k us assume *: "k \<noteq> l \<and> set us \<inter> set ts = {} \<and> tl_rep s k us"
  show "tl_rep s' k us"
    by (rule tl_rep_other [OF _ assms(1)]) (use * assms(2) in \<open>auto simp: tl_nodes_def\<close>)
qed

lemma threadlist_init_rep: "tl_rep (threadlist_init l s) l []"
  by (simp add: threadlist_init_def tl_rep_def tl_nodes_def set_links Let_def)

lemma threadlist_addhead_rep:
  assumes "tl_rep s l ts" and "t \<notin> set ts" and "tln_self s (TNode t) = Some t" and "length ts + 1 < 2 ^ 32"
  shows "\<exists>s'. threadlist_addhead l t s = Inr s' \<and> tl_rep s' l (t # ts) \<and> others_kept l (insert t (set ts)) s s'"
proof -
  have *: "tl_rep s l ([] @ ts)" "t \<notin> set ([] @ ts)" "length ([] @ ts) + 1 < 2 ^ 32" using assms by simp_all
  note ins = tl_rep_insert [OF *(1,2) assms(3) *(3)]
  have "threadlist_addhead l t s = Inr (add_count l 1 (linked_in (TLHead l) (TNode t) (node_after l ts) s))"
    using insertafternode_eq [OF ins(4,6,7)] by (simp add: threadlist_addhead_def)
  then show ?thesis using ins(1) others_keptI [OF ins(2,3)] by simp
qed

lemma threadlist_addtail_rep:
  assumes "tl_rep s l ts" and "t \<notin> set ts" and "tln_self s (TNode t) = Some t" and "length ts + 1 < 2 ^ 32"
  shows "\<exists>s'. threadlist_addtail l t s = Inr s' \<and> tl_rep s' l (ts @ [t]) \<and> others_kept l (insert t (set ts)) s s'"
proof -
  have *: "tl_rep s l (ts @ [])" "t \<notin> set (ts @ [])" "length (ts @ []) + 1 < 2 ^ 32" using assms by simp_all
  note ins = tl_rep_insert [OF *(1,2) assms(3) *(3)]
  have "threadlist_addtail l t s = Inr (add_count l 1 (linked_in (node_before l ts) (TNode t) (TLTail l) s))"
    using insertbeforenode_eq [OF ins(5,6,7)] by (simp add: threadlist_addtail_def)
  then show ?thesis using ins(1) others_keptI [OF ins(2,3)] by simp
qed

lemma threadlist_insertafter_rep:
  assumes "tl_rep s l (us @ o1 # vs)" and "t \<notin> set (us @ o1 # vs)" and "tln_self s (TNode t) = Some t"
    and "length (us @ o1 # vs) + 1 < 2 ^ 32"
  shows "\<exists>s'. threadlist_insertafter l o1 t s = Inr s' \<and> tl_rep s' l (us @ o1 # t # vs)"
proof -
  have *: "tl_rep s l ((us @ [o1]) @ vs)" "t \<notin> set ((us @ [o1]) @ vs)" "length ((us @ [o1]) @ vs) + 1 < 2 ^ 32" using assms by simp_all
  note ins = tl_rep_insert [OF *(1,2) assms(3) *(3)]
  show ?thesis using insertafternode_eq [OF ins(4,6,7)] ins(1) by (simp add: threadlist_insertafter_def)
qed

lemma threadlist_insertbefore_rep:
  assumes "tl_rep s l (us @ o1 # vs)" and "t \<notin> set (us @ o1 # vs)" and "tln_self s (TNode t) = Some t"
    and "length (us @ o1 # vs) + 1 < 2 ^ 32"
  shows "\<exists>s'. threadlist_insertbefore l t o1 s = Inr s' \<and> tl_rep s' l (us @ t # o1 # vs)"
proof -
  note ins = tl_rep_insert [OF assms]
  show ?thesis using insertbeforenode_eq [OF ins(5,6,7)] ins(1) by (simp add: threadlist_insertbefore_def)
qed

lemma threadlist_remhead_rep:
  assumes "tl_rep s l ts"
  shows "case ts of [] \<Rightarrow> threadlist_remhead l s = Inr (None, s)
    | t # us \<Rightarrow> \<exists>s'. threadlist_remhead l s = Inr (Some t, s') \<and> tl_rep s' l us \<and> others_kept l (set ts) s s' \<and>
        tln_next s' (TNode t) = None \<and> tln_prev s' (TNode t) = None"
proof (cases ts)
  case Nil
  then show ?thesis using assms by (simp add: tl_rep_def tl_nodes_def threadlist_remhead_def deref_def)
next
  case (Cons t us)
  have "tl_rep s l ([] @ t # us)" using assms Cons by simp
  note rem = tl_rep_remove [OF this]
  have hd: "tln_next s (TLHead l) = Some (TNode t)" "tln_next s (TNode t) \<noteq> None"
    using assms Cons by (cases us; simp add: tl_rep_def tl_nodes_def)+
  then show ?thesis using Cons rem(1,2,5,6,7) others_keptI [OF rem(3,4)]
    by (simp add: threadlist_remhead_def deref_def Let_def)
qed

lemma threadlist_remtail_rep:
  assumes "tl_rep s l (us @ [t])"
  shows "\<exists>s'. threadlist_remtail l s = Inr (Some t, s') \<and> tl_rep s' l us \<and> others_kept l (set (us @ [t])) s s'"
proof -
  note rem = tl_rep_remove [OF assms]
  have l: "linked s ((TLHead l # map TNode us) @ [TNode t, TLTail l])" using assms by (simp add: tl_rep_def tl_nodes_def)
  have "tln_prev s (TLTail l) = Some (TNode t)" "tln_prev s (TNode t) \<noteq> None"
    using l linked_append [of "TLHead l # map TNode us" "[TNode t, TLTail l]" s] by auto
  then show ?thesis using rem(1,2,7) others_keptI [OF rem(3,4)]
    by (simp add: threadlist_remtail_def deref_def Let_def)
qed

lemma threadlist_remtail_empty: "tl_rep s l [] \<Longrightarrow> threadlist_remtail l s = Inr (None, s)"
  by (simp add: tl_rep_def tl_nodes_def threadlist_remtail_def deref_def)

lemma threadlist_remove_rep:
  assumes "tl_rep s l (us @ t # vs)"
  shows "\<exists>s'. threadlist_remove l t s = Inr s' \<and> tl_rep s' l (us @ vs) \<and> others_kept l (set (us @ t # vs)) s s'"
  using tl_rep_remove(1,2) [OF assms] others_keptI [OF tl_rep_remove(3,4) [OF assms]] by (simp add: threadlist_remove_def)

lemma threadlist_isempty_rep: "tl_rep s l ts \<Longrightarrow> threadlist_isempty l s \<longleftrightarrow> ts = []"
  by (auto simp: tl_rep_def threadlist_isempty_def unat_eq_0)

end
