(* ===== verification/Synch.thy ===== *)
theory Synch
  imports Prelude
begin

text \<open>
  Semaphores, locks and condition variables of \<open>kern/thread/synch.c\<close> under concurrency. A code
  section that runs under a spinlock is one function on the state; threads interleave at the
  boundaries of these sections and at the statements outside them, as \<open>inductive\<close> step
  relations. A wait channel is the queue of threads that \<open>thread.c\<close> keeps in it: going to sleep
  appends, waking one takes the head. Callers are threads outside interrupt handlers that pass
  objects that exist, so the assertions on that are left out.
\<close>

section \<open>Semaphores\<close>

text \<open>
  Where a thread is: outside, at the test of the loop in \<open>P\<close> (running or runnable, about to
  take the spinlock), or asleep on the channel. \<open>p_done\<close> and \<open>v_done\<close> count the finished
  operations.
\<close>

datatype spc = SOut | STrying | SAsleep

record semaphore =
  sem_count :: u32
  sem_wchan :: "nat list"
  sem_pc :: "nat \<Rightarrow> spc"
  p_done :: nat
  v_done :: nat

definition sem_init :: "u32 \<Rightarrow> semaphore" where
  "sem_init initial_count = \<lparr>sem_count = initial_count, sem_wchan = [], sem_pc = (\<lambda>_. SOut), p_done = 0, v_done = 0\<rparr>"

text \<open>One round of the loop in \<open>P\<close>: the test, then \<open>wchan_sleep\<close> or the decrement.\<close>

definition P_section :: "nat \<Rightarrow> semaphore \<Rightarrow> semaphore" where
  "P_section t s =
     (if sem_count s = 0 then s\<lparr>sem_wchan := sem_wchan s @ [t], sem_pc := (sem_pc s)(t := SAsleep)\<rparr>
      else s\<lparr>sem_count := sem_count s - 1, sem_pc := (sem_pc s)(t := SOut), p_done := p_done s + 1\<rparr>)"

definition sem_wakeone :: "semaphore \<Rightarrow> semaphore" where
  "sem_wakeone s =
     (case sem_wchan s of
        [] \<Rightarrow> s
      | target # rest \<Rightarrow> s\<lparr>sem_wchan := rest, sem_pc := (sem_pc s)(target := STrying)\<rparr>)"

definition V_section :: "semaphore \<Rightarrow> semaphore res" where
  "V_section s =
     (let s1 = s\<lparr>sem_count := sem_count s + 1\<rparr> in
      kbind (kassert (sem_count s1 > 0) ''sem->sem_count > 0'') (\<lambda>_.
      Inr ((sem_wakeone s1)\<lparr>v_done := v_done s + 1\<rparr>)))"

text \<open>\<open>V\<close> may also be called by an interrupt handler, so its step names no thread.\<close>

inductive sem_step :: "semaphore \<Rightarrow> semaphore \<Rightarrow> bool" where
  call_P: "sem_pc s t = SOut \<Longrightarrow> sem_step s (s\<lparr>sem_pc := (sem_pc s)(t := STrying)\<rparr>)"
| run_P: "sem_pc s t = STrying \<Longrightarrow> sem_step s (P_section t s)"
| run_V: "V_section s = Inr s' \<Longrightarrow> sem_step s s'"

inductive sem_reach :: "u32 \<Rightarrow> semaphore \<Rightarrow> bool" for n where
  init: "sem_reach n (sem_init n)"
| step: "sem_reach n s \<Longrightarrow> sem_step s s' \<Longrightarrow> sem_reach n s'"

definition sem_trying :: "semaphore \<Rightarrow> nat set" where
  "sem_trying s = {t. sem_pc s t = STrying}"

definition sem_inv :: "u32 \<Rightarrow> semaphore \<Rightarrow> bool" where
  "sem_inv n s \<longleftrightarrow> unat (sem_count s) + p_done s = unat n + v_done s \<and>
     distinct (sem_wchan s) \<and> set (sem_wchan s) = {t. sem_pc s t = SAsleep} \<and> finite (sem_trying s) \<and>
     (sem_wchan s \<noteq> [] \<longrightarrow> unat (sem_count s) \<le> card (sem_trying s))"

lemma sem_trying_upd:
  "sem_trying (s\<lparr>sem_pc := (sem_pc s)(t := STrying)\<rparr>) = insert t (sem_trying s)"
  "p \<noteq> STrying \<Longrightarrow> sem_trying (s\<lparr>sem_pc := (sem_pc s)(t := p)\<rparr>) = sem_trying s - {t}"
  by (auto simp: sem_trying_def)

lemma sem_invD:
  assumes "sem_inv n s"
  shows "unat (sem_count s) + p_done s = unat n + v_done s" "distinct (sem_wchan s)"
    "\<And>t. t \<in> set (sem_wchan s) \<longleftrightarrow> sem_pc s t = SAsleep" "finite (sem_trying s)"
    "sem_wchan s \<noteq> [] \<Longrightarrow> unat (sem_count s) \<le> card (sem_trying s)"
  using assms unfolding sem_inv_def by blast+

lemma sem_invI:
  assumes "unat (sem_count s) + p_done s = unat n + v_done s" and "distinct (sem_wchan s)"
    and "\<And>t. t \<in> set (sem_wchan s) \<longleftrightarrow> sem_pc s t = SAsleep" and "finite (sem_trying s)"
    and "sem_wchan s \<noteq> [] \<Longrightarrow> unat (sem_count s) \<le> card (sem_trying s)"
  shows "sem_inv n s"
  using assms unfolding sem_inv_def by blast

lemma sem_inv_P:
  assumes inv: "sem_inv n s" and t: "sem_pc s t = STrying"
  shows "sem_inv n (P_section t s)"
proof -
  note d = sem_invD [OF inv]
  have notin: "t \<notin> set (sem_wchan s)" and tin: "t \<in> sem_trying s" using d(3) [of t] t by (simp_all add: sem_trying_def)
  show ?thesis
  proof (cases "sem_count s = 0")
    case True
    then have s': "P_section t s = s\<lparr>sem_wchan := sem_wchan s @ [t], sem_pc := (sem_pc s)(t := SAsleep)\<rparr>" by (simp add: P_section_def)
    have "sem_trying (P_section t s) = sem_trying s - {t}" unfolding s' by (auto simp: sem_trying_def)
    then show ?thesis using d(1,2,4) d(3) notin True unfolding s' by (intro sem_invI) (simp_all add: sem_trying_def)
  next
    case False
    then have s': "P_section t s = s\<lparr>sem_count := sem_count s - 1, sem_pc := (sem_pc s)(t := SOut), p_done := p_done s + 1\<rparr>"
      by (simp add: P_section_def)
    have c: "unat (sem_count s - 1) = unat (sem_count s) - 1" "0 < unat (sem_count s)"
      using False by (auto simp: unat_gt_0 unat_minus_one)
    have tr: "sem_trying (P_section t s) = sem_trying s - {t}" unfolding s' by (auto simp: sem_trying_def)
    have card: "card (sem_trying s - {t}) = card (sem_trying s) - 1" using d(4) tin by simp
    show ?thesis
    proof (rule sem_invI)
      show "unat (sem_count (P_section t s)) + p_done (P_section t s) = unat n + v_done (P_section t s)"
        using d(1) c unfolding s' by simp
      show "x \<in> set (sem_wchan (P_section t s)) \<longleftrightarrow> sem_pc (P_section t s) x = SAsleep" for x
        using d(3) [of x] notin unfolding s' by auto
      show "finite (sem_trying (P_section t s))" using tr d(4) by simp
      show "unat (sem_count (P_section t s)) \<le> card (sem_trying (P_section t s))" if "sem_wchan (P_section t s) \<noteq> []"
        using d(5) that c unfolding tr card by (simp add: s')
    qed (use d(2) in \<open>simp add: s'\<close>)
  qed
qed

lemma sem_inv_V:
  assumes inv: "sem_inv n s" and run: "V_section s = Inr s'"
  shows "sem_inv n s'"
proof -
  note d = sem_invD [OF inv]
  have "sem_count s + 1 \<noteq> 0" using run by (auto simp: V_section_def Let_def)
  then have c: "unat (sem_count s + 1) = Suc (unat (sem_count s))" using unatSuc [of "sem_count s"] by (simp add: add.commute)
  show ?thesis
  proof (cases "sem_wchan s")
    case Nil
    then have s': "s' = s\<lparr>sem_count := sem_count s + 1, v_done := v_done s + 1\<rparr>"
      using run by (auto simp: V_section_def Let_def sem_wakeone_def)
    show ?thesis using d(1,2,4) d(3) c Nil unfolding s' by (intro sem_invI) (simp_all add: sem_trying_def)
  next
    case (Cons w ws)
    have s': "s' = s\<lparr>sem_count := sem_count s + 1, sem_wchan := ws, sem_pc := (sem_pc s)(w := STrying), v_done := v_done s + 1\<rparr>"
      using run Cons by (auto simp: V_section_def Let_def sem_wakeone_def)
    have w: "sem_pc s w = SAsleep" "w \<notin> set ws" "distinct ws" using d(2) d(3) [of w] Cons by simp_all
    have tr: "sem_trying s' = insert w (sem_trying s)" unfolding s' by (auto simp: sem_trying_def)
    have card: "card (insert w (sem_trying s)) = Suc (card (sem_trying s))" using w(1) d(4) by (simp add: sem_trying_def)
    show ?thesis
    proof (rule sem_invI)
      show "x \<in> set (sem_wchan s') \<longleftrightarrow> sem_pc s' x = SAsleep" for x using d(3) [of x] Cons w(1,2) unfolding s' by auto
      show "finite (sem_trying s')" using tr d(4) by simp
      show "unat (sem_count s') \<le> card (sem_trying s')" unfolding tr card using d(5) Cons c by (simp add: s')
    qed (use d(1) w(3) c in \<open>simp_all add: s'\<close>)
  qed
qed

lemma sem_reach_inv: "sem_reach n s \<Longrightarrow> sem_inv n s"
proof (induction rule: sem_reach.induct)
  case init
  show ?case by (simp add: sem_init_def sem_inv_def sem_trying_def)
next
  case (step s s')
  from step.hyps(2) step.IH show ?case
  proof (cases rule: sem_step.cases)
    case (call_P t)
    have "card (sem_trying s) \<le> card (insert t (sem_trying s))" using step.IH by (intro card_mono) (auto simp: sem_inv_def)
    moreover have "sem_trying s' = insert t (sem_trying s)" using call_P by (simp add: sem_trying_upd)
    ultimately show ?thesis using sem_invD [OF step.IH] call_P by (intro sem_invI) (auto split: if_splits)
  qed (auto intro: sem_inv_P sem_inv_V)
qed

section \<open>Locks and condition variables\<close>

text \<open>
  One lock with one condition variable. A thread is outside; at the test of the loop in
  \<open>lock_acquire\<close>; asleep there; past that loop, with the assignment to \<open>owner\<close> after the
  spinlock is released still to come; inside; in \<open>lock_release\<close> after \<open>owner\<close> is cleared. In
  \<open>cv_wait\<close> it is before, in and after the call of \<open>lock_release\<close>, with \<open>cv_lock\<close> held; then
  asleep on the channel, and woken, about to take \<open>cv_lock\<close> again.
\<close>

datatype lpc = Out | Trying | LAsleep | Got | Inside | Leaving | CvEntered | CvLeaving | CvLeft | CvAsleep | CvWoken

record monitor =
  available :: bool
  owner :: "nat option"
  lk_wchan :: "nat list"
  cv_holder :: "nat option"
  cv_wchan :: "nat list"
  m_pc :: "nat \<Rightarrow> lpc"

text \<open>\<open>lock_create\<close> does not initialise \<open>owner\<close>: it is whatever was in the memory.\<close>

definition mon_init :: "nat option \<Rightarrow> monitor" where
  "mon_init junk = \<lparr>available = True, owner = junk, lk_wchan = [], cv_holder = None, cv_wchan = [], m_pc = (\<lambda>_. Out)\<rparr>"

definition goto :: "nat \<Rightarrow> lpc \<Rightarrow> monitor \<Rightarrow> monitor" where
  "goto t p m = m\<lparr>m_pc := (m_pc m)(t := p)\<rparr>"

definition lock_acquire_section :: "nat \<Rightarrow> monitor \<Rightarrow> monitor res" where
  "lock_acquire_section t m =
     (if \<not> available m then Inr (goto t LAsleep (m\<lparr>lk_wchan := lk_wchan m @ [t]\<rparr>))
      else kbind (kassert (available m) ''lock->available==true'') (\<lambda>_.
           Inr (goto t Got (m\<lparr>available := False, owner := Some t\<rparr>))))"

definition lock_acquire_tail :: "nat \<Rightarrow> monitor \<Rightarrow> monitor" where
  "lock_acquire_tail t m = goto t Inside (m\<lparr>owner := Some t\<rparr>)"

definition lock_do_i_hold :: "nat \<Rightarrow> monitor \<Rightarrow> bool" where
  "lock_do_i_hold t m = (owner m = Some t)"

text \<open>\<open>lock_release\<close> up to its spinlock, and under it; the last argument is where it was called.\<close>

definition lock_release_head :: "nat \<Rightarrow> lpc \<Rightarrow> monitor \<Rightarrow> monitor res" where
  "lock_release_head t p m =
     kbind (kassert (lock_do_i_hold t m) ''lock_do_i_hold(lock)'') (\<lambda>_. Inr (goto t p (m\<lparr>owner := None\<rparr>)))"

definition lock_release_section :: "nat \<Rightarrow> lpc \<Rightarrow> monitor \<Rightarrow> monitor" where
  "lock_release_section t p m =
     (let m1 = m\<lparr>available := True\<rparr>;
          m2 = (case lk_wchan m1 of [] \<Rightarrow> m1 | target # rest \<Rightarrow> goto target Trying (m1\<lparr>lk_wchan := rest\<rparr>))
      in goto t p m2)"

definition cv_wait_enter :: "nat \<Rightarrow> monitor \<Rightarrow> monitor" where
  "cv_wait_enter t m = goto t CvEntered (m\<lparr>cv_holder := Some t\<rparr>)"

definition cv_wait_sleep :: "nat \<Rightarrow> monitor \<Rightarrow> monitor" where
  "cv_wait_sleep t m = goto t CvAsleep (m\<lparr>cv_wchan := cv_wchan m @ [t], cv_holder := None\<rparr>)"

definition cv_signal_section :: "nat \<Rightarrow> monitor \<Rightarrow> monitor res" where
  "cv_signal_section t m =
     kbind (kassert (lock_do_i_hold t m) ''lock_do_i_hold(lock)'') (\<lambda>_.
     Inr (case cv_wchan m of [] \<Rightarrow> m | target # rest \<Rightarrow> goto target CvWoken (m\<lparr>cv_wchan := rest\<rparr>)))"

definition cv_broadcast_section :: "nat \<Rightarrow> monitor \<Rightarrow> monitor res" where
  "cv_broadcast_section t m =
     kbind (kassert (lock_do_i_hold t m) ''lock_do_i_hold(lock)'') (\<lambda>_.
     kbind (kassert (lock_do_i_hold t m) ''lock_do_i_hold(lock)'') (\<lambda>_.
     Inr ((fold (\<lambda>target. goto target CvWoken) (cv_wchan m) m)\<lparr>cv_wchan := []\<rparr>)))"

inductive mon_step :: "monitor \<Rightarrow> monitor res \<Rightarrow> bool" where
  call: "m_pc m t = Out \<Longrightarrow> mon_step m (Inr (goto t Trying m))"
| acquire: "m_pc m t = Trying \<Longrightarrow> mon_step m (lock_acquire_section t m)"
| own: "m_pc m t = Got \<Longrightarrow> mon_step m (Inr (lock_acquire_tail t m))"
| release: "m_pc m t = Inside \<Longrightarrow> mon_step m (lock_release_head t Leaving m)"
| leave: "m_pc m t = Leaving \<Longrightarrow> mon_step m (Inr (lock_release_section t Out m))"
| cv_wait: "m_pc m t = Inside \<Longrightarrow> cv_holder m = None \<Longrightarrow> mon_step m (Inr (cv_wait_enter t m))"
| cv_release: "m_pc m t = CvEntered \<Longrightarrow> mon_step m (lock_release_head t CvLeaving m)"
| cv_leave: "m_pc m t = CvLeaving \<Longrightarrow> mon_step m (Inr (lock_release_section t CvLeft m))"
| cv_sleep: "m_pc m t = CvLeft \<Longrightarrow> mon_step m (Inr (cv_wait_sleep t m))"
| cv_return: "m_pc m t = CvWoken \<Longrightarrow> cv_holder m = None \<Longrightarrow> mon_step m (Inr (goto t Trying m))"
| cv_signal: "m_pc m t = Inside \<Longrightarrow> cv_holder m = None \<Longrightarrow> mon_step m (cv_signal_section t m)"
| cv_broadcast: "m_pc m t = Inside \<Longrightarrow> cv_holder m = None \<Longrightarrow> mon_step m (cv_broadcast_section t m)"

inductive mon_reach :: "monitor \<Rightarrow> bool" where
  init: "mon_reach (mon_init junk)"
| step: "mon_reach m \<Longrightarrow> mon_step m (Inr m') \<Longrightarrow> mon_reach m'"

text \<open>The places where a thread has the lock.\<close>

fun has_lock :: "lpc \<Rightarrow> bool" where
  "has_lock p = (p = Got \<or> p = Inside \<or> p = Leaving \<or> p = CvEntered \<or> p = CvLeaving)"

text \<open>The places where \<open>cv_lock\<close> is held across steps.\<close>

fun has_cv_lock :: "lpc \<Rightarrow> bool" where
  "has_cv_lock p = (p = CvEntered \<or> p = CvLeaving \<or> p = CvLeft)"

definition mon_inv :: "monitor \<Rightarrow> bool" where
  "mon_inv m \<longleftrightarrow>
     (\<forall>t. available m \<longrightarrow> \<not> has_lock (m_pc m t)) \<and> (\<not> available m \<longrightarrow> (\<exists>t. has_lock (m_pc m t))) \<and>
     (\<forall>t u. has_lock (m_pc m t) \<longrightarrow> has_lock (m_pc m u) \<longrightarrow> t = u) \<and>
     (\<forall>t. m_pc m t = Got \<or> m_pc m t = Inside \<or> m_pc m t = CvEntered \<longrightarrow> owner m = Some t) \<and>
     (\<forall>t. t \<in> set (lk_wchan m) \<longleftrightarrow> m_pc m t = LAsleep) \<and> distinct (lk_wchan m) \<and>
     (\<forall>t. t \<in> set (cv_wchan m) \<longleftrightarrow> m_pc m t = CvAsleep) \<and> distinct (cv_wchan m) \<and>
     (\<forall>t. has_cv_lock (m_pc m t) \<longleftrightarrow> cv_holder m = Some t) \<and>
     (available m \<and> lk_wchan m \<noteq> [] \<longrightarrow> (\<exists>t. m_pc m t = Trying))"

lemma mon_invD:
  assumes "mon_inv m"
  shows "available m \<Longrightarrow> \<not> has_lock (m_pc m t)" "\<not> available m \<Longrightarrow> \<exists>t. has_lock (m_pc m t)"
    "has_lock (m_pc m t) \<Longrightarrow> has_lock (m_pc m u) \<Longrightarrow> t = u"
    "m_pc m t = Got \<or> m_pc m t = Inside \<or> m_pc m t = CvEntered \<Longrightarrow> owner m = Some t"
    "t \<in> set (lk_wchan m) \<longleftrightarrow> m_pc m t = LAsleep" "distinct (lk_wchan m)"
    "t \<in> set (cv_wchan m) \<longleftrightarrow> m_pc m t = CvAsleep" "distinct (cv_wchan m)"
    "has_cv_lock (m_pc m t) \<longleftrightarrow> cv_holder m = Some t"
    "available m \<Longrightarrow> lk_wchan m \<noteq> [] \<Longrightarrow> \<exists>t. m_pc m t = Trying"
  using assms unfolding mon_inv_def by blast+

lemma mon_invI:
  assumes "\<And>t. available m \<Longrightarrow> \<not> has_lock (m_pc m t)" and "\<not> available m \<Longrightarrow> \<exists>t. has_lock (m_pc m t)"
    and "\<And>t u. has_lock (m_pc m t) \<Longrightarrow> has_lock (m_pc m u) \<Longrightarrow> t = u"
    and "\<And>t. m_pc m t = Got \<or> m_pc m t = Inside \<or> m_pc m t = CvEntered \<Longrightarrow> owner m = Some t"
    and "\<And>t. t \<in> set (lk_wchan m) \<longleftrightarrow> m_pc m t = LAsleep" and "distinct (lk_wchan m)"
    and "\<And>t. t \<in> set (cv_wchan m) \<longleftrightarrow> m_pc m t = CvAsleep" and "distinct (cv_wchan m)"
    and "\<And>t. has_cv_lock (m_pc m t) \<longleftrightarrow> cv_holder m = Some t"
    and "available m \<Longrightarrow> lk_wchan m \<noteq> [] \<Longrightarrow> \<exists>t. m_pc m t = Trying"
  shows "mon_inv m"
  using assms unfolding mon_inv_def by blast

lemma goto_simps [simp]:
  "available (goto t p m) = available m" "owner (goto t p m) = owner m" "lk_wchan (goto t p m) = lk_wchan m"
  "cv_holder (goto t p m) = cv_holder m" "cv_wchan (goto t p m) = cv_wchan m" "m_pc (goto t p m) = (m_pc m)(t := p)"
  by (simp_all add: goto_def)

lemma mon_inv_init: "mon_inv (mon_init junk)"
  by (rule mon_invI) (simp_all add: mon_init_def)

text \<open>A step of one thread between places that do not matter to the queues.\<close>

lemma mon_inv_goto_trying:
  assumes inv: "mon_inv m" and t: "m_pc m t = Out \<or> m_pc m t = CvWoken"
  shows "mon_inv (goto t Trying m)"
proof (rule mon_invI)
  note d = mon_invD [OF inv]
  show "available (goto t Trying m) \<Longrightarrow> \<not> has_lock (m_pc (goto t Trying m) u)" for u using d(1) [of u] by simp
  show "\<exists>u. has_lock (m_pc (goto t Trying m) u)" if na: "\<not> available (goto t Trying m)"
  proof -
    obtain u where "has_lock (m_pc m u)" using d(2) na by (metis goto_simps(1))
    then show ?thesis using t by (intro exI [of _ u]) auto
  qed
  show "u = v" if "has_lock (m_pc (goto t Trying m) u)" "has_lock (m_pc (goto t Trying m) v)" for u v
    using d(3) [of u v] that by (simp split: if_splits)
  show "owner (goto t Trying m) = Some u"
    if "m_pc (goto t Trying m) u = Got \<or> m_pc (goto t Trying m) u = Inside \<or> m_pc (goto t Trying m) u = CvEntered" for u
    using d(4) [of u] that by (simp split: if_splits)
  show "u \<in> set (lk_wchan (goto t Trying m)) \<longleftrightarrow> m_pc (goto t Trying m) u = LAsleep" for u using d(5) [of u] t by auto
  show "u \<in> set (cv_wchan (goto t Trying m)) \<longleftrightarrow> m_pc (goto t Trying m) u = CvAsleep" for u using d(7) [of u] t by auto
  show "has_cv_lock (m_pc (goto t Trying m) u) \<longleftrightarrow> cv_holder (goto t Trying m) = Some u" for u using d(9) [of u] t by auto
qed (use mon_invD(6,8) [OF inv] in auto)

lemma mon_inv_acquire:
  assumes inv: "mon_inv m" and t: "m_pc m t = Trying" and run: "lock_acquire_section t m = Inr m'"
  shows "mon_inv m'"
proof (cases "available m")
  case True
  note d = mon_invD [OF inv]
  have m': "m' = goto t Got (m\<lparr>available := False, owner := Some t\<rparr>)" using run True by (simp add: lock_acquire_section_def)
  have free: "\<not> has_lock (m_pc m u)" for u using d(1) True by blast
  have others: "m_pc m u \<noteq> Got \<and> m_pc m u \<noteq> Inside \<and> m_pc m u \<noteq> Leaving \<and> m_pc m u \<noteq> CvEntered \<and> m_pc m u \<noteq> CvLeaving" for u
    using free [of u] by simp
  have nocv: "cv_holder m \<noteq> Some t" using d(9) [of t] t by auto
  show ?thesis unfolding m'
    by (rule mon_invI) (use d(5-9) others t nocv in \<open>auto split: if_splits\<close>)
next
  case False
  note d = mon_invD [OF inv]
  have m': "m' = goto t LAsleep (m\<lparr>lk_wchan := lk_wchan m @ [t]\<rparr>)" using run False by (simp add: lock_acquire_section_def)
  have notin: "t \<notin> set (lk_wchan m)" using d(5) [of t] t by simp
  obtain w where w: "has_lock (m_pc m w)" using d(2) False by blast
  then have "w \<noteq> t" using t by auto
  show ?thesis unfolding m'
  proof (rule mon_invI)
    show "\<exists>u. has_lock (m_pc (goto t LAsleep (m\<lparr>lk_wchan := lk_wchan m @ [t]\<rparr>)) u)" using w \<open>w \<noteq> t\<close> by (intro exI [of _ w]) simp
    show "u = v" if "has_lock (m_pc (goto t LAsleep (m\<lparr>lk_wchan := lk_wchan m @ [t]\<rparr>)) u)"
      "has_lock (m_pc (goto t LAsleep (m\<lparr>lk_wchan := lk_wchan m @ [t]\<rparr>)) v)" for u v
      using d(3) [of u v] that by (simp split: if_splits)
  qed (use d(4-9) notin False t d(9) [of t] in \<open>auto split: if_splits\<close>)
qed

lemma mon_inv_own:
  assumes inv: "mon_inv m" and t: "m_pc m t = Got"
  shows "mon_inv (lock_acquire_tail t m)"
proof -
  note d = mon_invD [OF inv]
  have others: "\<not> has_lock (m_pc m u)" if "u \<noteq> t" for u using d(3) [of u t] t that by auto
  have nocv: "cv_holder m \<noteq> Some t" using d(9) [of t] t by auto
  have na: "\<not> available m" using d(1) [of t] t by auto
  show ?thesis unfolding lock_acquire_tail_def
    by (rule mon_invI) (use d(5-9) others t nocv na in \<open>auto split: if_splits\<close>)
qed

lemma mon_inv_release_head:
  assumes inv: "mon_inv m" and t: "m_pc m t = Inside \<and> p = Leaving \<or> m_pc m t = CvEntered \<and> p = CvLeaving"
  shows "\<exists>m'. lock_release_head t p m = Inr m' \<and> mon_inv m'"
proof -
  note d = mon_invD [OF inv]
  have others: "\<not> has_lock (m_pc m u)" if "u \<noteq> t" for u using d(3) [of u t] t that by auto
  have cv: "cv_holder m = Some t \<longleftrightarrow> m_pc m t = CvEntered" using d(9) [of t] t by auto
  have na: "\<not> available m" using d(1) [of t] t by auto
  have own: "owner m = Some t" using d(4) [of t] t by auto
  have "mon_inv (goto t p (m\<lparr>owner := None\<rparr>))"
    by (rule mon_invI) (use d(5-9) others t cv na in \<open>auto split: if_splits\<close>)
  then show ?thesis using own by (simp add: lock_release_head_def lock_do_i_hold_def)
qed

lemma mon_inv_release_section:
  assumes inv: "mon_inv m" and t: "m_pc m t = Leaving \<and> p = Out \<or> m_pc m t = CvLeaving \<and> p = CvLeft"
  shows "mon_inv (lock_release_section t p m)"
proof -
  note d = mon_invD [OF inv]
  have others: "\<not> has_lock (m_pc m u)" if "u \<noteq> t" for u using d(3) [of u t] t that by auto
  have cv: "cv_holder m = Some t \<longleftrightarrow> m_pc m t = CvLeaving" using d(9) [of t] t by auto
  show ?thesis
  proof (cases "lk_wchan m")
    case Nil
    then have m': "lock_release_section t p m = goto t p (m\<lparr>available := True\<rparr>)" by (simp add: lock_release_section_def)
    show ?thesis unfolding m'
      by (rule mon_invI) (use d(5-9) others t cv Nil in \<open>auto split: if_splits\<close>)
  next
    case (Cons w ws)
    then have m': "lock_release_section t p m = goto t p (goto w Trying (m\<lparr>available := True, lk_wchan := ws\<rparr>))"
      by (simp add: lock_release_section_def)
    have w: "m_pc m w = LAsleep" "w \<notin> set ws" "distinct ws" "w \<noteq> t" "cv_holder m \<noteq> Some w"
      using d(5) [of w] d(6) d(9) [of w] Cons t by auto
    have ws: "u \<in> set ws \<longleftrightarrow> m_pc m u = LAsleep \<and> u \<noteq> w" for u using d(5) [of u] Cons w by auto
    show ?thesis unfolding m'
      by (rule mon_invI) (use d(7-9) others t cv w ws in \<open>auto split: if_splits\<close>)
  qed
qed

lemma mon_inv_cv_enter:
  assumes inv: "mon_inv m" and t: "m_pc m t = Inside" and free: "cv_holder m = None"
  shows "mon_inv (cv_wait_enter t m)"
proof -
  note d = mon_invD [OF inv]
  have others: "\<not> has_lock (m_pc m u)" if "u \<noteq> t" for u using d(3) [of u t] t that by auto
  have nocv: "\<not> has_cv_lock (m_pc m u)" for u using d(9) [of u] free by simp
  have na: "\<not> available m" using d(1) [of t] t by auto
  have own: "owner m = Some t" using d(4) [of t] t by auto
  show ?thesis unfolding cv_wait_enter_def
    by (rule mon_invI) (use d(5-8) others t nocv na own in \<open>auto split: if_splits\<close>)
qed

lemma mon_inv_cv_sleep:
  assumes inv: "mon_inv m" and t: "m_pc m t = CvLeft"
  shows "mon_inv (cv_wait_sleep t m)"
proof -
  note d = mon_invD [OF inv]
  have notin: "t \<notin> set (cv_wchan m)" using d(7) [of t] t by simp
  have holder: "cv_holder m = Some t" using d(9) [of t] t by simp
  have nocv: "\<not> has_cv_lock (m_pc m u)" if "u \<noteq> t" for u using d(9) [of u] holder that by auto
  show ?thesis unfolding cv_wait_sleep_def
  proof (rule mon_invI)
    show "\<exists>u. has_lock (m_pc (goto t CvAsleep (m\<lparr>cv_wchan := cv_wchan m @ [t], cv_holder := None\<rparr>)) u)"
      if na: "\<not> available (goto t CvAsleep (m\<lparr>cv_wchan := cv_wchan m @ [t], cv_holder := None\<rparr>))"
    proof -
      have "\<not> available m" using na by simp
      then obtain u where "has_lock (m_pc m u)" using d(2) by blast
      then show ?thesis using t by (intro exI [of _ u]) auto
    qed
    show "u = v" if "has_lock (m_pc (goto t CvAsleep (m\<lparr>cv_wchan := cv_wchan m @ [t], cv_holder := None\<rparr>)) u)"
      "has_lock (m_pc (goto t CvAsleep (m\<lparr>cv_wchan := cv_wchan m @ [t], cv_holder := None\<rparr>)) v)" for u v
      using d(3) [of u v] that by (simp split: if_splits)
    show "available (goto t CvAsleep (m\<lparr>cv_wchan := cv_wchan m @ [t], cv_holder := None\<rparr>)) \<Longrightarrow>
        \<not> has_lock (m_pc (goto t CvAsleep (m\<lparr>cv_wchan := cv_wchan m @ [t], cv_holder := None\<rparr>)) u)" for u
      using d(1) [of u] by simp
    show "\<exists>u. m_pc (goto t CvAsleep (m\<lparr>cv_wchan := cv_wchan m @ [t], cv_holder := None\<rparr>)) u = Trying"
      if "available (goto t CvAsleep (m\<lparr>cv_wchan := cv_wchan m @ [t], cv_holder := None\<rparr>))"
        "lk_wchan (goto t CvAsleep (m\<lparr>cv_wchan := cv_wchan m @ [t], cv_holder := None\<rparr>)) \<noteq> []"
    proof -
      have "available m" "lk_wchan m \<noteq> []" using that by simp_all
      then obtain u where "m_pc m u = Trying" using d(10) by blast
      then show ?thesis using t by (intro exI [of _ u]) auto
    qed
  qed (use d(4-8) notin nocv t in \<open>auto split: if_splits\<close>)
qed

text \<open>Waking threads on the condition variable's channel.\<close>

lemma mon_inv_cv_wake:
  assumes inv: "mon_inv m" and cv: "cv_wchan m = ws @ rest" and m': "m' = m\<lparr>m_pc := (\<lambda>u. if u \<in> set ws then CvWoken else m_pc m u), cv_wchan := rest\<rparr>"
  shows "mon_inv m'"
proof -
  note d = mon_invD [OF inv]
  have asleep: "m_pc m u = CvAsleep" if "u \<in> set ws" for u using d(7) [of u] cv that by simp
  have pc: "m_pc m' u = p \<longleftrightarrow> m_pc m u = p" if "p \<noteq> CvWoken" "p \<noteq> CvAsleep" for u p
    using asleep [of u] that by (auto simp: m')
  have locks: "has_lock (m_pc m' u) \<longleftrightarrow> has_lock (m_pc m u)" "has_cv_lock (m_pc m' u) \<longleftrightarrow> has_cv_lock (m_pc m u)" for u
    by (simp_all add: pc)
  have rest: "u \<in> set rest \<longleftrightarrow> m_pc m' u = CvAsleep" for u
    using d(7) [of u] d(8) cv by (auto simp: m')
  have same: "available m' = available m" "owner m' = owner m" "lk_wchan m' = lk_wchan m" "cv_holder m' = cv_holder m" "cv_wchan m' = rest"
    by (simp_all add: m')
  show ?thesis
  proof (rule mon_invI)
    show "\<exists>u. has_lock (m_pc m' u)" if "\<not> available m'" using d(2) that unfolding locks same by blast
    show "u = v" if "has_lock (m_pc m' u)" "has_lock (m_pc m' v)" for u v using d(3) that unfolding locks by blast
    show "owner m' = Some u" if "m_pc m' u = Got \<or> m_pc m' u = Inside \<or> m_pc m' u = CvEntered" for u
      using d(4) [of u] that by (simp add: pc same)
    show "\<exists>u. m_pc m' u = Trying" if "available m'" "lk_wchan m' \<noteq> []" using d(10) that by (simp add: pc same)
  qed (use d(1) d(5) d(6) d(8) d(9) rest cv in \<open>simp_all add: locks same pc del: has_lock.simps has_cv_lock.simps\<close>)
qed

lemma fold_goto: "fold (\<lambda>target. goto target p) ws m = m\<lparr>m_pc := (\<lambda>u. if u \<in> set ws then p else m_pc m u)\<rparr>"
  by (induction ws arbitrary: m) (auto simp: goto_def fun_eq_iff)

lemma mon_inv_signal:
  assumes inv: "mon_inv m" and t: "m_pc m t = Inside"
  shows "\<exists>m'. cv_signal_section t m = Inr m' \<and> mon_inv m'"
proof -
  have own: "owner m = Some t" using mon_invD(4) [OF inv, of t] t by simp
  show ?thesis
  proof (cases "cv_wchan m")
    case (Cons w ws)
    have "mon_inv (goto w CvWoken (m\<lparr>cv_wchan := ws\<rparr>))"
      by (rule mon_inv_cv_wake [OF inv, of "[w]" ws]) (simp_all add: Cons goto_def fun_upd_def)
    then show ?thesis using own Cons by (simp add: cv_signal_section_def lock_do_i_hold_def)
  qed (use own inv in \<open>simp add: cv_signal_section_def lock_do_i_hold_def\<close>)
qed

lemma mon_inv_broadcast:
  assumes inv: "mon_inv m" and t: "m_pc m t = Inside"
  shows "\<exists>m'. cv_broadcast_section t m = Inr m' \<and> mon_inv m' \<and> cv_wchan m' = [] \<and>
    (\<forall>u. m_pc m u = CvAsleep \<longrightarrow> m_pc m' u = CvWoken)"
proof -
  have own: "owner m = Some t" using mon_invD(4) [OF inv, of t] t by simp
  let ?m = "(fold (\<lambda>target. goto target CvWoken) (cv_wchan m) m)\<lparr>cv_wchan := []\<rparr>"
  have "mon_inv ?m" by (rule mon_inv_cv_wake [OF inv, of "cv_wchan m" "[]"]) (simp_all add: fold_goto)
  moreover have "m_pc ?m u = CvWoken" if "m_pc m u = CvAsleep" for u using that mon_invD(7) [OF inv, of u] by (simp add: fold_goto)
  ultimately show ?thesis using own by (simp add: cv_broadcast_section_def lock_do_i_hold_def)
qed

text \<open>No section that runs fails an assertion, and every one keeps the invariant.\<close>

lemma mon_step_inv:
  assumes inv: "mon_inv m" and step: "mon_step m r"
  shows "\<exists>m'. r = Inr m' \<and> mon_inv m'"
  using step
proof (cases rule: mon_step.cases)
  case (acquire t)
  have "\<exists>m'. lock_acquire_section t m = Inr m'" by (simp add: lock_acquire_section_def kassert_If)
  then show ?thesis using acquire mon_inv_acquire [OF inv, of t] by auto
next
  case (call t) then show ?thesis using mon_inv_goto_trying [OF inv, of t] by simp
next
  case (own t) then show ?thesis using mon_inv_own [OF inv, of t] by simp
next
  case (release t) then show ?thesis using mon_inv_release_head [OF inv, of t Leaving] by simp
next
  case (leave t) then show ?thesis using mon_inv_release_section [OF inv, of t Out] by simp
next
  case (cv_wait t) then show ?thesis using mon_inv_cv_enter [OF inv, of t] by simp
next
  case (cv_release t) then show ?thesis using mon_inv_release_head [OF inv, of t CvLeaving] by simp
next
  case (cv_leave t) then show ?thesis using mon_inv_release_section [OF inv, of t CvLeft] by simp
next
  case (cv_sleep t) then show ?thesis using mon_inv_cv_sleep [OF inv, of t] by simp
next
  case (cv_return t) then show ?thesis using mon_inv_goto_trying [OF inv, of t] by simp
next
  case (cv_signal t) then show ?thesis using mon_inv_signal [OF inv, of t] by simp
next
  case (cv_broadcast t) then show ?thesis using mon_inv_broadcast [OF inv, of t] by auto
qed

lemma mon_reach_inv: "mon_reach m \<Longrightarrow> mon_inv m"
proof (induction rule: mon_reach.induct)
  case (step m m')
  then show ?case using mon_step_inv [of m "Inr m'"] by auto
qed (rule mon_inv_init)

end
