(* ===== verification/LibProperties.thy ===== *)
theory LibProperties
  imports VmProperties Bitmaps Arrays ThreadLists Synch
begin

text \<open>
  What the kernel's data structures and its synchronisation primitives guarantee: bitmaps,
  resizable arrays, thread lists, semaphores, locks and condition variables.
\<close>

section \<open>Locks, condition variables, semaphores\<close>

text \<open>
  C10: a lock excludes. In every state that threads can reach by any interleaving of
  \<open>lock_acquire\<close>, \<open>lock_release\<close>, \<open>cv_wait\<close>, \<open>cv_signal\<close> and \<open>cv_broadcast\<close>, at most one thread
  has the lock, a thread inside is the owner the lock records, and no assertion of these
  functions can fail in the next step.
\<close>

theorem lock_mutual_exclusion:
  assumes "mon_reach m"
  shows "(has_lock (m_pc m t) \<and> has_lock (m_pc m u) \<longrightarrow> t = u) \<and>
    (m_pc m t = Inside \<longrightarrow> lock_do_i_hold t m \<and> \<not> available m) \<and> (\<forall>e. \<not> mon_step m (Inl e))"
proof -
  note d = mon_invD [OF mon_reach_inv [OF assms]]
  have "\<not> available m" if "m_pc m t = Inside" using d(1) [of t] that by auto
  moreover have "\<not> mon_step m (Inl e)" for e using mon_step_inv [OF mon_reach_inv [OF assms], of "Inl e"] by auto
  ultimately show ?thesis using d(3) [of t u] d(4) [of t] by (simp add: lock_do_i_hold_def)
qed

text \<open>A state in which thread 1 is inside and thread 2 sleeps on the lock.\<close>

definition lock_contended :: monitor where
  "lock_contended = \<lparr>available = False, owner = Some 1, lk_wchan = [2], cv_holder = None, cv_wchan = [],
                     m_pc = (\<lambda>_. Out)(1 := Inside, 2 := LAsleep)\<rparr>"

lemma lock_contended_reach: "mon_reach lock_contended"
proof -
  let ?i = "mon_init None"
  let ?a = "goto 1 Trying ?i" let ?b = "goto 2 Trying ?a"
  have "mon_reach ?a" by (rule mon_reach.step [OF mon_reach.init mon_step.call]) (simp add: mon_init_def)
  then have "mon_reach ?b" by (rule mon_reach.step [OF _ mon_step.call]) (simp add: mon_init_def)
  moreover have "lock_acquire_section 1 ?b = Inr (goto 1 Got (?b\<lparr>available := False, owner := Some 1\<rparr>))" (is "_ = Inr ?c")
    by (simp add: lock_acquire_section_def mon_init_def)
  then have "mon_step ?b (Inr ?c)" using mon_step.acquire [of ?b 1] by simp
  ultimately have "mon_reach ?c" by (rule mon_reach.step)
  moreover have "mon_step ?c (Inr (lock_acquire_tail 1 ?c))" (is "mon_step _ (Inr ?d)") by (rule mon_step.own) simp
  ultimately have "mon_reach ?d" by (rule mon_reach.step)
  moreover have "lock_acquire_section 2 ?d = Inr lock_contended"
    by (simp add: lock_acquire_section_def lock_acquire_tail_def lock_contended_def mon_init_def goto_def fun_eq_iff)
  then have "mon_step ?d (Inr lock_contended)" using mon_step.acquire [of ?d 2] by (simp add: lock_acquire_tail_def)
  ultimately show ?thesis by (rule mon_reach.step)
qed

theorem lock_mutual_exclusion_witness:
  "m_pc lock_contended 1 = Inside \<and> lock_do_i_hold 1 lock_contended \<and> \<not> has_lock (m_pc lock_contended 2)"
  using lock_mutual_exclusion [OF lock_contended_reach, of 1 2] by (simp add: lock_contended_def)

text \<open>
  C11: no wakeup is lost. In every reachable state: the lock's channel holds exactly the threads
  asleep in \<open>lock_acquire\<close>; if some thread sleeps there, either another one has the lock, so that
  its release will wake the first sleeper, or one is awake about to take it; and whenever no
  thread is inside \<open>cv_wait\<close> with the lock of the condition variable, every thread that has
  released the lock in \<open>cv_wait\<close> and has not been woken is on the channel, so that a signal or a
  broadcast finds it.
\<close>

theorem no_lost_wakeup:
  assumes "mon_reach m"
  shows "(\<forall>t. t \<in> set (lk_wchan m) \<longleftrightarrow> m_pc m t = LAsleep) \<and> distinct (lk_wchan m) \<and>
    (lk_wchan m \<noteq> [] \<longrightarrow> (\<exists>t. has_lock (m_pc m t) \<or> m_pc m t = Trying)) \<and>
    (cv_holder m = None \<longrightarrow> (\<forall>t. m_pc m t \<notin> {CvEntered, CvLeaving, CvLeft})) \<and>
    (\<forall>t. t \<in> set (cv_wchan m) \<longleftrightarrow> m_pc m t = CvAsleep) \<and>
    (\<forall>t. m_pc m t = Inside \<longrightarrow> (\<exists>m'. cv_broadcast_section t m = Inr m' \<and> (\<forall>u. m_pc m u = CvAsleep \<longrightarrow> m_pc m' u = CvWoken)))"
proof -
  note inv = mon_reach_inv [OF assms]
  note d = mon_invD [OF inv]
  have "\<exists>t. has_lock (m_pc m t) \<or> m_pc m t = Trying" if "lk_wchan m \<noteq> []"
    using d(2,10) that by blast
  moreover have "m_pc m t \<notin> {CvEntered, CvLeaving, CvLeft}" if "cv_holder m = None" for t using d(9) [of t] that by auto
  ultimately show ?thesis using d(5-7) mon_inv_broadcast [OF inv] by blast
qed

theorem no_lost_wakeup_witness:
  "2 \<in> set (lk_wchan lock_contended) \<and> m_pc lock_contended 2 = LAsleep \<and> (\<exists>t. has_lock (m_pc lock_contended t) \<or> m_pc lock_contended t = Trying)"
  using no_lost_wakeup [OF lock_contended_reach] by (simp add: lock_contended_def)

text \<open>
  C12: semaphores count. In every state threads can reach by calls of \<open>P\<close> and \<open>V\<close>, the count is the
  initial one plus the finished calls of \<open>V\<close> minus the finished calls of \<open>P\<close> (so it never goes
  below zero or wraps around); the channel holds exactly the threads asleep, each once; and
  while some thread sleeps there are at least as many awake in \<open>P\<close> as the count, so a sleeper
  never misses a count that nobody else will take.
\<close>

theorem semaphore_counts:
  assumes "sem_reach n s"
  shows "unat (sem_count s) + p_done s = unat n + v_done s \<and> distinct (sem_wchan s) \<and>
    set (sem_wchan s) = {t. sem_pc s t = SAsleep} \<and>
    (sem_wchan s \<noteq> [] \<longrightarrow> unat (sem_count s) \<le> card (sem_trying s))"
  using sem_reach_inv [OF assms] by (simp add: sem_inv_def)

lemma sem_one_asleep: "sem_reach 0 (P_section 3 ((sem_init 0)\<lparr>sem_pc := (sem_pc (sem_init 0))(3 := STrying)\<rparr>))"
  by (rule sem_reach.step [OF sem_reach.step [OF sem_reach.init sem_step.call_P [of _ 3]] sem_step.run_P]) (simp_all add: sem_init_def)

theorem semaphore_counts_witness:
  "\<exists>s. sem_reach 0 s \<and> sem_wchan s = [3] \<and> unat (sem_count s) + p_done s = v_done s \<and> {t. sem_pc s t = SAsleep} = {3}"
proof -
  let ?s = "P_section 3 ((sem_init 0)\<lparr>sem_pc := (sem_pc (sem_init 0))(3 := STrying)\<rparr>)"
  have "sem_wchan ?s = [3]" by (simp add: P_section_def sem_init_def)
  then show ?thesis using semaphore_counts [OF sem_one_asleep] sem_one_asleep by (intro exI [of _ ?s]) auto
qed

section \<open>Thread lists\<close>

text \<open>
  C19: thread lists are sequences. When list \<open>l\<close> links the threads \<open>ts\<close>, adding at the head or at the
  tail links \<open>t # ts\<close> or \<open>ts @ [t]\<close>; taking from the head returns the first thread and leaves the
  rest with that thread's node unlinked, or returns NULL from the empty list; removing a thread
  in the middle leaves the others in order. No operation disturbs the nodes of another list.
\<close>

theorem threadlist_refines_sequence:
  assumes "tl_rep s l ts" and "length ts + 1 < 2 ^ 32" and "t \<notin> set ts" and "tln_self s (TNode t) = Some t"
  shows "(\<exists>s'. threadlist_addhead l t s = Inr s' \<and> tl_rep s' l (t # ts) \<and> others_kept l (insert t (set ts)) s s') \<and>
    (\<exists>s'. threadlist_addtail l t s = Inr s' \<and> tl_rep s' l (ts @ [t]) \<and> others_kept l (insert t (set ts)) s s') \<and>
    (case ts of [] \<Rightarrow> threadlist_remhead l s = Inr (None, s)
     | u # us \<Rightarrow> \<exists>s'. threadlist_remhead l s = Inr (Some u, s') \<and> tl_rep s' l us \<and> others_kept l (set ts) s s' \<and>
         tln_next s' (TNode u) = None \<and> tln_prev s' (TNode u) = None) \<and>
    (\<forall>us u vs. ts = us @ u # vs \<longrightarrow> (\<exists>s'. threadlist_remove l u s = Inr s' \<and> tl_rep s' l (us @ vs) \<and> others_kept l (set ts) s s')) \<and>
    (threadlist_isempty l s \<longleftrightarrow> ts = [])"
proof -
  have "\<exists>s'. threadlist_remove l u s = Inr s' \<and> tl_rep s' l (us @ vs) \<and> others_kept l (set ts) s s'" if "ts = us @ u # vs" for us u vs
    using threadlist_remove_rep [of s l us u vs] assms(1) that by simp
  then show ?thesis
    using threadlist_addhead_rep [OF assms(1,3,4,2)] threadlist_addtail_rep [OF assms(1,3,4,2)] threadlist_remhead_rep [OF assms(1)]
      threadlist_isempty_rep [OF assms(1)] by blast
qed

definition tl_blank :: tlstate where
  "tl_blank = \<lparr>tln_prev = (\<lambda>_. None), tln_next = (\<lambda>_. None),
               tln_self = (\<lambda>n. case n of TNode t \<Rightarrow> Some t | _ \<Rightarrow> None), tl_count = (\<lambda>_. 0)\<rparr>"

theorem threadlist_refines_sequence_witness:
  "\<exists>s. threadlist_addtail 0 7 (threadlist_init 0 tl_blank) = Inr s \<and> tl_rep s 0 [7]"
proof -
  have "tln_self (threadlist_init 0 tl_blank) (TNode 7) = Some 7"
    by (simp add: threadlist_init_def Let_def set_self_def set_prev_def set_next_def tl_blank_def)
  then show ?thesis
    using threadlist_refines_sequence [OF threadlist_init_rep [of 0 tl_blank], of 7] by auto
qed

section \<open>Bitmaps\<close>

text \<open>
  C20: a bitmap is a set of indices. \<open>bitmap_alloc\<close> gives the least index that is not marked and
  marks it, and returns \<open>ENOSPC\<close> exactly when every index is marked; \<open>bitmap_mark\<close> and
  \<open>bitmap_unmark\<close> add and take away their index and stop the kernel when it already was, or was
  not, in the set; \<open>bitmap_isset\<close> tells membership.
\<close>

theorem bitmap_refines_set:
  assumes "bitmap_wf b"
  shows "(marked b = {..<unat (nbits b)} \<longrightarrow> bitmap_alloc b = Inr (ENOSPC, None, b)) \<and>
    (marked b \<noteq> {..<unat (nbits b)} \<longrightarrow>
      (\<exists>i b'. bitmap_alloc b = Inr (0, Some (of_nat i), b') \<and> i < unat (nbits b) \<and> i \<notin> marked b \<and>
        (\<forall>j < i. j \<in> marked b) \<and> bitmap_wf b' \<and> marked b' = insert i (marked b))) \<and>
    (\<forall>i < nbits b.
      (unat i \<in> marked b \<longrightarrow> (\<exists>msg. bitmap_mark b i = Inl (Assert msg))) \<and>
      (unat i \<notin> marked b \<longrightarrow> (\<exists>b'. bitmap_mark b i = Inr b' \<and> bitmap_wf b' \<and> marked b' = insert (unat i) (marked b))) \<and>
      (unat i \<notin> marked b \<longrightarrow> (\<exists>msg. bitmap_unmark b i = Inl (Assert msg))) \<and>
      (unat i \<in> marked b \<longrightarrow> (\<exists>b'. bitmap_unmark b i = Inr b' \<and> bitmap_wf b' \<and> marked b' = marked b - {unat i})) \<and>
      (\<exists>r. bitmap_isset b i = Inr r \<and> (r \<noteq> 0 \<longleftrightarrow> unat i \<in> marked b)))"
proof (intro conjI allI impI)
  show "\<exists>i b'. bitmap_alloc b = Inr (0, Some (of_nat i), b') \<and> i < unat (nbits b) \<and> i \<notin> marked b \<and>
      (\<forall>j < i. j \<in> marked b) \<and> bitmap_wf b' \<and> marked b' = insert i (marked b)"
    if "marked b \<noteq> {..<unat (nbits b)}" using bitmap_alloc_cases(2) [OF assms that] by blast
  fix i assume i: "i < nbits b"
  show "\<exists>b'. bitmap_mark b i = Inr b' \<and> bitmap_wf b' \<and> marked b' = insert (unat i) (marked b)" if "unat i \<notin> marked b"
    using bitmap_mark_ok [OF assms i] that by simp
  show "\<exists>b'. bitmap_unmark b i = Inr b' \<and> bitmap_wf b' \<and> marked b' = marked b - {unat i}" if "unat i \<in> marked b"
    using bitmap_unmark_ok [OF assms i] that by simp
qed (use bitmap_alloc_cases(1) [OF assms] bitmap_mark_ok(1) [OF assms] bitmap_unmark_ok(1) [OF assms] bitmap_isset_ok [OF assms] in simp_all)

text \<open>Eleven indices in two bytes, all but number 9 in use; the five bits past the end are set.\<close>

definition small_bitmap :: bitmap where
  "small_bitmap = \<lparr>b_ptr = 0x80010000, b_vptr = 0x80010010, nbits = 11, b_v = [0xff, 0xfd]\<rparr>"

theorem bitmap_refines_set_witness:
  "\<exists>i b'. bitmap_alloc small_bitmap = Inr (0, Some (of_nat i), b') \<and> i = 9 \<and> marked b' = {..<11}"
proof -
  have use: "in_use [0xff, 0xfd] i \<longleftrightarrow> i \<noteq> 9" if "i < 16" for i
  proof -
    have "i \<in> set [0..<16]" using that by simp
    moreover have "list_all (\<lambda>i. in_use [0xff, 0xfd] i \<longleftrightarrow> i \<noteq> 9) [0..<16]" by code_simp
    ultimately show ?thesis unfolding list_all_iff by blast
  qed
  have wf: "bitmap_wf small_bitmap" using use by (auto simp: bitmap_wf_def small_bitmap_def)
  have marked: "marked small_bitmap = {..<11} - {9}" using use by (auto simp: marked_def small_bitmap_def)
  have bits: "unat (nbits small_bitmap) = 11" by (simp add: small_bitmap_def)
  have "9 \<in> {..<11 :: nat} - marked small_bitmap" by (simp add: marked)
  then have "marked small_bitmap \<noteq> {..<unat (nbits small_bitmap)}" unfolding bits by blast
  then obtain i b' where *: "bitmap_alloc small_bitmap = Inr (0, Some (of_nat i), b')" "i < 11" "i \<notin> marked small_bitmap"
    "marked b' = insert i (marked small_bitmap)"
    using bitmap_refines_set [OF wf] unfolding bits by blast
  then have "i = 9" by (simp add: marked)
  moreover have "insert 9 ({..<11} - {9}) = {..<11 :: nat}" by auto
  ultimately show ?thesis using * by (intro exI [of _ i] exI [of _ b']) (simp add: marked)
qed





section \<open>Arrays\<close>

text \<open>
  C23: the array's growth loop ends exactly for requests up to \<open>2 ^ 31\<close>. From every capacity the
  code can have reached, doubling ends for a request of at most \<open>2 ^ 31\<close> elements, with a capacity
  that is enough; for a larger request the capacity wraps around to 0 and the loop never ends.
\<close>

theorem array_growth_terminates:
  assumes "capacity m"
  shows "(unat num \<le> 2 ^ 31 \<longrightarrow> (\<exists>r. grow_max num m = Some r \<and> capacity r \<and> num \<le> r)) \<and>
    (2 ^ 31 < unat num \<longrightarrow> grow_max num m = None)"
  using grow_max_returns [OF assms] grow_max_diverges [OF assms] by blast

theorem array_growth_terminates_witness:
  "(\<exists>r. grow_max 5 0 = Some r \<and> capacity r \<and> 5 \<le> r) \<and> grow_max 0x80000001 0 = None"
proof -
  have "capacity 0" by (simp add: capacity_def)
  from array_growth_terminates [OF this, of 5] array_growth_terminates [OF this, of "0x80000001"] show ?thesis by simp
qed

text \<open>
  C22: an array is a list. On a well-formed array of fewer than \<open>2 ^ 29\<close> elements \<open>array_add\<close> comes
  back, with the value appended or with \<open>ENOMEM\<close> and the array as it was; \<open>array_get\<close> and
  \<open>array_set\<close> within the bounds read and update that element; \<open>array_remove\<close> takes out the element
  and moves the later ones down; every operation keeps the array well formed.
\<close>

theorem array_refines_list:
  assumes "array_wf a" and "unat (a_num a) < 2 ^ 29"
  shows "(\<exists>r. array_add kp junk a x h s = Some r \<and>
      (\<forall>e i a' h' s'. r = Inr (e, i, a', h', s') \<longrightarrow> array_wf a' \<and>
         (e = 0 \<and> i = Some (a_num a) \<and> array_list a' = array_list a @ [x] \<or> e = ENOMEM \<and> i = None \<and> a' = a))) \<and>
    (\<forall>index < a_num a. array_get a index = Inr (array_list a ! unat index) \<and>
      (\<exists>a'. array_set a index x = Inr a' \<and> array_wf a' \<and> array_list a' = (array_list a)[unat index := x]) \<and>
      (\<exists>a'. array_remove a index = Inr a' \<and> array_wf a' \<and>
         array_list a' = take (unat index) (array_list a) @ drop (Suc (unat index)) (array_list a)))"
  using array_add_ok [OF assms, of kp junk x h s] array_get_set_ok [OF assms(1)] array_remove_ok [OF assms(1)] by blast

definition small_array :: "nat karray" where
  "small_array = \<lparr>a_ptr = 0x80010000, a_num = 3, a_max = 4, a_vptr = 0x80010020, a_v = [10, 11, 12, 13]\<rparr>"

theorem array_refines_list_witness:
  "array_list small_array = [10, 11, 12] \<and> array_get small_array 2 = Inr 12 \<and>
   (\<exists>a. array_remove small_array 1 = Inr a \<and> array_wf a \<and> array_list a = [10, 12])"
proof -
  have "capacity 4" by (auto simp: capacity_def intro: exI [of _ 0])
  then have wf: "array_wf small_array" "unat (a_num small_array) < 2 ^ 29" by (simp_all add: array_wf_def small_array_def)
  have l: "array_list small_array = [10, 11, 12]" by (simp add: array_list_def small_array_def)
  note ok = array_refines_list [OF wf, THEN conjunct2, rule_format]
  have "2 < a_num small_array" "1 < a_num small_array" by (simp_all add: small_array_def)
  from ok [OF this(1)] ok [OF this(2)] show ?thesis unfolding l by simp
qed

end
