(* ===== verification/LongLong.thy ===== *)
theory LongLong
  imports Prelude
begin

text \<open>
  64-bit integers on the 32-bit processor: \<open>common/gcc-millicode\<close>, the functions the compiler
  calls for additions, shifts, comparisons and products of \<open>long long\<close>. Each is shown equal to
  the operation on 64-bit words it stands for.
\<close>

section \<open>The two halves\<close>

text \<open>\<open>union uu\<close> of \<open>longlong.h\<close>: a 64-bit word as two 32-bit ones, and those as 16-bit halves.\<close>

definition ui_H :: "u64 \<Rightarrow> u32" where
  "ui_H a = ucast (drop_bit 32 a)"

definition ui_L :: "u64 \<Rightarrow> u32" where
  "ui_L a = ucast a"

definition uu_ll :: "u32 \<Rightarrow> u32 \<Rightarrow> u64" where
  "uu_ll h l = push_bit 32 (ucast h) OR ucast l"

definition HHALF :: "u32 \<Rightarrow> u32" where
  "HHALF x = drop_bit 16 x"

definition LHALF :: "u32 \<Rightarrow> u32" where
  "LHALF x = x AND 0xffff"

definition LHUP :: "u32 \<Rightarrow> u32" where
  "LHUP x = push_bit 16 x"

lemma bit_uu_ll: "bit (uu_ll h l) n \<longleftrightarrow> (if n < 32 then bit l n else n < 64 \<and> bit h (n - 32))"
  by (auto simp: uu_ll_def bit_simps dest: bit_imp_le_length)

lemma bit_ui: "bit (ui_H a) n \<longleftrightarrow> n < 32 \<and> bit a (n + 32)" "bit (ui_L a) n \<longleftrightarrow> n < 32 \<and> bit a n"
  by (auto simp: ui_H_def ui_L_def bit_simps ac_simps)

lemma uu_ll_ui [simp]: "uu_ll (ui_H a) (ui_L a) = a"
  by (rule bit_word_eqI) (auto simp: bit_uu_ll bit_ui)

lemma ui_uu_ll [simp]: "ui_H (uu_ll h l) = h" "ui_L (uu_ll h l) = l"
  by (rule bit_word_eqI, simp add: bit_uu_ll bit_ui)+

lemma uu_ll_eq: "uu_ll h l = of_int (uint h * 2 ^ 32 + uint l)"
proof -
  have "push_bit 32 (ucast h :: u64) AND ucast l = 0"
    by (rule bit_word_eqI) (auto simp: bit_simps dest: bit_imp_le_length)
  then have "uu_ll h l = push_bit 32 (ucast h) + ucast l" by (simp add: uu_ll_def disjunctive_add_eq_or)
  also have "\<dots> = of_int (uint h) * 2 ^ 32 + of_int (uint l)" by (simp add: push_bit_eq_mult)
  finally show ?thesis by simp
qed

lemma uu_ll_of_int: "uu_ll (of_int x) l = of_int (x * 2 ^ 32 + uint l)"
proof -
  have "(of_int (x mod 2 ^ 32 * 2 ^ 32) :: u64) = of_int (x * 2 ^ 32)"
    using mod_mult_mult2 [of x "2 ^ 32" "2 ^ 32"] unfolding word_of_int_eq_iff take_bit_eq_mod by simp
  then show ?thesis unfolding uu_ll_eq uint_word_of_int_eq take_bit_eq_mod of_int_add by simp
qed

lemma uint_uu_ll: "uint (uu_ll h l) = uint h * 2 ^ 32 + uint l"
proof -
  have "uint h < 2 ^ 32" "uint l < 2 ^ 32" "0 \<le> uint h" "0 \<le> uint l"
    using uint_lt2p [of h] uint_lt2p [of l] by simp_all
  then have "uint h * 2 ^ 32 + uint l < 2 ^ 64" "0 \<le> uint h * 2 ^ 32 + uint l" by simp_all
  then show ?thesis unfolding uu_ll_eq by (simp add: uint_word_of_int_eq take_bit_int_eq_self del: of_int_add of_int_mult)
qed

lemma long_long_cases: obtains h l where "a = uu_ll h l"
  by (metis uu_ll_ui)

section \<open>The code\<close>

definition adddi3 :: "u64 \<Rightarrow> u64 \<Rightarrow> u64" where
  "adddi3 a b =
     (let l = ui_L a + ui_L b in uu_ll (ui_H a + ui_H b + (if l < ui_L b then 1 else 0)) l)"

definition subdi3 :: "u64 \<Rightarrow> u64 \<Rightarrow> u64" where
  "subdi3 a b =
     (let l = ui_L a - ui_L b in uu_ll (ui_H a - ui_H b - (if l > ui_L a then 1 else 0)) l)"

definition negdi2 :: "u64 \<Rightarrow> u64" where
  "negdi2 a = (let l = - ui_L a in uu_ll (- ui_H a - (if l > 0 then 1 else 0)) l)"

definition anddi3 :: "u64 \<Rightarrow> u64 \<Rightarrow> u64" where
  "anddi3 a b = uu_ll (ui_H a AND ui_H b) (ui_L a AND ui_L b)"

definition iordi3 :: "u64 \<Rightarrow> u64 \<Rightarrow> u64" where
  "iordi3 a b = uu_ll (ui_H a OR ui_H b) (ui_L a OR ui_L b)"

definition xordi3 :: "u64 \<Rightarrow> u64 \<Rightarrow> u64" where
  "xordi3 a b = uu_ll (ui_H a XOR ui_H b) (ui_L a XOR ui_L b)"

definition one_cmpldi2 :: "u64 \<Rightarrow> u64" where
  "one_cmpldi2 a = uu_ll (NOT (ui_H a)) (NOT (ui_L a))"

definition cmpdi2 :: "u64 \<Rightarrow> u64 \<Rightarrow> int" where
  "cmpdi2 a b =
     (if sint (ui_H a) < sint (ui_H b) then 0 else if sint (ui_H a) > sint (ui_H b) then 2
      else if ui_L a < ui_L b then 0 else if ui_L a > ui_L b then 2 else 1)"

definition ucmpdi2 :: "u64 \<Rightarrow> u64 \<Rightarrow> int" where
  "ucmpdi2 a b =
     (if ui_H a < ui_H b then 0 else if ui_H a > ui_H b then 2
      else if ui_L a < ui_L b then 0 else if ui_L a > ui_L b then 2 else 1)"

text \<open>Shifts of a 32-bit word; in C the amount must be less than 32.\<close>

definition shl32 :: "u32 \<Rightarrow> u32 \<Rightarrow> u32 res" where
  "shl32 x n = (if n < 32 then Inr (push_bit (unat n) x) else Inl (Undefined ''shift amount''))"

definition shr32 :: "u32 \<Rightarrow> u32 \<Rightarrow> u32 res" where
  "shr32 x n = (if n < 32 then Inr (drop_bit (unat n) x) else Inl (Undefined ''shift amount''))"

definition sar32 :: "u32 \<Rightarrow> u32 \<Rightarrow> u32 res" where
  "sar32 x n = (if n < 32 then Inr (signed_drop_bit (unat n) x) else Inl (Undefined ''shift amount''))"

definition ashldi3 :: "u64 \<Rightarrow> u32 \<Rightarrow> u64 res" where
  "ashldi3 a shift =
     (if shift = 0 then Inr a
      else if shift \<ge> 32
      then kbind (shl32 (ui_L a) (shift - 32)) (\<lambda>h. Inr (uu_ll h 0))
      else kbind (shl32 (ui_H a) shift) (\<lambda>x. kbind (shr32 (ui_L a) (32 - shift)) (\<lambda>y.
           kbind (shl32 (ui_L a) shift) (\<lambda>l. Inr (uu_ll (x OR y) l)))))"

definition lshldi3 :: "u64 \<Rightarrow> u32 \<Rightarrow> u64 res" where
  "lshldi3 a shift =
     (if shift = 0 then Inr a
      else if shift \<ge> 32
      then kbind (shl32 (ui_L a) (shift - 32)) (\<lambda>h. Inr (uu_ll h 0))
      else kbind (shl32 (ui_H a) shift) (\<lambda>x. kbind (shr32 (ui_L a) (32 - shift)) (\<lambda>y.
           kbind (shl32 (ui_L a) shift) (\<lambda>l. Inr (uu_ll (x OR y) l)))))"

definition lshrdi3 :: "u64 \<Rightarrow> u32 \<Rightarrow> u64 res" where
  "lshrdi3 a shift =
     (if shift = 0 then Inr a
      else if shift \<ge> 32
      then kbind (shr32 (ui_H a) (shift - 32)) (\<lambda>l. Inr (uu_ll 0 l))
      else kbind (shr32 (ui_L a) shift) (\<lambda>x. kbind (shl32 (ui_H a) (32 - shift)) (\<lambda>y.
           kbind (shr32 (ui_H a) shift) (\<lambda>h. Inr (uu_ll h (x OR y))))))"

definition ashrdi3 :: "u64 \<Rightarrow> u32 \<Rightarrow> u64 res" where
  "ashrdi3 a shift =
     (if shift = 0 then Inr a
      else if shift \<ge> 32
      then kbind (sar32 (ui_H a) 31) (\<lambda>s1. kbind (sar32 s1 1) (\<lambda>s.
           kbind (sar32 (ui_H a) (shift - 32)) (\<lambda>l. Inr (uu_ll s l))))
      else kbind (shr32 (ui_L a) shift) (\<lambda>x. kbind (shl32 (ui_H a) (32 - shift)) (\<lambda>y.
           kbind (sar32 (ui_H a) shift) (\<lambda>h. Inr (uu_ll h (x OR y))))))"

section \<open>They are the operations of 64-bit words\<close>

lemma uint_add32: "uint (x + y :: u32) = uint x + uint y - (if x + y < y then 2 ^ 32 else 0)"
  using uint_plus_if' [of x y] uint_lt2p [of x] uint_lt2p [of y] by (auto simp: word_less_def)

lemma uint_sub32: "uint (x - y :: u32) = uint x - uint y + (if x < x - y then 2 ^ 32 else 0)"
  using uint_sub_if' [of x y] uint_lt2p [of x] uint_lt2p [of y] by (auto simp: word_less_def)

lemma adddi3_eq: "adddi3 a b = a + b"
proof (cases a rule: long_long_cases, cases b rule: long_long_cases)
  fix ah al bh bl assume ab: "a = uu_ll ah al" "b = uu_ll bh bl"
  let ?c = "if al + bl < bl then 1 else 0 :: int"
  have "ah + bh + (if al + bl < bl then 1 else 0) = of_int (uint ah + uint bh + ?c)" by simp
  then have "adddi3 a b = of_int ((uint ah + uint bh + ?c) * 2 ^ 32 + uint (al + bl))"
    unfolding adddi3_def ab Let_def ui_uu_ll by (simp only: uu_ll_of_int)
  also have "(uint ah + uint bh + ?c) * 2 ^ 32 + uint (al + bl) = (uint ah * 2 ^ 32 + uint al) + (uint bh * 2 ^ 32 + uint bl)"
    unfolding uint_add32 by (simp add: algebra_simps)
  finally show ?thesis unfolding ab uu_ll_eq by simp
qed

lemma subdi3_eq: "subdi3 a b = a - b"
proof (cases a rule: long_long_cases, cases b rule: long_long_cases)
  fix ah al bh bl assume ab: "a = uu_ll ah al" "b = uu_ll bh bl"
  let ?c = "if al < al - bl then 1 else 0 :: int"
  have "ah - bh - (if al < al - bl then 1 else 0) = of_int (uint ah - uint bh - ?c)" by simp
  then have "subdi3 a b = of_int ((uint ah - uint bh - ?c) * 2 ^ 32 + uint (al - bl))"
    unfolding subdi3_def ab Let_def ui_uu_ll by (simp only: uu_ll_of_int)
  also have "(uint ah - uint bh - ?c) * 2 ^ 32 + uint (al - bl) = (uint ah * 2 ^ 32 + uint al) - (uint bh * 2 ^ 32 + uint bl)"
    unfolding uint_sub32 by (simp add: algebra_simps)
  finally show ?thesis unfolding ab uu_ll_eq by simp
qed

lemma negdi2_eq: "negdi2 a = - a"
proof -
  have "negdi2 a = subdi3 (uu_ll 0 0) a" by (simp add: negdi2_def subdi3_def Let_def)
  then show ?thesis by (simp add: subdi3_eq uu_ll_eq)
qed

lemma logic_eq:
  "anddi3 a b = a AND b" "iordi3 a b = a OR b" "xordi3 a b = a XOR b" "one_cmpldi2 a = NOT a"
  by (rule bit_word_eqI, auto simp: anddi3_def iordi3_def xordi3_def one_cmpldi2_def bit_simps bit_uu_ll bit_ui)+

lemma uint_bounds32: "0 \<le> uint (x :: u32)" "uint x < 2 ^ 32"
  using uint_lt2p [of x] by simp_all

lemma lex_less:
  fixes ah al bh bl :: int
  assumes "0 \<le> al" "al < 2 ^ 32" "0 \<le> bl" "bl < 2 ^ 32"
  shows "ah * 2 ^ 32 + al < bh * 2 ^ 32 + bl \<longleftrightarrow> ah < bh \<or> ah = bh \<and> al < bl"
    and "ah * 2 ^ 32 + al = bh * 2 ^ 32 + bl \<longleftrightarrow> ah = bh \<and> al = bl"
proof -
  have less: "ah * 2 ^ 32 + al < bh * 2 ^ 32 + bl \<longleftrightarrow> ah < bh \<or> ah = bh \<and> al < bl"
    if "0 \<le> al" "al < 2 ^ 32" "0 \<le> bl" "bl < 2 ^ 32" for ah al bh bl :: int
    using that by auto
  show "ah * 2 ^ 32 + al < bh * 2 ^ 32 + bl \<longleftrightarrow> ah < bh \<or> ah = bh \<and> al < bl" by (rule less [OF assms])
  show "ah * 2 ^ 32 + al = bh * 2 ^ 32 + bl \<longleftrightarrow> ah = bh \<and> al = bl"
    using less [OF assms, of ah bh] less [OF assms(3,4,1,2), of bh ah] by fastforce
qed

lemma sint_uu_ll: "sint (uu_ll h l) = sint h * 2 ^ 32 + uint l"
proof -
  have h: "sint h = uint h - (if bit h 31 then 2 ^ 32 else 0)"
    using signed_take_bit_eq_take_bit_minus [of 31 "uint h"] by (auto simp: sint_uint bit_uint_iff take_bit_int_eq_self uint_bounds32 [simplified])
  have "uint (uu_ll h l) < 2 ^ 64" using uint_lt2p [of "uu_ll h l"] by simp
  then have "sint (uu_ll h l) = uint (uu_ll h l) - (if bit (uu_ll h l) 63 then 2 ^ 64 else 0)"
    using signed_take_bit_eq_take_bit_minus [of 63 "uint (uu_ll h l)"] by (auto simp: sint_uint bit_uint_iff take_bit_int_eq_self)
  then show ?thesis by (simp add: h bit_uu_ll uint_uu_ll)
qed

lemma cmpdi2_eq: "cmpdi2 a b = (if sint a < sint b then 0 else if sint a = sint b then 1 else 2)"
proof (cases a rule: long_long_cases, cases b rule: long_long_cases)
  fix ah al bh bl assume ab: "a = uu_ll ah al" "b = uu_ll bh bl"
  note lex = lex_less [OF uint_bounds32 uint_bounds32]
  show ?thesis unfolding ab sint_uu_ll cmpdi2_def ui_uu_ll lex word_less_def
    using uint_bounds32 [of al] uint_bounds32 [of bl] by auto
qed

lemma ucmpdi2_eq: "ucmpdi2 a b = (if a < b then 0 else if a = b then 1 else 2)"
proof (cases a rule: long_long_cases, cases b rule: long_long_cases)
  fix ah al bh bl assume ab: "a = uu_ll ah al" "b = uu_ll bh bl"
  have less: "a < b \<longleftrightarrow> ah < bh \<or> ah = bh \<and> al < bl"
    unfolding ab word_less_def uint_uu_ll lex_less(1) [OF uint_bounds32 uint_bounds32] word_uint_eq_iff ..
  have eq: "a = b \<longleftrightarrow> ah = bh \<and> al = bl" unfolding ab by (metis ui_uu_ll)
  show ?thesis unfolding ucmpdi2_def less eq unfolding ab ui_uu_ll by auto
qed

lemma shift_amounts:
  fixes n :: u32
  assumes "n < 64"
  shows "n \<ge> 32 \<Longrightarrow> n - 32 < 32 \<and> unat (n - 32) = unat n - 32 \<and> 32 \<le> unat n \<and> unat n < 64"
    and "n \<noteq> 0 \<Longrightarrow> \<not> n \<ge> 32 \<Longrightarrow> 32 - n < 32 \<and> unat (32 - n) = 32 - unat n \<and> 0 < unat n \<and> unat n < 32"
proof -
  have n: "unat n < 64" using assms by (simp add: word_less_nat_alt)
  show "n - 32 < 32 \<and> unat (n - 32) = unat n - 32 \<and> 32 \<le> unat n \<and> unat n < 64" if "n \<ge> 32"
  proof -
    have "unat (n - 32) = unat n - 32" using that by (subst unat_sub) simp_all
    then show ?thesis using n that by (simp add: word_less_nat_alt word_le_nat_alt)
  qed
  show "32 - n < 32 \<and> unat (32 - n) = 32 - unat n \<and> 0 < unat n \<and> unat n < 32" if "n \<noteq> 0" "\<not> n \<ge> 32"
  proof -
    have "unat (32 - n) = 32 - unat n" using that by (subst unat_sub) simp_all
    moreover have "0 < unat n" "unat n < 32" using that by (simp_all add: unat_gt_0 word_less_nat_alt not_le)
    ultimately show ?thesis by (simp add: word_less_nat_alt)
  qed
qed

text \<open>Two 64-bit words are equal when their halves are.\<close>

lemma halves_eqI:
  assumes "\<And>k. k < 32 \<Longrightarrow> bit x k = bit y k" and "\<And>k. k < 32 \<Longrightarrow> bit x (32 + k) = bit y (32 + k)"
  shows "x = (y :: u64)"
proof (rule bit_word_eqI)
  fix k assume "k < LENGTH(64)"
  then show "bit x k = bit y k" using assms(1) [of k] assms(2) [of "k - 32"] by (cases "k < 32") auto
qed

lemma bit_shifts32:
  "bit (push_bit m (x :: u32)) k \<longleftrightarrow> k < 32 \<and> m \<le> k \<and> bit x (k - m)"
  "bit (drop_bit m (x :: u32)) k \<longleftrightarrow> bit x (m + k)"
  "bit (signed_drop_bit m (x :: u32)) k \<longleftrightarrow> k < 32 \<and> bit x (if 32 \<le> m + k then 31 else m + k)"
proof -
  show "bit (signed_drop_bit m x) k \<longleftrightarrow> k < 32 \<and> bit x (if 32 \<le> m + k then 31 else m + k)"
    using bit_imp_le_length [of x "m + k"] by (simp add: bit_signed_drop_bit_iff) linarith
qed (simp_all add: bit_push_bit_iff bit_drop_bit_eq conj_ac)

lemma bit_shifts64:
  "bit (push_bit m (x :: u64)) k \<longleftrightarrow> k < 64 \<and> m \<le> k \<and> bit x (k - m)"
  "bit (drop_bit m (x :: u64)) k \<longleftrightarrow> bit x (m + k)"
  "bit (signed_drop_bit m (x :: u64)) k \<longleftrightarrow> k < 64 \<and> bit x (if 64 \<le> m + k then 63 else m + k)"
proof -
  show "bit (signed_drop_bit m x) k \<longleftrightarrow> k < 64 \<and> bit x (if 64 \<le> m + k then 63 else m + k)"
    using bit_imp_le_length [of x "m + k"] by (simp add: bit_signed_drop_bit_iff) linarith
qed (simp_all add: bit_push_bit_iff bit_drop_bit_eq conj_ac)

lemmas halves_simps = bit_uu_ll bit_ui bit_shifts32 bit_shifts64 bit_or_iff

lemma index_eqI: "i = j \<Longrightarrow> bit (a :: u64) i \<Longrightarrow> bit a j"
  by simp

lemma push_bit_halves:
  "32 \<le> n \<Longrightarrow> uu_ll (push_bit (n - 32) (ui_L a)) 0 = push_bit n a"
  "n < 32 \<Longrightarrow> uu_ll (push_bit n (ui_H a) OR drop_bit (32 - n) (ui_L a)) (push_bit n (ui_L a)) = push_bit n a"
  by (rule halves_eqI, auto simp: halves_simps elim!: index_eqI [rotated])+

lemma drop_bit_halves:
  "32 \<le> n \<Longrightarrow> uu_ll 0 (drop_bit (n - 32) (ui_H a)) = drop_bit n a"
  "n < 32 \<Longrightarrow> uu_ll (drop_bit n (ui_H a)) (drop_bit n (ui_L a) OR push_bit (32 - n) (ui_H a)) = drop_bit n a"
  by (rule halves_eqI, auto simp: halves_simps elim!: index_eqI [rotated] dest: bit_imp_le_length)+

lemma signed_drop_bit_halves:
  "32 \<le> n \<Longrightarrow> uu_ll (signed_drop_bit 1 (signed_drop_bit 31 (ui_H a))) (signed_drop_bit (n - 32) (ui_H a)) = signed_drop_bit n a"
  "n < 32 \<Longrightarrow> uu_ll (signed_drop_bit n (ui_H a)) (drop_bit n (ui_L a) OR push_bit (32 - n) (ui_H a)) = signed_drop_bit n a"
  by (rule halves_eqI, auto simp: halves_simps elim!: index_eqI [rotated] dest: bit_imp_le_length)+

lemma shift_cases:
  fixes n :: u32
  assumes "n < 64"
  obtains "n = 0" | "n \<ge> 32" "n - 32 < 32" "unat (n - 32) = unat n - 32" "32 \<le> unat n"
  | "n \<noteq> 0" "n < 32" "32 - n < 32" "unat (32 - n) = 32 - unat n" "unat n < 32"
  using shift_amounts [OF assms] by (metis not_le)

lemmas shift_defs = ashldi3_def lshldi3_def lshrdi3_def ashrdi3_def shl32_def shr32_def sar32_def

lemma shifts_eq:
  assumes "n < 64"
  shows "ashldi3 a n = Inr (push_bit (unat n) a) \<and> lshldi3 a n = Inr (push_bit (unat n) a) \<and>
    lshrdi3 a n = Inr (drop_bit (unat n) a) \<and> ashrdi3 a n = Inr (signed_drop_bit (unat n) a)"
proof (cases rule: shift_cases [OF assms])
  case 1
  then show ?thesis by (simp add: shift_defs)
next
  case 2
  then have "n \<noteq> 0" by auto
  moreover have "(31 :: u32) < 32" "(1 :: u32) < 32" "unat (31 :: u32) = 31" "unat (1 :: u32) = 1" by simp_all
  ultimately show ?thesis
    using 2 by (simp only: shift_defs if_True if_False kbind_Inr push_bit_halves drop_bit_halves signed_drop_bit_halves simp_thms)
next
  case 3
  then have "\<not> 32 \<le> n" by simp
  then show ?thesis
    using 3 by (simp only: shift_defs if_True if_False kbind_Inr push_bit_halves drop_bit_halves signed_drop_bit_halves simp_thms)
qed

section \<open>Multiplication\<close>

definition lmulq :: "u32 \<Rightarrow> u32 \<Rightarrow> u64" where
  "lmulq u v =
     (let u1 = HHALF u; u0 = LHALF u; v1 = HHALF v; v0 = LHALF v; low = u0 * v0 in
      if u1 = 0 \<and> v1 = 0 then ucast low
      else
        let (udiff, neg1) = (if u1 \<ge> u0 then (u1 - u0, False) else (u0 - u1, True));
            (vdiff, neg) = (if v0 \<ge> v1 then (v0 - v1, neg1) else (v1 - v0, \<not> neg1));
            mid = udiff * vdiff; high = u1 * v1;
            prodh = high + HHALF high; prodl = LHUP high;
            (prodh, prodl) =
              (if neg then (let was = prodl; l = prodl - LHUP mid in (prodh - (HHALF mid + (if l > was then 1 else 0)), l))
               else (let was = prodl; l = prodl + LHUP mid in (prodh + (HHALF mid + (if l < was then 1 else 0)), l)));
            (prodh, prodl) = (let was = prodl; l = prodl + LHUP low in (prodh + (HHALF low + (if l < was then 1 else 0)), l));
            (prodh, prodl) = (let l = prodl + low in (if l < low then prodh + 1 else prodh, l))
        in uu_ll prodh prodl)"

definition muldi3 :: "u64 \<Rightarrow> u64 \<Rightarrow> u64" where
  "muldi3 a b =
     (let (u, negall1) = (if sint a \<ge> 0 then (a, False) else (- a, True));
          (v, negall) = (if sint b \<ge> 0 then (b, negall1) else (- b, \<not> negall1));
          u1 = ui_H u; u0 = ui_L u; v1 = ui_H v; v0 = ui_L v;
          prod =
            (if u1 = 0 \<and> v1 = 0 then lmulq u0 v0
             else
               let low = lmulq u0 v0;
                   (udiff, negmid1) = (if u1 \<ge> u0 then (u1 - u0, False) else (u0 - u1, True));
                   (vdiff, negmid) = (if v0 \<ge> v1 then (v0 - v1, negmid1) else (v1 - v0, \<not> negmid1));
                   mid = udiff * vdiff; high = u1 * v1
               in uu_ll (high + (if negmid then - mid else mid) + ui_L low + ui_H low) (ui_L low))
      in if negall then - prod else prod)"

lemma uu_ll_add: "uu_ll (h + (h' + (if l + l' < l then 1 else 0))) (l + l') = uu_ll h l + uu_ll h' l'"
  using adddi3_eq [of "uu_ll h' l'" "uu_ll h l"] by (simp add: adddi3_def Let_def ac_simps)

lemma uu_ll_sub: "uu_ll (h - (h' + (if l - l' > l then 1 else 0))) (l - l') = uu_ll h l - uu_ll h' l'"
  using subdi3_eq [of "uu_ll h l" "uu_ll h' l'"] by (simp add: subdi3_def Let_def diff_diff_eq)

lemma uu_ll_ucast: "uu_ll h l = ucast h * 2 ^ 32 + ucast l"
  unfolding uu_ll_eq by simp

lemma uu_ll_halves: "uu_ll (HHALF x) (LHUP x) = ucast x * 2 ^ 16"
proof -
  have "uu_ll (HHALF x) (LHUP x) = push_bit 16 (ucast x)"
    by (rule halves_eqI)
      (auto simp: halves_simps HHALF_def LHUP_def bit_unsigned_iff elim!: index_eqI [rotated] dest: bit_imp_le_length)
  then show ?thesis by (simp add: push_bit_eq_mult)
qed

lemma uint_halves: "uint (HHALF x) = uint x div 2 ^ 16" "uint (LHALF x) = uint x mod 2 ^ 16"
proof -
  show "uint (HHALF x) = uint x div 2 ^ 16" by (simp add: HHALF_def drop_bit_eq_div uint_div)
  have "LHALF x = take_bit 16 x" by (simp add: LHALF_def take_bit_eq_mask mask_eq_exp_minus_1)
  then show "uint (LHALF x) = uint x mod 2 ^ 16" by (simp add: take_bit_eq_mod uint_mod)
qed

lemma halves_less: "uint (HHALF x) < 2 ^ 16" "uint (LHALF x) < 2 ^ 16"
  using uint_bounds32 [of x] unfolding uint_halves by (simp_all add: div_less_iff_less_mult)

lemma ucast_halves: "(ucast x :: u64) = ucast (HHALF x) * 2 ^ 16 + ucast (LHALF x)"
proof -
  have "uint x = uint (HHALF x) * 2 ^ 16 + uint (LHALF x)" unfolding uint_halves by simp
  then have "(of_int (uint x) :: u64) = of_int (uint (HHALF x) * 2 ^ 16 + uint (LHALF x))" by (rule arg_cong)
  then show ?thesis by simp
qed

lemma ucast_mult:
  assumes "uint x < 2 ^ 16" and "uint y < 2 ^ 16"
  shows "(ucast (x * y :: u32) :: u64) = ucast x * ucast y"
proof -
  have "uint x * uint y \<le> (2 ^ 16 - 1) * (2 ^ 16 - 1)" using assms by (intro mult_mono) simp_all
  then have "uint x * uint y < 2 ^ 32" by simp
  then have "uint (x * y) = uint x * uint y" using uint_mult_lem [of x y] by simp
  then have "(of_int (uint (x * y)) :: u64) = of_int (uint x * uint y)" by (rule arg_cong)
  then show ?thesis by simp
qed

lemma ucast_diff:
  assumes "y \<le> x"
  shows "(ucast (x - y :: u32) :: u64) = ucast x - ucast y"
proof -
  have "uint (x - y) = uint x - uint y" using assms by (simp add: uint_sub_lem [symmetric] word_le_def)
  then have "(of_int (uint (x - y)) :: u64) = of_int (uint x - uint y)" by (rule arg_cong)
  then show ?thesis by simp
qed

text \<open>The middle term with its sign.\<close>

lemma signed_product:
  fixes u1 u0 v1 v0 :: u32
  assumes "uint u1 < 2 ^ 16" "uint u0 < 2 ^ 16" "uint v1 < 2 ^ 16" "uint v0 < 2 ^ 16"
    and "(udiff, neg1) = (if u1 \<ge> u0 then (u1 - u0, False) else (u0 - u1, True))"
    and "(vdiff, neg) = (if v0 \<ge> v1 then (v0 - v1, neg1) else (v1 - v0, \<not> neg1))"
  shows "(if neg then - (ucast (udiff * vdiff) :: u64) else ucast (udiff * vdiff)) =
    (ucast u1 - ucast u0) * (ucast v0 - ucast v1)"
proof -
  have less: "uint (x - y) < 2 ^ 16" if "y \<le> x" "uint x < 2 ^ 16" for x y :: u32
  proof -
    have "uint (x - y) = uint x - uint y" using that by (simp add: uint_sub_lem [symmetric] word_le_def)
    then show ?thesis using that uint_bounds32(1) [of y] by linarith
  qed
  have u: "uint udiff < 2 ^ 16" "(ucast udiff :: u64) = (if neg1 then ucast u0 - ucast u1 else ucast u1 - ucast u0)"
    using assms(1,2,5) less [of u0 u1] less [of u1 u0] ucast_diff [of u0 u1] ucast_diff [of u1 u0] by (auto split: if_splits)
  have v: "uint vdiff < 2 ^ 16" "(ucast vdiff :: u64) = (if neg = neg1 then ucast v0 - ucast v1 else ucast v1 - ucast v0)"
    using assms(3,4,6) less [of v0 v1] less [of v1 v0] ucast_diff [of v0 v1] ucast_diff [of v1 v0] by (auto split: if_splits)
  show ?thesis unfolding ucast_mult [OF u(1) v(1)] u(2) v(2) by (simp add: algebra_simps)
qed

lemma lmulq_eq: "lmulq u v = ucast u * ucast v"
proof -
  define u1 u0 v1 v0 where hl: "u1 = HHALF u" "u0 = LHALF u" "v1 = HHALF v" "v0 = LHALF v"
  note less = halves_less [of u, folded hl] halves_less [of v, folded hl]
  have uv: "(ucast u :: u64) = ucast u1 * 2 ^ 16 + ucast u0" "(ucast v :: u64) = ucast v1 * 2 ^ 16 + ucast v0"
    unfolding hl by (rule ucast_halves)+
  have low: "(ucast (u0 * v0) :: u64) = ucast u0 * ucast v0" "(ucast (u1 * v1) :: u64) = ucast u1 * ucast v1"
    by (rule ucast_mult [OF less(2,4)] ucast_mult [OF less(1,3)])+
  show ?thesis
  proof (cases "u1 = 0 \<and> v1 = 0")
    case True
    then show ?thesis using low uv by (simp add: lmulq_def Let_def flip: hl)
  next
    case False
    obtain udiff neg1 where ud: "(udiff, neg1) = (if u1 \<ge> u0 then (u1 - u0, False) else (u0 - u1, True))" by (metis surj_pair)
    obtain vdiff neg where vd: "(vdiff, neg) = (if v0 \<ge> v1 then (v0 - v1, neg1) else (v1 - v0, \<not> neg1))" by (metis surj_pair)
    define mid where "mid = udiff * vdiff"
    define high where "high = u1 * v1"
    let ?h = "high + HHALF high" and ?l = "LHUP high"
    have start: "uu_ll ?h ?l = ucast high * 2 ^ 32 + ucast high * 2 ^ 16"
      using uu_ll_add [of high "HHALF high" 0 "LHUP high"] unfolding uu_ll_halves by (simp add: uu_ll_ucast [of high])
    define p where "p = (if neg then (?h - (HHALF mid + (if ?l - LHUP mid > ?l then 1 else 0)), ?l - LHUP mid)
      else (?h + (HHALF mid + (if ?l + LHUP mid < ?l then 1 else 0)), ?l + LHUP mid))"
    obtain h1 l1 where p: "p = (h1, l1)" by (cases p)
    have s1: "uu_ll h1 l1 = ucast high * 2 ^ 32 + ucast high * 2 ^ 16 + (if neg then - ucast mid else ucast mid) * 2 ^ 16"
    proof -
      have "uu_ll h1 l1 = (if neg then uu_ll ?h ?l - ucast mid * 2 ^ 16 else uu_ll ?h ?l + ucast mid * 2 ^ 16)"
      proof (cases neg)
        case True
        then have "h1 = ?h - (HHALF mid + (if ?l - LHUP mid > ?l then 1 else 0))" "l1 = ?l - LHUP mid" using p unfolding p_def by auto
        then show ?thesis using True uu_ll_sub [of ?h "HHALF mid" ?l "LHUP mid"] by (simp only: uu_ll_halves if_True)
      next
        case False
        then have "h1 = ?h + (HHALF mid + (if ?l + LHUP mid < ?l then 1 else 0))" "l1 = ?l + LHUP mid" using p unfolding p_def by auto
        then show ?thesis using False uu_ll_add [of ?h "HHALF mid" ?l "LHUP mid"] by (simp only: uu_ll_halves if_False)
      qed
      then show ?thesis unfolding start by simp
    qed
    define low where "low = u0 * v0"
    define l2 where "l2 = l1 + LHUP low"
    define h2 where "h2 = h1 + (HHALF low + (if l2 < l1 then 1 else 0))"
    have s2: "uu_ll h2 l2 = uu_ll h1 l1 + ucast low * 2 ^ 16"
      unfolding h2_def l2_def uu_ll_halves [symmetric] by (rule uu_ll_add)
    have "lmulq u v = uu_ll (if l2 + low < low then h2 + 1 else h2) (l2 + low)"
      using False unfolding lmulq_def Let_def hl [symmetric] ud [symmetric] prod.case vd [symmetric]
        mid_def [symmetric] high_def [symmetric] low_def [symmetric] p_def [symmetric] p h2_def [symmetric] l2_def [symmetric]
      by auto
    also have "\<dots> = uu_ll h2 l2 + ucast low"
    proof -
      have "uu_ll (if l2 + low < low then h2 + 1 else h2) (l2 + low) = adddi3 (uu_ll h2 l2) (uu_ll 0 low)"
        by (simp add: adddi3_def Let_def)
      then show ?thesis unfolding adddi3_eq by (simp add: uu_ll_ucast [of 0])
    qed
    finally show ?thesis
      unfolding s2 s1 mid_def signed_product [OF less ud vd] uv low_def high_def low by (simp add: algebra_simps)
  qed
qed

text \<open>In the upper half only the value modulo \<open>2 ^ 32\<close> counts.\<close>

lemma upper_half:
  "(ucast (x + y :: u32) :: u64) * 2 ^ 32 = (ucast x + ucast y) * 2 ^ 32"
  "(ucast (x - y :: u32) :: u64) * 2 ^ 32 = (ucast x - ucast y) * 2 ^ 32"
  "(ucast (x * y :: u32) :: u64) * 2 ^ 32 = ucast x * ucast y * 2 ^ 32"
  "(ucast (- x :: u32) :: u64) * 2 ^ 32 = - ucast x * 2 ^ 32"
proof -
  have of_int: "(ucast (of_int k :: u32) :: u64) * 2 ^ 32 = of_int k * 2 ^ 32" for k
    using uu_ll_of_int [of k 0] unfolding uu_ll_ucast by simp
  show "(ucast (x + y) :: u64) * 2 ^ 32 = (ucast x + ucast y) * 2 ^ 32" using of_int [of "uint x + uint y"] by simp
  show "(ucast (x - y) :: u64) * 2 ^ 32 = (ucast x - ucast y) * 2 ^ 32" using of_int [of "uint x - uint y"] by simp
  show "(ucast (x * y) :: u64) * 2 ^ 32 = ucast x * ucast y * 2 ^ 32" using of_int [of "uint x * uint y"] by simp
  show "(ucast (- x) :: u64) * 2 ^ 32 = - ucast x * 2 ^ 32" using of_int [of "- uint x"] by simp
qed

lemma signed_product_upper:
  fixes u1 u0 v1 v0 :: u32
  assumes "(udiff, neg1) = (if u1 \<ge> u0 then (u1 - u0, False) else (u0 - u1, True))"
    and "(vdiff, neg) = (if v0 \<ge> v1 then (v0 - v1, neg1) else (v1 - v0, \<not> neg1))"
  shows "(ucast (if neg then - (udiff * vdiff) else udiff * vdiff) :: u64) * 2 ^ 32 = (ucast u1 - ucast u0) * (ucast v0 - ucast v1) * 2 ^ 32"
proof -
  have "(if neg then - (udiff * vdiff) else udiff * vdiff) = (u1 - u0) * (v0 - v1)"
    using assms by (auto simp: algebra_simps split: if_splits)
  moreover have "(ucast ((u1 - u0) * (v0 - v1)) :: u64) * 2 ^ 32 = ucast (u1 - u0) * (ucast (v0 - v1) * 2 ^ 32)"
    unfolding upper_half(3) by (simp only: mult.assoc)
  moreover have "\<dots> = (ucast (u1 - u0) * 2 ^ 32) * (ucast v0 - ucast v1)" unfolding upper_half(2) [of v0] by (simp only: ac_simps)
  ultimately show ?thesis unfolding upper_half(2) by (simp only: ac_simps)
qed

lemma mul_halves:
  fixes u v :: u64
  defines "u1 \<equiv> ui_H u" and "u0 \<equiv> ui_L u" and "v1 \<equiv> ui_H v" and "v0 \<equiv> ui_L v"
  assumes ud: "(udiff, neg1) = (if u1 \<ge> u0 then (u1 - u0, False) else (u0 - u1, True))"
    and vd: "(vdiff, neg) = (if v0 \<ge> v1 then (v0 - v1, neg1) else (v1 - v0, \<not> neg1))"
  shows "uu_ll (u1 * v1 + (if neg then - (udiff * vdiff) else udiff * vdiff) + ui_L (lmulq u0 v0) + ui_H (lmulq u0 v0)) (ui_L (lmulq u0 v0)) = u * v"
proof -
  define P where "P = (2 ^ 32 :: u64)"
  define low where "low = lmulq u0 v0"
  have "P * P = 2 ^ 64" unfolding P_def by (simp only: power_add [symmetric]) simp
  also have "(2 ^ 64 :: u64) = 0" unfolding exp_eq_zero_iff by simp
  finally have zero: "P * (P * x) = 0" for x by (simp flip: mult.assoc)
  have l: "low = ucast u0 * ucast v0" by (simp add: low_def lmulq_eq)
  have split: "w = ucast (ui_H w) * P + ucast (ui_L w)" for w :: u64
    using uu_ll_ucast [of "ui_H w" "ui_L w"] by (simp add: P_def)
  have uv: "u = ucast u1 * P + ucast u0" "v = ucast v1 * P + ucast v0" using split unfolding u1_def u0_def v1_def v0_def by simp_all
  have "low * P = (ucast (ui_H low) * P + ucast (ui_L low)) * P" using split [of low] by simp
  then have lowP: "low * P = ucast (ui_L low) * P" using zero by (simp add: algebra_simps)
  have "uu_ll (u1 * v1 + (if neg then - (udiff * vdiff) else udiff * vdiff) + ui_L low + ui_H low) (ui_L low) =
      ucast u1 * ucast v1 * P + (ucast u1 - ucast u0) * (ucast v0 - ucast v1) * P + low * P + (ucast (ui_H low) * P + ucast (ui_L low))"
    unfolding lowP unfolding P_def uu_ll_ucast upper_half(1) distrib_right signed_product_upper [OF ud vd] upper_half(3) by (simp only: ac_simps)
  also have "ucast (ui_H low) * P + ucast (ui_L low) = low" using split [of low] by simp
  also have "ucast u1 * ucast v1 * P + (ucast u1 - ucast u0) * (ucast v0 - ucast v1) * P + low * P + low =
      ucast u1 * ucast v0 * P + ucast u0 * ucast v1 * P + low" unfolding l by (simp add: algebra_simps)
  also have "\<dots> = u * v" unfolding uv l by (simp add: algebra_simps zero)
  finally show ?thesis by (simp add: low_def)
qed

lemma muldi3_eq: "muldi3 a b = a * b"
proof -
  obtain u neg1 where u: "(u, neg1) = (if sint a \<ge> 0 then (a, False) else (- a, True))" by (metis surj_pair)
  obtain v neg where v: "(v, neg) = (if sint b \<ge> 0 then (b, neg1) else (- b, \<not> neg1))" by (metis surj_pair)
  have ab: "a * b = (if neg then - (u * v) else u * v)" using u v by (auto split: if_splits)
  obtain udiff neg2 where ud: "(udiff, neg2) = (if ui_H u \<ge> ui_L u then (ui_H u - ui_L u, False) else (ui_L u - ui_H u, True))" by (metis surj_pair)
  obtain vdiff negmid where vd: "(vdiff, negmid) = (if ui_L v \<ge> ui_H v then (ui_L v - ui_H v, neg2) else (ui_H v - ui_L v, \<not> neg2))" by (metis surj_pair)
  have small: "u * v = lmulq (ui_L u) (ui_L v)" if "ui_H u = 0 \<and> ui_H v = 0"
    using uu_ll_ui [of u] uu_ll_ui [of v] that unfolding lmulq_eq by (metis add_0 mult_zero_left unsigned_0 uu_ll_ucast)
  show ?thesis
    unfolding muldi3_def Let_def u [symmetric] v [symmetric] prod.case ud [symmetric] vd [symmetric] mul_halves [OF ud vd] ab
    using small by simp
qed

end
