(* ===== verification/LongDiv.thy ===== *)
theory LongDiv
  imports LongLong "HOL-Library.Signed_Division"
begin

text \<open>
  Division of 64-bit integers: \<open>common/gcc-millicode/qdivrem.c\<close>, Knuth's algorithm D on digits
  in base \<open>2 ^ 16\<close>, and the four functions the compiler calls. The algorithm is shown to give
  quotient and remainder for every dividend and every divisor but 0.
\<close>

section \<open>The code\<close>

abbreviation (input) B :: nat where "B \<equiv> 0x10000"

definition COMBINE :: "u32 \<Rightarrow> u32 \<Rightarrow> u32" where
  "COMBINE a b = push_bit 16 a OR b"

text \<open>The four digits of a 64-bit word, after an unused first place.\<close>

definition digits4 :: "u64 \<Rightarrow> u16 list" where
  "digits4 a = [0, ucast (HHALF (ui_H a)), ucast (LHALF (ui_H a)), ucast (HHALF (ui_L a)), ucast (LHALF (ui_L a))]"

definition of_digits4 :: "u16 list \<Rightarrow> u64" where
  "of_digits4 p = uu_ll (COMBINE (ucast (p ! 1)) (ucast (p ! 2))) (COMBINE (ucast (p ! 3)) (ucast (p ! 4)))"

text \<open>
  The search for the first digit of the divisor that is not 0; \<open>None\<close> when only the last one is
  left. The pointer \<open>v\<close> is the array with a place in it.
\<close>

fun skip_v :: "u16 list \<Rightarrow> nat \<Rightarrow> nat \<Rightarrow> (nat \<times> nat) option" where
  "skip_v vs v n =
     (if n \<le> 1 then None
      else if vs ! (v + 1) = 0 then (if n - 1 = 1 then None else skip_v vs (v + 1) (n - 1))
      else Some (v, n))"

function skip_u :: "u16 list \<Rightarrow> nat \<Rightarrow> int \<Rightarrow> (nat \<times> int) res" where
  "skip_u us u m =
     (if u + 1 \<ge> length us then Inl (Undefined ''u[1]'')
      else if us ! (u + 1) = 0 then skip_u us (u + 1) (m - 1)
      else Inr (u, m))"
  by pat_completeness auto
termination
  by (relation "measure (\<lambda>(us, u, m). length us - u)") auto

declare skip_v.simps [simp del] skip_u.simps [simp del]

text \<open>The loop \<open>for (t = v[1]; t < B / 2; t <<= 1) d++\<close>; it does not end for 0.\<close>

partial_function (option) count_shift :: "u32 \<Rightarrow> nat \<Rightarrow> nat option" where
  "count_shift t d = (if t < 0x8000 then count_shift (push_bit 1 t) (d + 1) else Some d)"

declare count_shift.simps [code]

text \<open>\<open>shl(&p[b], len, sh)\<close>\<close>

definition shl_digit :: "u16 \<Rightarrow> u16 \<Rightarrow> nat \<Rightarrow> u16" where
  "shl_digit x y sh = ucast (LHALF (push_bit sh (ucast x)) OR drop_bit (16 - sh) (ucast y :: u32))"

definition shl :: "u16 list \<Rightarrow> nat \<Rightarrow> nat \<Rightarrow> nat \<Rightarrow> u16 list" where
  "shl p b len sh =
     (let p1 = fold (\<lambda>i p. p[b + i := shl_digit (p ! (b + i)) (p ! (b + i + 1)) sh]) [0..<len] p
      in p1[b + len := ucast (LHALF (push_bit sh (ucast (p1 ! (b + len)))))])"

text \<open>Step D3: the correction of the estimate.\<close>

partial_function (option) qhat_loop :: "u32 \<Rightarrow> u32 \<Rightarrow> u32 \<Rightarrow> u32 \<Rightarrow> u32 \<Rightarrow> (u32 \<times> u32) option" where
  "qhat_loop v1 v2 uj2 qhat rhat =
     (if v2 * qhat > COMBINE rhat uj2
      then (let qhat = qhat - 1; rhat = rhat + v1 in
            if rhat \<ge> 0x10000 then Some (qhat, rhat) else qhat_loop v1 v2 uj2 qhat rhat)
      else Some (qhat, rhat))"

declare qhat_loop.simps [code]

definition qhat_estimate :: "u32 \<Rightarrow> u32 \<Rightarrow> u32 \<Rightarrow> u32 \<Rightarrow> u32 \<Rightarrow> u32 res" where
  "qhat_estimate uj0 uj1 uj2 v1 v2 =
     kbind (if uj0 = v1
            then (let qhat = 0x10000 - 1; rhat = uj1 + v1 in
                  if rhat \<ge> 0x10000 then Inr (Some (qhat, rhat)) else Inr (qhat_loop v1 v2 uj2 qhat rhat))
            else if v1 = 0 then Inl (Undefined ''division by zero'')
            else (let nn = COMBINE uj0 uj1 in Inr (qhat_loop v1 v2 uj2 (nn div v1) (nn mod v1)))) (\<lambda>r.
     case r of None \<Rightarrow> Inl (Undefined ''loop without end'') | Some (qhat, rhat) \<Rightarrow> Inr qhat)"

text \<open>Step D4: multiply and subtract, from digit \<open>i\<close> down to 1. \<open>u\<close> and \<open>v\<close> are places in the arrays.\<close>

fun mul_sub :: "nat \<Rightarrow> nat \<Rightarrow> u16 list \<Rightarrow> u32 \<Rightarrow> nat \<Rightarrow> u16 list \<Rightarrow> u32 \<Rightarrow> u16 list \<times> u32" where
  "mul_sub u v vs qhat 0 us t = (us, t)"
| "mul_sub u v vs qhat (Suc i) us t =
     (let t1 = ucast (us ! (u + Suc i)) - ucast (vs ! (v + Suc i)) * qhat - t in
      mul_sub u v vs qhat i (us[u + Suc i := ucast (LHALF t1)]) ((0x10000 - HHALF t1) AND (0x10000 - 1)))"

text \<open>Step D6: add back.\<close>

fun add_back :: "nat \<Rightarrow> nat \<Rightarrow> u16 list \<Rightarrow> nat \<Rightarrow> u16 list \<Rightarrow> u32 \<Rightarrow> u16 list \<times> u32" where
  "add_back u v vs 0 us t = (us, t)"
| "add_back u v vs (Suc i) us t =
     (let t1 = t + (ucast (us ! (u + Suc i)) + ucast (vs ! (v + Suc i))) in
      add_back u v vs i (us[u + Suc i := ucast (LHALF t1)]) (HHALF t1))"

text \<open>One round of the main loop, steps D3 to D6, at place \<open>u + j\<close> of the dividend.\<close>

definition div_step :: "nat \<Rightarrow> nat \<Rightarrow> u16 list \<Rightarrow> nat \<Rightarrow> u16 list \<Rightarrow> (u16 list \<times> u32) res" where
  "div_step uj v vs n us =
     kbind (qhat_estimate (ucast (us ! uj)) (ucast (us ! (uj + 1))) (ucast (us ! (uj + 2)))
              (ucast (vs ! (v + 1))) (ucast (vs ! (v + 2)))) (\<lambda>qhat.
     let (us1, t) = mul_sub uj v vs qhat n us 0;
         t1 = ucast (us1 ! uj) - t;
         us2 = us1[uj := ucast (LHALF t1)]
     in if HHALF t1 \<noteq> 0
        then (let (us3, t2) = add_back uj v vs n us2 0
              in Inr (us3[uj := ucast (LHALF (ucast (us3 ! uj) + t2))], qhat - 1))
        else Inr (us2, qhat))"

fun div_loop :: "nat \<Rightarrow> nat \<Rightarrow> u16 list \<Rightarrow> nat \<Rightarrow> nat \<Rightarrow> nat \<Rightarrow> nat \<Rightarrow> u16 list \<Rightarrow> u16 list \<Rightarrow> (u16 list \<times> u16 list) res" where
  "div_loop u v vs n q 0 j us qs = Inr (us, qs)"
| "div_loop u v vs n q (Suc k) j us qs =
     kbind (div_step (u + j) v vs n us) (\<lambda>(us', qhat).
     div_loop u v vs n q k (Suc j) us' (qs[q + j := ucast qhat]))"

text \<open>The remainder shifted back: digits \<open>u[m+n]\<close> down to \<open>u[m+1]\<close>, then \<open>u[m] = 0\<close>.\<close>

fun shift_back :: "nat \<Rightarrow> nat \<Rightarrow> nat \<Rightarrow> u16 list \<Rightarrow> u16 list" where
  "shift_back u d 0 us = us[u := 0]"
| "shift_back u d (Suc i) us =
     shift_back u d i (us[u + Suc i := ucast (drop_bit d (ucast (us ! (u + Suc i))) OR
                                          LHALF (push_bit (16 - d) (ucast (us ! (u + i)) :: u32)))])"

text \<open>The case of a divisor of one digit.\<close>

definition div_one :: "u16 list \<Rightarrow> u32 \<Rightarrow> u64 \<times> u64" where
  "div_one us t =
     (let u1 = ucast (us ! 1); q1 = u1 div t;
          rbj = COMBINE (u1 mod t) (ucast (us ! 2)); q2 = rbj div t;
          rbj = COMBINE (rbj mod t) (ucast (us ! 3)); q3 = rbj div t;
          rbj = COMBINE (rbj mod t) (ucast (us ! 4)); q4 = rbj div t
      in (uu_ll (COMBINE (LHALF q1) (LHALF q2)) (COMBINE (LHALF q3) (LHALF q4)), ucast (rbj mod t)))"

text \<open>\<open>__qdivrem\<close>: the quotient, and the remainder it stores when asked. \<open>qjunk\<close> is what the
  array of the quotient holds at the start.\<close>

definition qdivrem :: "u16 list \<Rightarrow> u64 \<Rightarrow> u64 \<Rightarrow> (u64 \<times> u64) res" where
  "qdivrem qjunk ull vll =
     (if vll = 0 then Inl (Undefined ''division by zero'')
      else if ull < vll then Inr (0, ull)
      else
        let us = digits4 ull; vs = digits4 vll in
        case skip_v vs 0 4 of
          None \<Rightarrow> Inr (div_one us (ucast (vs ! 4)))
        | Some (v, n) \<Rightarrow>
            kbind (skip_u us 0 (4 - int n)) (\<lambda>(u, m).
            let m = nat m;
                qs = fold (\<lambda>i q. q[i := 0]) (rev [0..<4 - m]) qjunk in
            case count_shift (ucast (vs ! (v + 1))) 0 of
              None \<Rightarrow> Inl (Undefined ''loop without end'')
            | Some d \<Rightarrow>
                let us1 = (if d > 0 then shl us u (m + n) d else us);
                    vs1 = (if d > 0 then shl vs (v + 1) (n - 1) d else vs) in
                kbind (div_loop u v vs1 n (4 - m) (m + 1) 0 us1 qs) (\<lambda>(us2, qs2).
                let us3 = (if d > 0 then shift_back (u + m) d n us2 else us2)
                in Inr (of_digits4 qs2, of_digits4 us3))))"

definition udivdi3 :: "u16 list \<Rightarrow> u64 \<Rightarrow> u64 \<Rightarrow> u64 res" where
  "udivdi3 qjunk a b = kbind (qdivrem qjunk a b) (\<lambda>(q, r). Inr q)"

definition umoddi3 :: "u16 list \<Rightarrow> u64 \<Rightarrow> u64 \<Rightarrow> u64 res" where
  "umoddi3 qjunk a b = kbind (qdivrem qjunk a b) (\<lambda>(q, r). Inr r)"

definition divdi3 :: "u16 list \<Rightarrow> u64 \<Rightarrow> u64 \<Rightarrow> u64 res" where
  "divdi3 qjunk a b =
     (let (ua, neg1) = (if sint a < 0 then (- a, True) else (a, False));
          (ub, neg) = (if sint b < 0 then (- b, \<not> neg1) else (b, neg1))
      in kbind (qdivrem qjunk ua ub) (\<lambda>(uq, r). Inr (if neg then - uq else uq)))"

definition moddi3 :: "u16 list \<Rightarrow> u64 \<Rightarrow> u64 \<Rightarrow> u64 res" where
  "moddi3 qjunk a b =
     (let (ua, neg) = (if sint a < 0 then (- a, True) else (a, False));
          ub = (if sint b < 0 then - b else b)
      in kbind (qdivrem qjunk ua ub) (\<lambda>(q, ur). Inr (if neg then - ur else ur)))"

section \<open>Digits and their value\<close>

text \<open>The value of \<open>k\<close> digits from place \<open>a\<close> on, the first one the most significant.\<close>

fun dval :: "u16 list \<Rightarrow> nat \<Rightarrow> nat \<Rightarrow> nat" where
  "dval xs a 0 = 0"
| "dval xs a (Suc k) = dval xs a k * B + unat (xs ! (a + k))"

lemma unat16_less: "unat (x :: u16) < B"
  using unsigned_less [of x, where ?'a = nat] by simp

lemma dval_less: "dval xs a k < B ^ k"
proof (induction k)
  case (Suc k)
  have "dval xs a k * B + unat (xs ! (a + k)) < dval xs a k * B + B" using unat16_less [of "xs ! (a + k)"] by simp
  also have "\<dots> \<le> B ^ k * B" using Suc by (metis Suc_leI add.commute mult_Suc mult_le_mono1)
  finally show ?case by (simp add: mult.commute)
qed simp

lemma dval_cong: "(\<And>i. i < k \<Longrightarrow> xs ! (a + i) = ys ! (a + i)) \<Longrightarrow> dval xs a k = dval ys a k"
  by (induction k) auto

lemma dval_split: "dval xs a (k + l) = dval xs a k * B ^ l + dval xs (a + k) l"
  by (induction l) (simp_all add: algebra_simps)

lemma dval_first: "dval xs a (Suc k) = unat (xs ! a) * B ^ k + dval xs (a + 1) k"
  using dval_split [of xs a 1 k] by simp

lemma dval_zero: "(\<And>i. i < k \<Longrightarrow> xs ! (a + i) = 0) \<Longrightarrow> dval xs a k = 0"
  by (induction k) auto

lemma dval_update: "b < a \<or> a + k \<le> b \<Longrightarrow> dval (xs[b := x]) a k = dval xs a k"
  by (rule dval_cong) auto

lemma unat_HHALF: "unat (HHALF x) = unat x div B"
  by (simp add: HHALF_def drop_bit_eq_div unat_div)

lemma unat_LHALF: "unat (LHALF x) = unat x mod B"
proof -
  have "LHALF x = take_bit 16 x" by (simp add: LHALF_def take_bit_eq_mask mask_eq_exp_minus_1)
  then show ?thesis by (simp add: take_bit_eq_mod unat_mod)
qed

lemma unat_digit: "unat (ucast (x :: u16) :: u32) = unat x" "unat (ucast (LHALF y) :: u16) = unat y mod B"
proof -
  show "unat (ucast x :: u32) = unat x" using unat16_less [of x] by (simp add: unsigned_ucast_eq take_bit_nat_eq_self)
  have "unat (ucast (LHALF y) :: u16) = unat (LHALF y) mod B" by (simp add: unsigned_ucast_eq take_bit_eq_mod)
  then show "unat (ucast (LHALF y) :: u16) = unat y mod B" by (simp add: unat_LHALF)
qed

lemma unat_COMBINE: "unat a < B \<Longrightarrow> unat b < B \<Longrightarrow> unat (COMBINE a b) = unat a * B + unat b"
proof -
  assume ab: "unat a < B" "unat b < B"
  have "\<not> bit b n" if "16 \<le> n" for n
  proof -
    have "b = take_bit 16 b" using ab(2) by (simp add: take_bit_eq_mod word_unat_eq_iff unat_mod)
    then show ?thesis using that by (metis bit_take_bit_iff not_le)
  qed
  then have "push_bit 16 a AND b = 0" by (intro bit_word_eqI) (auto simp: bit_simps not_le)
  then have c: "COMBINE a b = push_bit 16 a + b" by (simp add: COMBINE_def disjunctive_add_eq_or)
  have "unat a * B + unat b < 2 ^ 32" using ab by simp
  then show ?thesis unfolding c by (simp add: push_bit_eq_mult unat_word_ariths)
qed

section \<open>Multiply and subtract, add back\<close>

lemma borrow_arith:
  fixes u v q t :: int
  assumes "0 \<le> u" "u < 65536" "0 \<le> v" "v < 65536" "0 \<le> q" "q < 65536" "0 \<le> t" "t < 65536"
  defines "x \<equiv> (u - v * q - t) mod 4294967296"
  shows "u + ((65536 - x div 65536) mod 65536) * 65536 = x mod 65536 + v * q + t"
proof -
  have vq: "0 \<le> v * q" "v * q \<le> 65535 * 65535" using assms(3-6) mult_mono [of v 65535 q 65535] by simp_all
  show ?thesis
  proof (cases "u - v * q - t \<ge> 0")
    case True
    then have "x = u - v * q - t" "x < 65536" "0 \<le> x" unfolding x_def using assms(2,7) vq by simp_all
    then show ?thesis by simp
  next
    case False
    have b: "0 \<le> u - v * q - t + 4294967296" "u - v * q - t + 4294967296 < 4294967296" using False assms(1,8) vq by linarith+
    have "x = (u - v * q - t + 4294967296) mod 4294967296" unfolding x_def by (simp only: mod_add_self2)
    also have "\<dots> = u - v * q - t + 4294967296" by (rule mod_pos_pos_trivial [OF b])
    finally have x: "x = u - v * q - t + 4294967296" .
    then have "65536 \<le> x" "x < 4294967296" using False assms(1,8) vq by simp_all
    then have "0 < x div 65536" "x div 65536 < 65536" by (simp_all add: pos_imp_zdiv_pos_iff)
    then have "(65536 - x div 65536) mod 65536 = 65536 - x div 65536" by (intro mod_pos_pos_trivial) simp_all
    then show ?thesis using x by (simp add: algebra_simps flip: minus_div_mult_eq_mod)
  qed
qed

lemma uint_digit: "0 \<le> uint (x :: u16)" "uint x < 65536" "uint (ucast x :: u32) = uint x"
proof -
  show "uint x < 65536" using uint_lt2p [of x] by simp
  then show "uint (ucast x :: u32) = uint x" by (simp add: unsigned_ucast_eq take_bit_int_eq_self)
qed simp

lemma unat_less_uint: "unat (x :: u32) < B \<longleftrightarrow> uint x < 65536"
proof -
  have "unat x < B \<longleftrightarrow> int (unat x) < int B" by (simp only: of_nat_less_iff)
  then show ?thesis by simp
qed

lemma mul_sub_step:
  fixes u v :: u16 and q t :: u32
  assumes q: "unat q < B" and t: "unat t < B"
    and t1: "t1 = ucast u - ucast v * q - t" and t2: "t2 = (0x10000 - HHALF t1) AND (0x10000 - 1)"
  shows "unat u + unat t2 * B = unat t1 mod B + unat v * unat q + unat t" "unat t2 < B"
proof -
  let ?x = "uint u - uint v * uint q - uint t"
  have qt: "uint q < 65536" "uint t < 65536" using q t by (simp_all add: unat_less_uint)
  have "t1 = of_int ?x" unfolding t1 by simp
  then have "uint t1 = take_bit 32 ?x" using uint_word_of_int_eq [of ?x, where ?'a = 32] by simp
  then have x: "uint t1 = ?x mod 4294967296" by (simp add: take_bit_eq_mod)
  have m: "t2 = take_bit 16 (0x10000 - HHALF t1)" by (simp add: t2 take_bit_eq_mask mask_eq_exp_minus_1)
  have h: "uint (HHALF t1) = uint t1 div 65536" by (simp add: uint_halves)
  then have "HHALF t1 \<le> 0x10000" using uint_bounds32 [of t1] by (simp add: word_le_def)
  then have "uint (0x10000 - HHALF t1) = 65536 - uint t1 div 65536"
    using uint_sub_lem [of "HHALF t1" "0x10000"] h by (simp add: word_le_def)
  then have t2': "uint t2 = (65536 - uint t1 div 65536) mod 65536"
    unfolding m unsigned_take_bit_eq by (simp only: take_bit_eq_mod) simp
  have "uint u + uint t2 * 65536 = uint t1 mod 65536 + uint v * uint q + uint t"
    unfolding t2' x by (rule borrow_arith) (use uint_digit [of u] uint_digit [of v] qt in simp_all)
  then have "int (unat u + unat t2 * B) = int (unat t1 mod B + unat v * unat q + unat t)" by (simp add: zmod_int)
  then show "unat u + unat t2 * B = unat t1 mod B + unat v * unat q + unat t" by (simp only: of_nat_eq_iff)
  have "uint t2 < 65536" unfolding t2' by simp
  then show "unat t2 < B" by (simp add: unat_less_uint)
qed

lemma mul_sub_ok:
  assumes "unat q < B" and "unat t < B" and "mul_sub u v vs q i us t = (us', t')" and "u + i < length us"
  shows "dval us (u + 1) i + unat t' * B ^ i = dval us' (u + 1) i + unat q * dval vs (v + 1) i + unat t \<and> unat t' < B \<and>
    length us' = length us \<and> (\<forall>k. k \<le> u \<or> u + i < k \<longrightarrow> us' ! k = us ! k)"
  using assms(2-)
proof (induction i arbitrary: us t)
  case (Suc i)
  define t1 where "t1 = ucast (us ! (u + Suc i)) - ucast (vs ! (v + Suc i)) * q - t"
  define t2 where "t2 = (0x10000 - HHALF t1) AND (0x10000 - 1)"
  define us1 where "us1 = us[u + Suc i := ucast (LHALF t1)]"
  note step = mul_sub_step [OF assms(1) Suc.prems(1) t1_def t2_def]
  have "mul_sub u v vs q i us1 t2 = (us', t')" using Suc.prems(2) by (simp add: Let_def us1_def t1_def t2_def)
  from Suc.IH [OF step(2) this] Suc.prems(3)
  have IH: "dval us1 (u + 1) i + unat t' * B ^ i = dval us' (u + 1) i + unat q * dval vs (v + 1) i + unat t2" "unat t' < B"
    "length us' = length us" "\<forall>k. k \<le> u \<or> u + i < k \<longrightarrow> us' ! k = us1 ! k" by (simp_all add: us1_def)
  have d1: "dval us1 (u + 1) i = dval us (u + 1) i" unfolding us1_def by (rule dval_update) simp
  have "us' ! (u + Suc i) = us1 ! (u + Suc i)" using IH(4) by simp
  then have d2: "unat (us' ! (u + Suc i)) = unat t1 mod B" using Suc.prems(3) by (simp add: us1_def unat_digit)
  have "dval us (u + 1) (Suc i) + unat t' * B ^ Suc i = (dval us (u + 1) i + unat t' * B ^ i) * B + unat (us ! (u + Suc i))"
    by (simp add: algebra_simps)
  also have "\<dots> = (dval us' (u + 1) i + unat q * dval vs (v + 1) i) * B + (unat (us ! (u + Suc i)) + unat t2 * B)"
    using IH(1) unfolding d1 by (simp add: algebra_simps)
  also have "\<dots> = dval us' (u + 1) (Suc i) + unat q * dval vs (v + 1) (Suc i) + unat t"
    unfolding step(1) using d2 by (simp add: algebra_simps)
  finally show ?case using IH(2-4) by (simp add: us1_def)
qed simp

lemma add_back_step:
  fixes u v :: u16 and t :: u32
  assumes "unat t \<le> 1" and "t1 = t + (ucast u + ucast v)"
  shows "unat t1 mod B + unat (HHALF t1) * B = unat u + unat v + unat t" "unat (HHALF t1) \<le> 1"
proof -
  have "unat u < B" "unat v < B" by (rule unat16_less)+
  then have "unat t1 = unat t + (unat u + unat v)" using assms by (simp add: unat_word_ariths unat_digit)
  then show "unat t1 mod B + unat (HHALF t1) * B = unat u + unat v + unat t" "unat (HHALF t1) \<le> 1"
    using \<open>unat u < B\<close> \<open>unat v < B\<close> assms(1) by (simp_all add: unat_HHALF)
qed

lemma add_back_ok:
  assumes "unat t \<le> 1" and "add_back u v vs i us t = (us', t')" and "u + i < length us"
  shows "dval us' (u + 1) i + unat t' * B ^ i = dval us (u + 1) i + dval vs (v + 1) i + unat t \<and> unat t' \<le> 1 \<and>
    length us' = length us \<and> (\<forall>k. k \<le> u \<or> u + i < k \<longrightarrow> us' ! k = us ! k)"
  using assms
proof (induction i arbitrary: us t)
  case (Suc i)
  define t1 where "t1 = t + (ucast (us ! (u + Suc i)) + ucast (vs ! (v + Suc i)))"
  define us1 where "us1 = us[u + Suc i := ucast (LHALF t1)]"
  note step = add_back_step [OF Suc.prems(1) t1_def]
  have "add_back u v vs i us1 (HHALF t1) = (us', t')" using Suc.prems(2) by (simp add: Let_def us1_def t1_def)
  from Suc.IH [OF step(2) this] Suc.prems(3)
  have IH: "dval us' (u + 1) i + unat t' * B ^ i = dval us1 (u + 1) i + dval vs (v + 1) i + unat (HHALF t1)" "unat t' \<le> 1"
    "length us' = length us" "\<forall>k. k \<le> u \<or> u + i < k \<longrightarrow> us' ! k = us1 ! k" by (simp_all add: us1_def)
  have d1: "dval us1 (u + 1) i = dval us (u + 1) i" unfolding us1_def by (rule dval_update) simp
  have "us' ! (u + Suc i) = us1 ! (u + Suc i)" using IH(4) by simp
  then have d2: "unat (us' ! (u + Suc i)) = unat t1 mod B" using Suc.prems(3) by (simp add: us1_def unat_digit)
  have "dval us' (u + 1) (Suc i) + unat t' * B ^ Suc i = (dval us' (u + 1) i + unat t' * B ^ i) * B + unat t1 mod B"
    using d2 by (simp add: algebra_simps)
  also have "\<dots> = (dval us (u + 1) i + dval vs (v + 1) i) * B + (unat t1 mod B + unat (HHALF t1) * B)"
    unfolding IH(1) d1 by (simp only: algebra_simps)
  also have "\<dots> = dval us (u + 1) (Suc i) + dval vs (v + 1) (Suc i) + unat t"
    unfolding step(1) by (simp add: algebra_simps)
  finally show ?case using IH(2-4) by (simp add: us1_def)
qed simp

section \<open>The estimate of a digit\<close>

lemma unat_mult_digits: "unat a < B \<Longrightarrow> unat b < B \<Longrightarrow> unat (a * b :: u32) = unat a * unat b"
proof -
  assume ab: "unat a < B" "unat b < B"
  have "unat a * unat b \<le> (B - 1) * (B - 1)" using ab by (intro mult_mono) simp_all
  then show ?thesis by (simp add: unat_word_ariths)
qed

text \<open>
  The loop ends, keeps \<open>qhat * v1 + rhat\<close>, does not go below a number whose product with the first two digits
  is small enough, and leaves an estimate whose product with them is small enough.
\<close>

lemma qhat_loop_ok:
  assumes v: "0 < unat v1" "unat v1 < B" "unat v2 < B" and u: "unat uj2 < B"
    and q: "unat qhat < B" "unat rhat < B" "unat qhat * unat v1 + unat rhat = N" "Q \<le> unat qhat"
    and Q: "Q * (unat v1 * B + unat v2) \<le> N * B + unat uj2"
  shows "\<exists>q r. qhat_loop v1 v2 uj2 qhat rhat = Some (q, r) \<and> unat q < B \<and> Q \<le> unat q \<and>
    unat q * (unat v1 * B + unat v2) \<le> N * B + unat uj2"
  using q
proof (induction "B - unat rhat" arbitrary: qhat rhat rule: less_induct)
  case less
  have c: "unat (COMBINE rhat uj2) = unat rhat * B + unat uj2" by (rule unat_COMBINE [OF less.prems(2) u])
  have vq: "unat (v2 * qhat) = unat v2 * unat qhat" by (rule unat_mult_digits [OF v(3) less.prems(1)])
  have N: "N * B = unat qhat * (unat v1 * B) + unat rhat * B" unfolding less.prems(3) [symmetric] by (simp add: algebra_simps)
  show ?case
  proof (cases "v2 * qhat > COMBINE rhat uj2")
    case False
    then have "unat v2 * unat qhat \<le> unat rhat * B + unat uj2" using c vq by (simp add: word_less_nat_alt not_less)
    then have "unat qhat * (unat v1 * B + unat v2) \<le> N * B + unat uj2" unfolding N by (simp add: algebra_simps)
    then show ?thesis using False less.prems by (subst qhat_loop.simps) simp
  next
    case True
    then have big: "unat rhat * B + unat uj2 < unat v2 * unat qhat" using c vq by (simp add: word_less_nat_alt)
    then have pos: "qhat \<noteq> 0" by auto
    then have q1: "unat (qhat - 1) = unat qhat - 1" "0 < unat qhat" by (simp_all add: unat_minus_one unat_gt_0)
    have "Q * (unat v1 * B + unat v2) < unat qhat * (unat v1 * B + unat v2)"
      using Q big unfolding N by (simp add: algebra_simps)
    then have Q1: "Q \<le> unat (qhat - 1)" using q1 by (auto simp: mult_less_cancel2)
    have r1: "unat (rhat + v1) = unat rhat + unat v1" using less.prems(2) v(2) by (simp add: unat_word_ariths)
    have N1: "unat (qhat - 1) * unat v1 + unat (rhat + v1) = N"
      using less.prems(3) q1 unfolding r1 by (cases "unat qhat") simp_all
    show ?thesis
    proof (cases "rhat + v1 \<ge> 0x10000")
      case stop: True
      have "B \<le> unat rhat + unat v1" using stop r1 by (simp add: word_le_nat_alt)
      have "unat v2 * unat (qhat - 1) \<le> B * B" using v(3) less.prems(1) q1 by (intro mult_mono) simp_all
      also have "\<dots> \<le> unat (rhat + v1) * B" using \<open>B \<le> _\<close> unfolding r1 by simp
      finally have "unat (qhat - 1) * (unat v1 * B + unat v2) \<le> N * B + unat uj2"
        unfolding N1 [symmetric] by (simp add: algebra_simps)
      then show ?thesis using True stop Q1 q1 less.prems(1) by (subst qhat_loop.simps) (simp add: Let_def)
    next
      case go: False
      have lt: "unat (rhat + v1) < B" using go by (simp add: word_le_nat_alt not_le)
      have "B - unat (rhat + v1) < B - unat rhat" using v(1) lt unfolding r1 by simp
      from less.hyps [OF this _ lt N1 Q1] show ?thesis
        using True go q1 less.prems(1) by (subst qhat_loop.simps) (simp add: Let_def)
    qed
  qed
qed

lemma estimate_bounds:
  fixes X U' U P V W V' Q :: nat
  assumes U: "U = X * P + U'" "U' < P" and V: "V = W * P + V'" "V' < P" "P * Bs \<le> W * P"
  shows "U div V * W \<le> X" "q < Bs \<Longrightarrow> q * W \<le> X \<Longrightarrow> q \<le> U div V + 1"
proof -
  have "U div V * (W * P) \<le> U div V * V" using V(1) by (intro mult_left_mono) simp_all
  also have "\<dots> \<le> U" by simp
  also have "\<dots> < Suc X * P" using U by simp
  finally have "U div V * W * P < Suc X * P" by (simp add: mult.assoc)
  then show "U div V * W \<le> X" using mult_less_cancel2 [of "U div V * W" P "Suc X"] by linarith
  assume q: "q < Bs" "q * W \<le> X"
  have P: "0 < P" using U(2) by simp
  have "q * V' \<le> Bs * P" using q(1) V(2) by (intro mult_mono) simp_all
  also have "\<dots> \<le> W * P" using V(3) by (simp only: mult.commute)
  also have "\<dots> \<le> V" using V(1) by simp
  finally have qV': "q * V' \<le> V" .
  have "q * V = q * W * P + q * V'" using V(1) by (simp add: algebra_simps)
  moreover have "q * W * P \<le> X * P" using q(2) by (intro mult_right_mono) simp_all
  ultimately have "q * V \<le> X * P + V" using qV' by linarith
  then have "q * V \<le> U + V" using U(1) by simp
  then have "(q - 1) * V \<le> U" by (cases q) simp_all
  moreover have "0 < V" using V(1,3) P q(1) by (cases "W = 0") auto
  ultimately have "q - 1 \<le> U div V" by (simp add: less_eq_div_iff_mult_less_eq)
  then show "q \<le> U div V + 1" by simp
qed

lemma qhat_estimate_ok:
  fixes u0 u1 u2 v1 v2 :: u16
  assumes v1: "v1 \<noteq> 0" and N: "N = unat u0 * B + unat u1" and Q: "Q * (unat v1 * B + unat v2) \<le> N * B + unat u2" "Q < B"
    and u0: "unat u0 \<le> unat v1"
  shows "\<exists>q. qhat_estimate (ucast u0) (ucast u1) (ucast u2) (ucast v1) (ucast v2) = Inr q \<and> unat q < B \<and> Q \<le> unat q \<and>
    unat q * (unat v1 * B + unat v2) \<le> N * B + unat u2"
proof -
  note d = unat_digit(1) unat16_less
  have pos: "0 < unat v1" using v1 by (simp add: unat_gt_0)
  have v: "0 < unat (ucast v1 :: u32)" "unat (ucast v1 :: u32) < B" "unat (ucast v2 :: u32) < B" "unat (ucast u2 :: u32) < B"
    using pos d by simp_all
  note loop = qhat_loop_ok [OF v, unfolded unat_digit(1), OF _ _ _ _ Q(1)]
  show ?thesis
  proof (cases "u0 = v1")
    case True
    have r: "unat (ucast u1 + ucast v1 :: u32) = unat u1 + unat v1"
      using d(2) [of u1] d(2) [of v1] by (simp add: unat_word_ariths d(1))
    have N': "(B - 1) * unat v1 + (unat u1 + unat v1) = N" using N True by (simp add: algebra_simps)
    show ?thesis
    proof (cases "(ucast u1 + ucast v1 :: u32) \<ge> 0x10000")
      case stop: True
      then have "B \<le> unat u1 + unat v1" using r by (simp add: word_le_nat_alt)
      have "unat v2 * (B - 1) \<le> B * B" using d(2) [of v2] by (intro mult_mono) simp_all
      also have "\<dots> \<le> (unat u1 + unat v1) * B" using \<open>B \<le> _\<close> by simp
      finally have "(B - 1) * (unat v1 * B + unat v2) \<le> N * B + unat u2" unfolding N' [symmetric] by (simp add: algebra_simps)
      then show ?thesis using True stop Q(2) by (simp add: qhat_estimate_def Let_def)
    next
      case go: False
      then have "unat (ucast u1 + ucast v1 :: u32) < B" by (simp add: word_le_nat_alt not_le)
      then show ?thesis
        using loop [of "0x10000 - 1" "ucast u1 + ucast v1"] N' r Q(2) True go by (auto simp: qhat_estimate_def Let_def)
    qed
  next
    case False
    have lt: "unat u0 < unat v1" using u0 False by (simp add: word_unat_eq_iff)
    have nn: "unat (COMBINE (ucast u0) (ucast u1)) = N" unfolding N by (simp add: unat_COMBINE d)
    have "N < unat u0 * B + B" using d(2) [of u1] N by simp
    also have "\<dots> \<le> unat v1 * B" using lt mult_le_mono1 [of "Suc (unat u0)" "unat v1" B] by simp
    finally have small: "N div unat v1 < B" using pos by (simp add: div_less_iff_less_mult mult.commute)
    have "Q * unat v1 * B \<le> N * B + unat u2" using Q(1) by (simp add: distrib_left mult.assoc)
    also have "\<dots> < Suc N * B" using d(2) [of u2] by simp
    finally have "Q * unat v1 \<le> N" using mult_less_cancel2 [of "Q * unat v1" B "Suc N"] by linarith
    then have "Q \<le> N div unat v1" using pos by (simp add: less_eq_div_iff_mult_less_eq)
    moreover have "N mod unat v1 < B" using pos d(2) [of v1] by (meson less_trans mod_less_divisor)
    moreover have "(ucast v1 :: u32) \<noteq> 0" "(ucast u0 :: u32) \<noteq> ucast v1" using pos lt by (metis unat_0 unat_digit(1) less_irrefl)+
    ultimately show ?thesis
      using loop [of "COMBINE (ucast u0) (ucast u1) div ucast v1" "COMBINE (ucast u0) (ucast u1) mod ucast v1"] False v1 small
      by (auto simp: qhat_estimate_def Let_def unat_div unat_mod nn d(1))
  qed
qed

section \<open>One digit of the quotient\<close>

lemma last_borrow:
  fixes a :: u16 and t :: u32
  assumes "unat t < B" and "t1 = ucast a - t"
  shows "unat t \<le> unat a \<Longrightarrow> HHALF t1 = 0 \<and> unat t1 mod B = unat a - unat t"
    and "unat a < unat t \<Longrightarrow> HHALF t1 \<noteq> 0 \<and> unat t1 mod B = B + unat a - unat t"
proof -
  have a: "unat a < B" by (rule unat16_less)
  show "HHALF t1 = 0 \<and> unat t1 mod B = unat a - unat t" if "unat t \<le> unat a"
  proof -
    have "unat t1 = unat a - unat t" unfolding assms(2) using that by (subst unat_sub) (simp_all add: word_le_nat_alt unat_digit)
    then show ?thesis using a by (simp add: unat_eq_0 [symmetric] unat_HHALF del: unat_eq_0)
  qed
  show "HHALF t1 \<noteq> 0 \<and> unat t1 mod B = B + unat a - unat t" if "unat a < unat t"
  proof -
    have t1: "unat t1 = 2 ^ 32 - (unat t - unat a)"
      unfolding assms(2) using that assms(1) by (simp add: unat_sub_if' unat_digit)
    obtain y where y: "y = B + unat a - unat t" by simp
    have *: "y < B" "unat t1 = y + 65535 * B" using t1 that assms(1) unfolding y by simp_all
    then have "unat t1 div B = 65535" by simp
    moreover have "unat t1 mod B = y" unfolding *(2) using *(1) by (simp only: mod_mult_self1 mod_less)
    ultimately show ?thesis unfolding y by (metis unat_HHALF unat_0 zero_neq_numeral)
  qed
qed

lemma quotient_unique:
  fixes x y P D R :: nat
  assumes "x * P + D = y * P + R" "D < P" "R < P"
  shows "x = y" "D = R"
proof -
  have "(x * P + D) div P = x" "(y * P + R) div P = y" using assms(2,3) by simp_all
  then show "x = y" using assms(1) by simp
  then show "D = R" using assms(1) by simp
qed

lemma first_digit_le:
  assumes "dval us a (Suc (Suc m)) < dval vs b (Suc m) * B"
  shows "unat (us ! a) \<le> unat (vs ! b)"
proof (rule ccontr)
  assume "\<not> unat (us ! a) \<le> unat (vs ! b)"
  then have "Suc (unat (vs ! b)) * B ^ Suc m \<le> unat (us ! a) * B ^ Suc m" by (intro mult_right_mono) simp_all
  also have "\<dots> \<le> dval us a (Suc (Suc m))" unfolding dval_first by simp
  also have "\<dots> < dval vs b (Suc m) * B" by (rule assms)
  also have "\<dots> \<le> Suc (unat (vs ! b)) * B ^ m * B"
    unfolding dval_first using dval_less [of vs "b + 1" m] by (intro mult_right_mono) simp_all
  finally show False by (simp only: power_Suc mult.assoc mult.commute [of B] less_irrefl)
qed

lemma no_borrow_number:
  fixes U V :: nat
  assumes "U = R + q * V" "U div V \<le> q" "0 < V"
  shows "q = U div V \<and> R = U mod V"
proof -
  have "q \<le> U div V" using assms(1,3) by (simp add: less_eq_div_iff_mult_less_eq)
  then have "q = U div V" using assms(2) by simp
  then show ?thesis using assms(1) by (metis add_diff_cancel_right' minus_div_mult_eq_mod)
qed

lemma borrow_number:
  fixes U V :: nat
  assumes "U + P = U' + q * V" "U' < P" "q \<le> U div V + 1" "0 < V"
  shows "q = U div V + 1 \<and> U' + V = P + U mod V"
proof -
  have "U < q * V" using assms(1,2) by linarith
  then have "U div V < q" using assms(4) by (simp add: div_less_iff_less_mult)
  then have q: "q = U div V + 1" using assms(3) by simp
  have "q * V = U div V * V + V" unfolding q by simp
  then show ?thesis using assms(1) q div_mult_mod_eq [of U V] by linarith
qed

lemma div_step_estimate:
  assumes n: "2 \<le> n" and v1: "vs ! (v + 1) \<noteq> 0"
    and V: "V = dval vs (v + 1) n" and U: "U = dval us uj (Suc n)" "U < V * B"
  shows "\<exists>q. qhat_estimate (ucast (us ! uj)) (ucast (us ! (uj + 1))) (ucast (us ! (uj + 2)))
      (ucast (vs ! (v + 1))) (ucast (vs ! (v + 2))) = Inr q \<and> unat q < B \<and> U div V \<le> unat q \<and> unat q \<le> U div V + 1"
proof -
  obtain k where k: "n = 2 + k" using n by (metis le_iff_add)
  let ?a = "us ! uj" and ?v1 = "vs ! (v + 1)" and ?v2 = "vs ! (v + 2)"
  define N where "N = unat ?a * B + unat (us ! (uj + 1))"
  define W where "W = unat ?v1 * B + unat ?v2"
  have V2: "V = W * B ^ k + dval vs (v + 3) k" unfolding V k dval_split by (simp add: W_def numeral_2_eq_2 numeral_3_eq_3)
  have "dval us uj (3 + k) = dval us uj 3 * B ^ k + dval us (uj + 3) k" by (rule dval_split)
  then have U2: "U = (N * B + unat (us ! (uj + 2))) * B ^ k + dval us (uj + 3) k"
    unfolding U(1) k by (simp add: N_def numeral_3_eq_3 numeral_2_eq_2)
  have pos: "0 < unat ?v1" using v1 by (simp add: unat_gt_0)
  then have W: "B ^ k * B \<le> W * B ^ k" by (simp add: W_def)
  note est = estimate_bounds [OF U2 dval_less V2 dval_less W]
  have Q: "U div V < B" using U(2) by (metis div_less_iff_less_mult mult.commute not_less0 gr0I mult_0)
  have "unat ?a \<le> unat ?v1" by (rule first_digit_le [of us uj "n - 1"]) (use U V n in simp_all)
  then show ?thesis using qhat_estimate_ok [OF v1 N_def est(1) [unfolded W_def] Q] est(2) unfolding W_def by blast
qed

lemma div_step_ok:
  assumes n: "2 \<le> n" and len: "uj + n < length us" and v1: "vs ! (v + 1) \<noteq> 0"
    and V: "V = dval vs (v + 1) n" and U: "U = dval us uj (Suc n)" "U < V * B"
  shows "\<exists>us' q. div_step uj v vs n us = Inr (us', q) \<and> unat q = U div V \<and> unat q < B \<and> dval us' uj (Suc n) = U mod V \<and>
    length us' = length us \<and> (\<forall>k. k < uj \<or> uj + n < k \<longrightarrow> us' ! k = us ! k)"
proof -
  let ?P = "B ^ n" and ?a = "us ! uj"
  obtain q where q: "qhat_estimate (ucast ?a) (ucast (us ! (uj + 1))) (ucast (us ! (uj + 2))) (ucast (vs ! (v + 1))) (ucast (vs ! (v + 2))) = Inr q"
    "unat q < B" "U div V \<le> unat q" "unat q \<le> U div V + 1" using div_step_estimate [OF n v1 V U] by blast
  obtain us1 t where m: "mul_sub uj v vs q n us 0 = (us1, t)" by fastforce
  have "unat (0 :: u32) < B" by simp
  from mul_sub_ok [OF q(2) this m len]
  have D: "dval us (uj + 1) n + unat t * ?P = dval us1 (uj + 1) n + unat q * V" and t: "unat t < B"
    and us1: "length us1 = length us" "\<forall>k. k \<le> uj \<or> uj + n < k \<longrightarrow> us1 ! k = us ! k" unfolding V by simp_all
  have a: "us1 ! uj = ?a" using us1(2) by simp
  have V0: "0 < V" using U(2) by (cases V) simp_all
  define t1 where "t1 = ucast ?a - t"
  define us2 where "us2 = us1[uj := ucast (LHALF t1)]"
  have U1: "U = unat ?a * ?P + dval us (uj + 1) n" unfolding U(1) by (rule dval_first)
  have us2: "dval us2 uj (Suc n) = unat t1 mod B * ?P + dval us1 (uj + 1) n" "length us2 = length us"
    "\<forall>k. k < uj \<or> uj + n < k \<longrightarrow> us2 ! k = us ! k" "dval us2 (uj + 1) n = dval us1 (uj + 1) n" "unat (us2 ! uj) = unat t1 mod B"
    using len us1 unfolding us2_def dval_first by (simp_all add: dval_update unat_digit)
  have run: "div_step uj v vs n us = (if HHALF t1 \<noteq> 0 then (let (us3, t2) = add_back uj v vs n us2 0
      in Inr (us3[uj := ucast (LHALF (ucast (us3 ! uj) + t2))], q - 1)) else Inr (us2, q))"
    unfolding div_step_def q(1) by (simp add: m a t1_def us2_def)
  show ?thesis
  proof (cases "unat t \<le> unat ?a")
    case True
    note b = last_borrow(1) [OF t t1_def True]
    have "U = dval us2 uj (Suc n) + unat q * V"
    proof -
      have "(unat ?a - unat t) * ?P + unat t * ?P = unat ?a * ?P" using True by (simp flip: distrib_right)
      then show ?thesis using D U1 unfolding us2(1) b [THEN conjunct2] by linarith
    qed
    from no_borrow_number [OF this q(3) V0] have "unat q = U div V" "dval us2 uj (Suc n) = U mod V" by blast+
    then show ?thesis using run b q(2) us2(2,3) by simp
  next
    case False
    then have lt: "unat ?a < unat t" by simp
    note b = last_borrow(2) [OF t t1_def lt]
    have "(B + unat ?a - unat t) * ?P + unat t * ?P = (B + unat ?a) * ?P" using t by (simp flip: distrib_right)
    then have "U + B ^ Suc n = dval us2 uj (Suc n) + unat q * V"
      using D U1 unfolding us2(1) b [THEN conjunct2] by (simp add: distrib_right)
    note bn = borrow_number [OF this dval_less q(4) V0]
    obtain us3 t2 where ab: "add_back uj v vs n us2 0 = (us3, t2)" by fastforce
    have "unat (0 :: u32) \<le> 1" "uj + n < length us2" using len us2(2) by simp_all
    from add_back_ok [OF this(1) ab this(2)]
    have D3: "dval us3 (uj + 1) n + unat t2 * ?P = dval us2 (uj + 1) n + V" "unat t2 \<le> 1" "length us3 = length us"
      "\<forall>k. k \<le> uj \<or> uj + n < k \<longrightarrow> us3 ! k = us2 ! k" using us2(2) unfolding V by simp_all
    have a3: "unat (us3 ! uj) = unat t1 mod B" using D3(4) us2(5) by simp
    have "(unat t1 mod B + unat t2) * ?P + dval us3 (uj + 1) n = B * ?P + U mod V"
      using D3(1) bn us2(1,4) by (simp add: distrib_right)
    moreover have "U mod V < ?P" using V0 dval_less [of vs "v + 1" n] V by (metis less_trans mod_less_divisor)
    ultimately have eq: "unat t1 mod B + unat t2 = B" "dval us3 (uj + 1) n = U mod V" using quotient_unique [OF _ dval_less] by blast+
    define us4 where "us4 = us3[uj := ucast (LHALF (ucast (us3 ! uj) + t2))]"
    have "unat (ucast (us3 ! uj) + t2) = B" using eq(1) a3 by (simp add: unat_word_ariths unat_digit)
    then have "dval us4 uj (Suc n) = U mod V"
      using len D3(3) eq(2) unfolding us4_def dval_first by (simp add: dval_update unat_digit)
    moreover have q1: "unat (q - 1) = unat q - 1" using bn by (intro unat_minus_one) auto
    moreover have "unat (q - 1) = U div V" "unat (q - 1) < B" using q1 bn q(2) by simp_all
    moreover have "div_step uj v vs n us = Inr (us4, q - 1)" using run b ab by (simp add: us4_def)
    ultimately show ?thesis using D3(3,4) us2(3) by (auto simp: us4_def)
  qed
qed

section \<open>The main loop\<close>

lemma first_digit_zero:
  assumes "dval xs a (Suc n) < B ^ n"
  shows "xs ! a = 0" "dval xs (a + 1) n = dval xs a (Suc n)"
proof -
  have "unat (xs ! a) * B ^ n < 1 * B ^ n" using assms unfolding dval_first by linarith
  then have "unat (xs ! a) = 0" by (simp only: mult_less_cancel2) simp
  then show "xs ! a = 0" by (simp add: unat_eq_zero)
  then show "dval xs (a + 1) n = dval xs a (Suc n)" unfolding dval_first by simp
qed

lemma unat_ucast16: "unat (x :: u32) < B \<Longrightarrow> unat (ucast x :: u16) = unat x"
  by (simp add: unsigned_ucast_eq take_bit_nat_eq_self)

lemma div_loop_ok:
  assumes n: "2 \<le> n" and v1: "vs ! (v + 1) \<noteq> 0" and V: "V = dval vs (v + 1) n"
    and "u + j + k + n \<le> length us" and "q + j + k \<le> length qs" and "dval us (u + j) n < V"
  shows "\<exists>us' qs'. div_loop u v vs n q k j us qs = Inr (us', qs') \<and>
    dval us (u + j) (n + k) = dval qs' (q + j) k * V + dval us' (u + j + k) n \<and> dval us' (u + j + k) n < V \<and>
    (\<forall>i < k. us' ! (u + j + i) = 0) \<and> length us' = length us \<and> length qs' = length qs \<and>
    (\<forall>i < u + j. us' ! i = us ! i) \<and> (\<forall>i < q + j. qs' ! i = qs ! i)"
  using assms(4-)
proof (induction k arbitrary: j us qs)
  case (Suc k)
  define U where "U = dval us (u + j) (Suc n)"
  have "U < V * B" using Suc.prems(3) unat16_less [of "us ! (u + j + n)"] mult_le_mono1 [of "Suc (dval us (u + j) n)" V B]
    by (simp add: U_def)
  then obtain us1 qd where step: "div_step (u + j) v vs n us = Inr (us1, qd)" "unat qd = U div V" "unat qd < B"
    "dval us1 (u + j) (Suc n) = U mod V" "length us1 = length us" "\<forall>i. i < u + j \<or> u + j + n < i \<longrightarrow> us1 ! i = us ! i"
    using div_step_ok [OF n _ v1 V U_def] Suc.prems(1) by auto
  have V0: "0 < V" "V < B ^ n" using Suc.prems(3) dval_less [of vs "v + 1" n] V by simp_all
  then have "dval us1 (u + j) (Suc n) < B ^ n" using step(4) by (metis less_trans mod_less_divisor)
  note z = first_digit_zero [OF this, unfolded step(4)]
  define qs1 where "qs1 = qs[q + j := ucast qd]"
  have "dval us1 (u + Suc j) n < V" using z(2) V0 by simp
  from Suc.IH [of "Suc j" us1 qs1, OF _ _ this] Suc.prems(1,2) obtain us' qs' where
    IH: "div_loop u v vs n q k (Suc j) us1 qs1 = Inr (us', qs')"
    "dval us1 (u + Suc j) (n + k) = dval qs' (q + Suc j) k * V + dval us' (u + Suc j + k) n" "dval us' (u + Suc j + k) n < V"
    "\<forall>i < k. us' ! (u + Suc j + i) = 0" "length us' = length us" "length qs' = length qs"
    "\<forall>i < u + Suc j. us' ! i = us1 ! i" "\<forall>i < q + Suc j. qs' ! i = qs1 ! i"
    by (auto simp: qs1_def step(5))
  have "dval us1 (u + j + Suc n) k = dval us (u + j + Suc n) k" using step(6) by (intro dval_cong) simp
  moreover have "dval us1 (u + Suc j) (n + k) = dval us1 (u + Suc j) n * B ^ k + dval us1 (u + j + Suc n) k"
    using dval_split [of us1 "u + Suc j" n k] by simp
  moreover have "dval us (u + j) (Suc n + k) = U * B ^ k + dval us (u + j + Suc n) k" unfolding U_def by (rule dval_split)
  moreover have "U * B ^ k = U div V * V * B ^ k + U mod V * B ^ k" by (metis distrib_right div_mult_mod_eq)
  moreover have "qs' ! (q + j) = ucast qd" using IH(8) Suc.prems(2) by (simp add: qs1_def)
  then have "dval qs' (q + j) (Suc k) = U div V * B ^ k + dval qs' (q + Suc j) k"
    unfolding dval_first using unat_ucast16 [OF step(3)] step(2) by simp
  ultimately have "dval us (u + j) (n + Suc k) = dval qs' (q + j) (Suc k) * V + dval us' (u + j + Suc k) n"
    using IH(2) z(2) by (simp add: algebra_simps)
  moreover have "us' ! (u + j + i) = 0" if "i < Suc k" for i
    using IH(4,7) z(1) that by (cases i) (auto simp: add.assoc)
  ultimately show ?case
    using IH(1,3,5-8) step(1,6) by (intro exI [of _ us'] exI [of _ qs']) (auto simp: qs1_def)
qed simp

section \<open>Shifts of digits\<close>

lemma bit_digit: "bit (ucast (x :: u16) :: u32) k \<Longrightarrow> k < 16"
  by (auto simp: bit_simps dest: bit_imp_le_length)

lemma unat_push_LHALF: "sh \<le> 16 \<Longrightarrow> unat (LHALF (push_bit sh (ucast (x :: u16) :: u32))) = unat x * 2 ^ sh mod B"
proof -
  assume sh: "sh \<le> 16"
  have "(2 :: nat) ^ sh \<le> 2 ^ 16" using sh by (rule power_increasing) simp
  then have "unat x * 2 ^ sh < B * 2 ^ 16" using unat16_less [of x] by (intro mult_less_le_imp_less) simp_all
  then have "unat (push_bit sh (ucast x :: u32)) = unat x * 2 ^ sh"
    unfolding unsigned_push_bit_eq unat_digit by (simp add: push_bit_eq_mult take_bit_nat_eq_self)
  then show ?thesis by (simp add: unat_LHALF)
qed

lemma unat_drop_digit: "unat (drop_bit k (ucast (x :: u16) :: u32)) = unat x div 2 ^ k"
  using unat16_less [of x] unfolding unsigned_drop_bit_eq unat_digit by (simp add: take_bit_nat_eq_self drop_bit_eq_div)

lemma unat_or_digits:
  fixes a b :: u32
  assumes "a AND b = 0" and "unat a + unat b < B"
  shows "unat (ucast (a OR b) :: u16) = unat a + unat b"
proof -
  have "a OR b = a + b" using disjunctive_add_eq_or [OF assms(1)] by simp
  then have "unat (a OR b) = unat a + unat b" using assms(2) by (simp add: unat_word_ariths)
  then show ?thesis using assms(2) by (simp add: unat_ucast16)
qed

lemma div_pow_bound: "x < B \<Longrightarrow> sh \<le> 16 \<Longrightarrow> x div 2 ^ (16 - sh) < 2 ^ sh"
  by (simp add: div_less_iff_less_mult flip: power_add)

lemma unat_shl_digit:
  assumes "sh \<le> 16"
  shows "unat (shl_digit x y sh) = unat x * 2 ^ sh mod B + unat y div 2 ^ (16 - sh)"
proof -
  let ?a = "LHALF (push_bit sh (ucast x)) :: u32" and ?b = "drop_bit (16 - sh) (ucast y) :: u32"
  have "?a AND ?b = 0"
    using assms by (intro bit_word_eqI) (auto simp: LHALF_def bit_simps dest: bit_imp_le_length)
  moreover have "unat ?a + unat ?b < B"
  proof -
    obtain c where c: "unat x * 2 ^ sh mod B = c * 2 ^ sh" "c < 2 ^ (16 - sh)"
    proof
      have "B = 2 ^ (16 - sh) * 2 ^ sh" using assms by (simp flip: power_add)
      then show "unat x * 2 ^ sh mod B = unat x mod 2 ^ (16 - sh) * 2 ^ sh" by (metis mod_mult_mult2)
    qed simp
    have "c * 2 ^ sh + 2 ^ sh \<le> 2 ^ (16 - sh) * 2 ^ sh" using c(2) mult_le_mono1 [of "Suc c" "2 ^ (16 - sh)" "2 ^ sh"] by simp
    also have "\<dots> = B" using assms by (simp flip: power_add)
    finally show ?thesis
      using div_pow_bound [OF unat16_less assms, of y] unfolding unat_push_LHALF [OF assms] unat_drop_digit c(1) by linarith
  qed
  ultimately show ?thesis unfolding shl_digit_def using unat_or_digits [of ?a ?b] by (simp add: unat_push_LHALF [OF assms] unat_drop_digit)
qed

lemma shl_fold:
  assumes "b + k \<le> length p"
  shows "length (fold (\<lambda>i p. p[b + i := shl_digit (p ! (b + i)) (p ! (b + i + 1)) sh]) [0..<k] p) = length p \<and>
    (\<forall>i. fold (\<lambda>i p. p[b + i := shl_digit (p ! (b + i)) (p ! (b + i + 1)) sh]) [0..<k] p ! i =
       (if b \<le> i \<and> i < b + k then shl_digit (p ! i) (p ! (i + 1)) sh else p ! i))"
  using assms
proof (induction k)
  case (Suc k)
  define p1 where "p1 = fold (\<lambda>i p. p[b + i := shl_digit (p ! (b + i)) (p ! (b + i + 1)) sh]) [0..<k] p"
  have IH: "length p1 = length p" "\<And>i. p1 ! i = (if b \<le> i \<and> i < b + k then shl_digit (p ! i) (p ! (i + 1)) sh else p ! i)"
    using Suc unfolding p1_def by simp_all
  have "fold (\<lambda>i p. p[b + i := shl_digit (p ! (b + i)) (p ! (b + i + 1)) sh]) [0..<Suc k] p =
      p1[b + k := shl_digit (p1 ! (b + k)) (p1 ! (b + k + 1)) sh]" by (simp add: p1_def)
  then show ?case using IH Suc.prems by (auto simp: nth_list_update)
qed auto

lemma shl_nth:
  assumes "b + len < length p"
  shows "length (shl p b len sh) = length p"
    and "i < len \<Longrightarrow> shl p b len sh ! (b + i) = shl_digit (p ! (b + i)) (p ! (b + i + 1)) sh"
    and "shl p b len sh ! (b + len) = ucast (LHALF (push_bit sh (ucast (p ! (b + len)))))"
    and "j < b \<or> b + len < j \<Longrightarrow> shl p b len sh ! j = p ! j"
  using shl_fold [of b len p sh] assms by (auto simp: shl_def Let_def nth_list_update)

lemma shl_ok:
  assumes len: "b + len < length p" and sh: "sh \<le> 16" and top: "unat (p ! b) * 2 ^ sh < B"
  shows "dval (shl p b len sh) b (Suc len) = dval p b (Suc len) * 2 ^ sh"
proof -
  let ?hi = "\<lambda>i. unat (p ! (b + i)) div 2 ^ (16 - sh)"
  have split: "unat x * 2 ^ sh = unat x div 2 ^ (16 - sh) * B + unat x * 2 ^ sh mod B" for x :: u16
  proof -
    have "B = 2 ^ (16 - sh) * 2 ^ sh" using sh by (simp flip: power_add)
    then have "unat x * 2 ^ sh div B = unat x div 2 ^ (16 - sh)" by (metis div_mult_mult2 power_not_zero zero_neq_numeral)
    then show ?thesis by (metis div_mult_mod_eq)
  qed
  have hi0: "?hi 0 = 0" using split [of "p ! b"] top by (simp) 
  have part: "dval (shl p b len sh) b k = dval p b k * 2 ^ sh + ?hi k" if "k \<le> len" for k
    using that
  proof (induction k)
    case (Suc k)
    then have d: "unat (shl p b len sh ! (b + k)) = unat (p ! (b + k)) * 2 ^ sh mod B + ?hi (Suc k)"
      using shl_nth(2) [OF len, of k sh] unat_shl_digit [OF sh] by simp
    show ?case using Suc d split [of "p ! (b + k)"] by (simp add: algebra_simps)
  qed (use hi0 in simp)
  have "unat (shl p b len sh ! (b + len)) = unat (p ! (b + len)) * 2 ^ sh mod B"
    unfolding shl_nth(3) [OF len] using unat_push_LHALF [OF sh] by (simp add: unat_ucast16)
  then show ?thesis using part [of len] split [of "p ! (b + len)"] by (simp add: algebra_simps)
qed

lemma shift_back_nth:
  assumes "u + n < length us" and "d \<le> 16"
  shows "length (shift_back u d n us) = length us \<and> shift_back u d n us ! u = 0 \<and>
    (\<forall>i < n. shift_back u d n us ! (u + Suc i) = shl_digit (us ! (u + i)) (us ! (u + Suc i)) (16 - d)) \<and>
    (\<forall>j. j < u \<or> u + n < j \<longrightarrow> shift_back u d n us ! j = us ! j)"
  using assms(1)
proof (induction n arbitrary: us)
  case (Suc n)
  define us1 where "us1 = us[u + Suc n := shl_digit (us ! (u + n)) (us ! (u + Suc n)) (16 - d)]"
  have "shift_back u d (Suc n) us = shift_back u d n us1"
    using assms(2) by (simp add: us1_def shl_digit_def or.commute)
  moreover have "us1 ! (u + i) = us ! (u + i)" if "i \<le> n" for i using that by (simp add: us1_def)
  ultimately show ?case using Suc.IH [of us1] Suc.prems by (auto simp: us1_def less_Suc_eq)
qed simp

lemma shift_back_ok:
  assumes len: "u + n < length us" and d: "d \<le> 16" and zero: "us ! u = 0"
  shows "dval (shift_back u d n us) (u + 1) n = dval us (u + 1) n div 2 ^ d"
proof -
  note nth = shift_back_nth [OF len d]
  have B: "B = 2 ^ d * 2 ^ (16 - d)" using d by (simp flip: power_add)
  have part: "dval (shift_back u d n us) (u + 1) k * 2 ^ d + unat (us ! (u + k)) mod 2 ^ d = dval us u (Suc k)" if "k \<le> n" for k
    using that
  proof (induction k)
    case (Suc k)
    let ?x = "us ! (u + Suc k)" and ?y = "us ! (u + k)"
    have "unat ?y * 2 ^ (16 - d) mod B = unat ?y mod 2 ^ d * 2 ^ (16 - d)" unfolding B by (rule mod_mult_mult2)
    then have "unat (shift_back u d n us ! (u + 1 + k)) = unat ?y mod 2 ^ d * 2 ^ (16 - d) + unat ?x div 2 ^ d"
      using nth Suc.prems unat_shl_digit [of "16 - d" ?y ?x] d by simp
    then have "dval (shift_back u d n us) (u + 1) (Suc k) * 2 ^ d + unat ?x mod 2 ^ d =
        dval (shift_back u d n us) (u + 1) k * 2 ^ d * B + unat ?y mod 2 ^ d * (2 ^ d * 2 ^ (16 - d)) + (unat ?x div 2 ^ d * 2 ^ d + unat ?x mod 2 ^ d)"
      by (simp add: algebra_simps)
    also have "\<dots> = (dval (shift_back u d n us) (u + 1) k * 2 ^ d + unat ?y mod 2 ^ d) * B + unat ?x"
      unfolding B [symmetric] by (simp add: algebra_simps)
    also have "\<dots> = dval us u (Suc (Suc k))" using Suc by simp
    finally show ?case .
  qed (use zero in simp)
  have "dval us (u + 1) n = dval us u (Suc n)" unfolding dval_first using zero by simp
  also have "\<dots> = dval (shift_back u d n us) (u + 1) n * 2 ^ d + unat (us ! (u + n)) mod 2 ^ d" using part [of n] by simp
  finally show ?thesis by simp
qed

section \<open>The whole division\<close>

lemma unat_uu_ll: "unat (uu_ll h l) = unat h * 2 ^ 32 + unat l"
proof -
  have "int (unat (uu_ll h l)) = int (unat h * 2 ^ 32 + unat l)" using uint_uu_ll [of h l] by simp
  then show ?thesis by (simp only: of_nat_eq_iff)
qed

lemma unat_halves: "unat (ucast (HHALF x) :: u16) * B + unat (ucast (LHALF x) :: u16) = unat x"
proof -
  have "unat x div B < B" using unsigned_less [of x, where ?'a = nat] by (simp add: div_less_iff_less_mult)
  then show ?thesis by (simp add: unat_digit unat_ucast16 unat_HHALF)
qed

lemma dval_4: "dval p a 4 = ((unat (p ! a) * B + unat (p ! (a + 1))) * B + unat (p ! (a + 2))) * B + unat (p ! (a + 3))"
proof -
  have "dval p a (Suc (Suc (Suc (Suc 0)))) = ((unat (p ! a) * B + unat (p ! (a + 1))) * B + unat (p ! (a + 2))) * B + unat (p ! (a + 3))"
    unfolding dval.simps by (simp add: numeral_2_eq_2 numeral_3_eq_3)
  moreover have "(4 :: nat) = Suc (Suc (Suc (Suc 0)))" by simp
  ultimately show ?thesis by (simp only:)
qed

lemma dval_1_4: "dval p 1 4 = ((unat (p ! 1) * B + unat (p ! 2)) * B + unat (p ! 3)) * B + unat (p ! 4)"
  using dval_4 [of p 1] by (simp del: One_nat_def)

lemma digits4: "length (digits4 a) = 5" "digits4 a ! 0 = 0" "dval (digits4 a) 0 5 = unat a"
proof -
  have "unat a = unat (ui_H a) * 2 ^ 32 + unat (ui_L a)" using unat_uu_ll [of "ui_H a" "ui_L a"] by simp
  moreover have "dval (digits4 a) 0 (1 + 4) = dval (digits4 a) 1 4" unfolding dval_split by (simp add: digits4_def)
  moreover have "dval (digits4 a) 1 4 = unat (ui_H a) * 2 ^ 32 + unat (ui_L a)"
    unfolding unat_halves [of "ui_H a", symmetric] unat_halves [of "ui_L a", symmetric] dval_1_4 by (simp add: digits4_def)
  ultimately show "dval (digits4 a) 0 5 = unat a" by simp
qed (simp_all add: digits4_def)

lemma unat_of_digits4: "unat (of_digits4 p) = dval p 1 4"
proof -
  have "unat (COMBINE (ucast (x :: u16)) (ucast (y :: u16))) = unat x * B + unat y" for x y
    by (simp add: unat_COMBINE unat_digit unat16_less)
  then show ?thesis unfolding of_digits4_def unat_uu_ll dval_1_4 by simp
qed

lemma skip_v_ok:
  assumes "2 \<le> n"
  shows "case skip_v vs v n of
      None \<Rightarrow> \<forall>i. v < i \<and> i < v + n \<longrightarrow> vs ! i = 0
    | Some (v', n') \<Rightarrow> v \<le> v' \<and> v' + n' = v + n \<and> 2 \<le> n' \<and> vs ! (v' + 1) \<noteq> 0 \<and> (\<forall>i. v < i \<and> i \<le> v' \<longrightarrow> vs ! i = 0)"
  using assms
proof (induction vs v n rule: skip_v.induct)
  case (1 vs v n)
  show ?case
  proof (cases "vs ! (v + 1) = 0")
    case False
    then show ?thesis using 1(2) by (subst skip_v.simps) auto
  next
    case True
    show ?thesis
    proof (cases "n = 2")
      case two: True
      have "vs ! i = 0" if "v < i" "i < v + 2" for i using True that by (cases "i = v + 1") auto
      then show ?thesis using True two by (subst skip_v.simps) simp
    next
      case False
      then have "n - 1 \<noteq> 1" using 1(2) by simp
      then have "skip_v vs v n = skip_v vs (v + 1) (n - 1)" using True 1(2) by (subst skip_v.simps) simp
      moreover have "case skip_v vs (v + 1) (n - 1) of
          None \<Rightarrow> \<forall>i. v + 1 < i \<and> i < v + 1 + (n - 1) \<longrightarrow> vs ! i = 0
        | Some (v', n') \<Rightarrow> v + 1 \<le> v' \<and> v' + n' = v + 1 + (n - 1) \<and> 2 \<le> n' \<and> vs ! (v' + 1) \<noteq> 0 \<and> (\<forall>i. v + 1 < i \<and> i \<le> v' \<longrightarrow> vs ! i = 0)"
        using 1(1) True False 1(2) by simp
      moreover have "vs ! i = 0" if "v < i" "\<not> v + 1 < i" for i
      proof -
        have "i = v + 1" using that by simp
        then show ?thesis using True by simp
      qed
      ultimately show ?thesis using 1(2) by (fastforce split: option.splits)
    qed
  qed
qed

lemma skip_u_ok:
  assumes "u < i" and "i < length us" and "us ! i \<noteq> 0"
  shows "\<exists>u'. skip_u us u m = Inr (u', m - int (u' - u)) \<and> u \<le> u' \<and> u' + 1 < length us \<and> us ! (u' + 1) \<noteq> 0 \<and>
    (\<forall>k. u < k \<and> k \<le> u' \<longrightarrow> us ! k = 0)"
  using assms
proof (induction us u m rule: skip_u.induct)
  case (1 us u m)
  show ?case
  proof (cases "us ! (u + 1) = 0")
    case False
    then show ?thesis using 1(2,3) by (subst skip_u.simps) auto
  next
    case True
    have "u + 1 < i" using 1(2,4) True by (cases "i = u + 1") auto
    with 1(1) 1(2-4) True obtain u' where *: "skip_u us (u + 1) (m - 1) = Inr (u', m - 1 - int (u' - (u + 1)))" "u + 1 \<le> u'"
      "u' + 1 < length us" "us ! (u' + 1) \<noteq> 0" "\<forall>k. u + 1 < k \<and> k \<le> u' \<longrightarrow> us ! k = 0" by auto
    moreover have "skip_u us u m = skip_u us (u + 1) (m - 1)" using True 1(2,3) by (subst skip_u.simps) auto
    moreover have "us ! k = 0" if "u < k" "k \<le> u'" for k using *(5) that True by (cases "k = u + 1") auto
    ultimately show ?thesis by (intro exI [of _ u']) (auto simp: of_nat_diff)
  qed
qed

lemma count_shift_ok:
  assumes "0 < unat t" and "unat t < B"
  shows "\<exists>k. count_shift t d = Some (d + k) \<and> unat t * 2 ^ k < B"
  using assms
proof (induction "B - unat t" arbitrary: t d rule: less_induct)
  case less
  show ?case
  proof (cases "t < 0x8000")
    case True
    then have lt: "unat t < 0x8000" by (simp add: word_less_nat_alt)
    have t2: "unat (push_bit 1 t) = 2 * unat t" using lt by (simp add: push_bit_eq_mult unat_word_ariths mult.commute)
    have "B - unat (push_bit 1 t) < B - unat t" using lt less.prems unfolding t2 by simp
    from less.hyps [OF this, of "d + 1"] lt less.prems t2 obtain k where
      "count_shift (push_bit 1 t) (d + 1) = Some (d + 1 + k)" "2 * unat t * 2 ^ k < B" by auto
    then show ?thesis using True by (subst count_shift.simps) (auto intro!: exI [of _ "Suc k"] simp: ac_simps)
  next
    case False
    then show ?thesis using less.prems by (subst count_shift.simps) (auto intro!: exI [of _ 0])
  qed
qed

lemma long_division_step:
  fixes X u t :: nat
  assumes "0 < t"
  shows "(X * B + u) div t = X div t * B + (X mod t * B + u) div t" "(X * B + u) mod t = (X mod t * B + u) mod t"
proof -
  have "X * B + u = (X div t * t + X mod t) * B + u" by simp
  also have "\<dots> = (X mod t * B + u) + X div t * B * t" by (simp only: algebra_simps)
  finally have e: "X * B + u = (X mod t * B + u) + X div t * B * t" .
  show "(X * B + u) div t = X div t * B + (X mod t * B + u) div t" unfolding e using assms by simp
  show "(X * B + u) mod t = (X mod t * B + u) mod t" unfolding e by simp
qed

lemma digit_quotient: "x < t \<Longrightarrow> u < B \<Longrightarrow> (x * B + u) div t < B"
proof -
  assume *: "x < t" "u < B"
  have "x * B + u < t * B" using * mult_le_mono1 [of "Suc x" t B] by simp
  then show ?thesis using * by (simp add: div_less_iff_less_mult mult.commute)
qed

lemma div_one_ok:
  assumes t: "0 < unat t" "unat t < B"
  shows "unat (fst (div_one us t)) = dval us 1 4 div unat t \<and> unat (snd (div_one us t)) = dval us 1 4 mod unat t"
proof -
  let ?u = "\<lambda>i. unat (us ! i)" and ?t = "unat t"
  define c where "c = (\<lambda>x i. COMBINE (x mod t) (ucast (us ! i)))"
  have c: "unat (c x i) = unat x mod ?t * B + ?u i" for x i
    unfolding c_def using t less_trans [OF mod_less_divisor [OF t(1)] t(2)] by (simp add: unat_COMBINE unat_mod unat_digit unat16_less)
  define r2 r3 r4 where "r2 = c (ucast (us ! 1)) 2" and "r3 = c r2 3" and "r4 = c r3 4"
  have r: "unat r2 = ?u 1 mod ?t * B + ?u 2" "unat r3 = unat r2 mod ?t * B + ?u 3" "unat r4 = unat r3 mod ?t * B + ?u 4"
    unfolding r2_def r3_def r4_def c by (simp_all add: unat_digit)
  have q: "unat (LHALF (x div t)) = unat x div ?t" if "unat x div ?t < B" for x using that by (simp add: unat_LHALF unat_div)
  have lt: "unat r2 div ?t < B" "unat r3 div ?t < B" "unat r4 div ?t < B"
    unfolding r using digit_quotient [OF mod_less_divisor [OF t(1)] unat16_less] by blast+
  have "unat (ucast (us ! 1) :: u32) div ?t < B" using unat16_less [of "us ! 1"] by (simp add: unat_digit div_le_dividend [THEN le_less_trans])
  note q1 = q [OF this, unfolded unat_digit(1)]
  have comb: "unat (COMBINE (LHALF x) (LHALF y)) = unat (LHALF x) * B + unat (LHALF y)" for x y
    by (rule unat_COMBINE) (simp_all add: unat_LHALF)
  have run: "div_one us t = (uu_ll (COMBINE (LHALF (ucast (us ! 1) div t)) (LHALF (r2 div t))) (COMBINE (LHALF (r3 div t)) (LHALF (r4 div t))),
      ucast (r4 mod t))" unfolding div_one_def Let_def r4_def r3_def r2_def c_def by simp
  have "unat (ucast (r4 mod t) :: u64) = unat r4 mod ?t"
    using unsigned_less [of "r4 mod t", where ?'a = nat] by (simp add: unsigned_ucast_eq take_bit_nat_eq_self unat_mod)
  note rem = this
  note s = long_division_step [OF t(1)]
  let ?X2 = "?u 1 * B + ?u 2" let ?X3 = "?X2 * B + ?u 3" let ?X4 = "?X3 * B + ?u 4"
  have 2: "?X2 mod ?t = unat r2 mod ?t" "?X2 div ?t = ?u 1 div ?t * B + unat r2 div ?t"
    using s [of "?u 1" "?u 2"] r(1) by simp_all
  have 3: "?X3 mod ?t = unat r3 mod ?t" "?X3 div ?t = (?u 1 div ?t * B + unat r2 div ?t) * B + unat r3 div ?t"
    using s [of ?X2 "?u 3"] r(2) unfolding 2 by simp_all
  have 4: "?X4 mod ?t = unat r4 mod ?t" "?X4 div ?t = ((?u 1 div ?t * B + unat r2 div ?t) * B + unat r3 div ?t) * B + unat r4 div ?t"
    using s [of ?X3 "?u 4"] r(3) unfolding 3 by simp_all
  show ?thesis
    unfolding run fst_conv snd_conv unat_uu_ll comb q1 q [OF lt(1)] q [OF lt(2)] q [OF lt(3)] dval_1_4 rem 4 by simp
qed

lemma dval_drop_zeros:
  assumes "\<And>i. i < k \<Longrightarrow> xs ! (a + i) = 0"
  shows "dval xs a (k + l) = dval xs (a + k) l"
  unfolding dval_split using dval_zero [of k xs a] assms by simp

lemma dval_ge: "xs ! a \<noteq> 0 \<Longrightarrow> B ^ k \<le> dval xs a (Suc k)"
proof -
  assume "xs ! a \<noteq> 0"
  then have "1 \<le> unat (xs ! a)" by (metis Suc_leI One_nat_def unat_gt_0)
  then have "1 * B ^ k \<le> unat (xs ! a) * B ^ k" by (rule mult_right_mono) simp
  then show ?thesis unfolding dval_first by linarith
qed

text \<open>What \<open>u\<close>, \<open>m\<close>, \<open>v\<close> and \<open>n\<close> are after the two searches.\<close>

lemma searches:
  assumes le: "b \<le> a" and sv: "skip_v (digits4 b) 0 4 = Some (v, n)"
  obtains u where "v + n = 4" "2 \<le> n" "u \<le> v" "skip_u (digits4 a) 0 (4 - int n) = Inr (u, int (v - u))"
    "unat b = dval (digits4 b) (v + 1) n" "digits4 b ! (v + 1) \<noteq> 0"
    "unat a = dval (digits4 a) u (5 - u)" "\<forall>i \<le> u. digits4 a ! i = 0"
proof -
  have v: "v + n = 4" "2 \<le> n" "digits4 b ! (v + 1) \<noteq> 0" "\<forall>i. 0 < i \<and> i \<le> v \<longrightarrow> digits4 b ! i = 0"
    using skip_v_ok [where vs = "digits4 b" and v = 0 and n = 4] sv by auto
  have "digits4 b ! i = 0" if "i < v + 1" for i using v(4) digits4(2) [of b] that by (cases "i = 0") auto
  then have b: "unat b = dval (digits4 b) (v + 1) n"
    using dval_drop_zeros [of "v + 1" "digits4 b" 0 n] digits4(3) [of b] v(1) by simp
  then have "B ^ (n - 1) \<le> unat b" using dval_ge [OF v(3), of "n - 1"] v(2) by simp
  then have "B ^ (n - 1) \<le> unat a" using le by (simp add: word_le_nat_alt)
  then have "unat a \<noteq> 0" using zero_less_power [of B "n - 1"] by linarith
  have "\<exists>i. 0 < i \<and> i < 5 \<and> digits4 a ! i \<noteq> 0"
  proof (rule ccontr)
    assume "\<not> ?thesis"
    then have "digits4 a ! (0 + i) = 0" if "i < 5" for i using digits4(2) [of a] that by (cases "i = 0") auto
    then have "dval (digits4 a) 0 5 = 0" by (rule dval_zero)
    then show False using digits4(3) [of a] \<open>unat a \<noteq> 0\<close> by simp
  qed
  then obtain u where u: "skip_u (digits4 a) 0 (4 - int n) = Inr (u, 4 - int n - int u)" "u + 1 < 5" "digits4 a ! (u + 1) \<noteq> 0"
    "\<forall>k. 0 < k \<and> k \<le> u \<longrightarrow> digits4 a ! k = 0"
    using skip_u_ok [of 0 _ "digits4 a" "4 - int n"] digits4(1) [of a] by auto
  have z: "digits4 a ! i = 0" if "i \<le> u" for i using u(4) digits4(2) [of a] that by (cases "i = 0") auto
  have a: "unat a = dval (digits4 a) u (5 - u)" "unat a = dval (digits4 a) (u + 1) (4 - u)"
    using dval_drop_zeros [of u "digits4 a" 0 "5 - u"] dval_drop_zeros [of "u + 1" "digits4 a" 0 "4 - u"] z digits4(3) [of a] u(2) by simp_all
  have "B ^ (n - 1) < B ^ (4 - u)" using \<open>B ^ (n - 1) \<le> unat a\<close> dval_less [of "digits4 a" "u + 1" "4 - u"] unfolding a(2) by linarith
  then have "n - 1 < 4 - u" by (simp add: power_strict_increasing_iff)
  then have "u \<le> v" "4 - int n - int u = int (v - u)" using v(1) by simp_all
  then show thesis using that v(1-3) u(1) b a(1) z by simp
qed

text \<open>The shifts before the main loop.\<close>

lemma normalised:
  assumes u: "u \<le> v" "v + n = 4" "2 \<le> n" and us: "length us = 5" "us ! u = 0" and vs: "length vs = 5" "vs ! (v + 1) \<noteq> 0"
    and top: "unat (vs ! (v + 1)) * 2 ^ d < B"
  defines "us1 \<equiv> if d > 0 then shl us u (v - u + n) d else us" and "vs1 \<equiv> if d > 0 then shl vs (v + 1) (n - 1) d else vs"
  shows "length us1 = 5" "dval us1 u (5 - u) = dval us u (5 - u) * 2 ^ d" "\<forall>i < u. us1 ! i = us ! i"
    "dval vs1 (v + 1) n = dval vs (v + 1) n * 2 ^ d" "vs1 ! (v + 1) \<noteq> 0" "d \<le> 15"
proof -
  have "1 \<le> unat (vs ! (v + 1))" using vs(2) by (metis Suc_leI One_nat_def unat_gt_0)
  then have "1 * 2 ^ d \<le> unat (vs ! (v + 1)) * 2 ^ d" by (rule mult_right_mono) simp
  then have "2 ^ d < B" using top by linarith
  then have "(2 :: nat) ^ d < 2 ^ 16" by simp
  then have "d < 16" by (rule power_less_imp_less_exp [rotated]) simp
  then show d: "d \<le> 15" by simp
  have len: "v - u + n = 4 - u" "u + (4 - u) < length us" "v + 1 + (n - 1) < length vs" "Suc (4 - u) = 5 - u" "Suc (n - 1) = n"
    using u us(1) vs(1) by simp_all
  show "length us1 = 5" using shl_nth(1) [OF len(2)] us(1) unfolding us1_def len(1) by simp
  show "dval us1 u (5 - u) = dval us u (5 - u) * 2 ^ d"
    using shl_ok [OF len(2), of d] us(2) d unfolding us1_def len(1) len(4) by simp
  show "\<forall>i < u. us1 ! i = us ! i" using shl_nth(4) [OF len(2)] unfolding us1_def len(1) by simp
  show V: "dval vs1 (v + 1) n = dval vs (v + 1) n * 2 ^ d"
    using shl_ok [OF len(3), of d] top d unfolding vs1_def len(5) by simp
  show "vs1 ! (v + 1) \<noteq> 0"
  proof
    assume z: "vs1 ! (v + 1) = 0"
    have "B ^ (n - 1) \<le> dval vs (v + 1) n" using dval_ge [OF vs(2), of "n - 1"] unfolding len(5) .
    also have "\<dots> \<le> dval vs1 (v + 1) n" unfolding V by simp
    also have "\<dots> = dval vs1 (v + 1 + 1) (n - 1)" using dval_first [of vs1 "v + 1" "n - 1"] z unfolding len(5) by simp
    finally show False using dval_less [of vs1 "v + 1 + 1" "n - 1"] by simp
  qed
qed

lemma fold_zero:
  fixes q :: "u16 list"
  assumes "j < length q"
  shows "fold (\<lambda>i q. q[i := 0]) is q ! j = (if j \<in> set is then 0 else q ! j)"
    "length (fold (\<lambda>i q. q[i := 0]) is q) = length q"
  using assms by (induction "is" arbitrary: q) (auto simp: nth_list_update)

lemma leading_digits_less:
  assumes "dval us1 u (n + (m + 1)) = a * 2 ^ d" and "a < B ^ (m + n)" and "B ^ (n - 1) \<le> b" and "2 \<le> n"
  shows "dval us1 u n < b * 2 ^ d"
proof -
  have "dval us1 u n * B ^ (m + 1) \<le> a * 2 ^ d" using assms(1) unfolding dval_split by simp
  also have "\<dots> < B ^ (m + n) * 2 ^ d" using assms(2) by simp
  also have "\<dots> = (B ^ (n - 1) * 2 ^ d) * B ^ (m + 1)"
  proof -
    have e: "m + n = (n - 1) + (m + 1)" using assms(4) by simp
    show ?thesis unfolding e power_add by (simp only: ac_simps)
  qed
  finally have "dval us1 u n < B ^ (n - 1) * 2 ^ d" by (rule mult_less_cancel2 [THEN iffD1, THEN conjunct2])
  also have "\<dots> \<le> b * 2 ^ d" using assms(3) by simp
  finally show ?thesis .
qed

lemma div_mod_unique:
  fixes x Q V R :: nat
  assumes "x = Q * V + R" "R < V"
  shows "Q = x div V \<and> R = x mod V"
  using assms by simp

lemma qdivrem_many:
  assumes le: "b \<le> a" and b0: "b \<noteq> 0" and sv: "skip_v (digits4 b) 0 4 = Some (v, n)" and q: "length qjunk = 5"
  shows "qdivrem qjunk a b = Inr (a div b, a mod b)"
proof -
  obtain u where s: "v + n = 4" "2 \<le> n" "u \<le> v" "skip_u (digits4 a) 0 (4 - int n) = Inr (u, int (v - u))"
    and b: "unat b = dval (digits4 b) (v + 1) n" "digits4 b ! (v + 1) \<noteq> 0"
    and a: "unat a = dval (digits4 a) u (5 - u)" "\<forall>i \<le> u. digits4 a ! i = 0" by (rule searches [OF le sv]) blast
  let ?t = "ucast (digits4 b ! (v + 1)) :: u32"
  have "0 < unat ?t" "unat ?t < B" using b(2) unat16_less by (simp_all add: unat_digit unat_gt_0)
  then obtain d where d: "count_shift ?t 0 = Some d" "unat (digits4 b ! (v + 1)) * 2 ^ d < B"
    using count_shift_ok [of ?t 0] by (auto simp: unat_digit)
  define m where "m = v - u"
  have mn: "u + m = v" "v - u + n = m + n" "4 - u = m + n" "5 - u = n + (m + 1)" using s by (simp_all add: m_def)
  define us1 where "us1 = (if d > 0 then shl (digits4 a) u (m + n) d else digits4 a)"
  define vs1 where "vs1 = (if d > 0 then shl (digits4 b) (v + 1) (n - 1) d else digits4 b)"
  have "digits4 a ! u = 0" using a(2) by simp
  note norm = normalised [OF s(3,1,2) digits4(1) this digits4(1) b(2) d(2), unfolded mn(2), folded us1_def vs1_def]
  define qs where "qs = fold (\<lambda>i q. q[i := 0]) (rev [0..<4 - m]) qjunk"
  have qs: "length qs = 5" "\<forall>i < 4 - m. qs ! i = 0" using q fold_zero [of _ qjunk "rev [0..<4 - m]"] fold_zero(2) [of 0 qjunk] by (auto simp: qs_def)
  define V where "V = unat b * 2 ^ d"
  have V: "V = dval vs1 (v + 1) n" using norm(4) b(1) by (simp add: V_def)
  have A: "dval us1 u (n + (m + 1)) = unat a * 2 ^ d" using norm(2) a(1) unfolding mn(4) by simp
  have "unat a = dval (digits4 a) (u + 1) (m + n)" using dval_drop_zeros [of 1 "digits4 a" u "m + n"] a mn(4) by (simp add: add.commute del: dval.simps)
  then have "unat a < B ^ (m + n)" using dval_less by simp
  moreover have "B ^ (n - 1) \<le> unat b" using dval_ge [OF b(2), of "n - 1"] b(1) s(2) by simp
  ultimately have "dval us1 u n < V" unfolding V_def by (rule leading_digits_less [OF A _ _ s(2)])
  then obtain us2 qs2 where loop: "div_loop u v vs1 n (4 - m) (m + 1) 0 us1 qs = Inr (us2, qs2)"
    "unat a * 2 ^ d = dval qs2 (4 - m) (m + 1) * V + dval us2 (v + 1) n" "dval us2 (v + 1) n < V"
    "\<forall>i < m + 1. us2 ! (u + i) = 0" "length us2 = 5" "length qs2 = 5" "\<forall>i < u. us2 ! i = us1 ! i" "\<forall>i < 4 - m. qs2 ! i = qs ! i"
    using div_loop_ok [OF s(2) norm(5) V, of u 0 "m + 1" us1 "4 - m" qs] A norm(1) qs(1) mn s(1) by (auto simp: add.assoc)
  have Q: "dval qs2 (4 - m) (m + 1) = unat a div unat b" and R: "dval us2 (v + 1) n = unat a mod unat b * 2 ^ d"
    using div_mod_unique [OF loop(2,3)] unfolding V_def by (simp_all add: mod_mult_mult2)
  have z2: "us2 ! i = 0" if "i \<le> v" for i
    using loop(4) [rule_format, of "i - u"] loop(7) norm(3) a(2) that mn(1) by (cases "i < u") auto
  define us3 where "us3 = (if d > 0 then shift_back v d n us2 else us2)"
  have len: "v + n < length us2" "d \<le> 16" using s(1) loop(5) norm(6) by simp_all
  have z3: "us3 ! i = 0" if "i \<le> v" for i
    using shift_back_nth [OF len] z2 that unfolding us3_def by (auto simp: le_less)
  have "dval us3 (v + 1) n = unat a mod unat b"
    using shift_back_ok [OF len z2] R unfolding us3_def by (auto simp del: dval.simps)
  moreover have "dval us3 1 4 = dval us3 (v + 1) n" using dval_drop_zeros [of v us3 1 n] z3 s(1) by (simp add: add.commute del: dval.simps)
  moreover have "dval qs2 1 4 = unat a div unat b" 
  proof -
    have "1 + (3 - m) = 4 - m" "3 - m + (m + 1) = 4" using mn(1) s(1,2) by simp_all
    with dval_drop_zeros [of "3 - m" qs2 1 "m + 1"] loop(8) qs(2) Q show ?thesis by (simp del: dval.simps)
  qed
  ultimately have "of_digits4 qs2 = a div b" "of_digits4 us3 = a mod b"
    by (simp_all add: word_unat_eq_iff unat_of_digits4 unat_div unat_mod del: dval.simps)
  moreover have "\<not> a < b" using le by simp
  ultimately show ?thesis using loop(1) unfolding qdivrem_def us1_def vs1_def us3_def
    by (cases "d = 0") (simp_all add: b0 sv s(4) d(1) mn(1) Let_def del: One_nat_def flip: qs_def m_def)
qed

text \<open>Both paths together: the routine returns the quotient and the remainder, whatever its \<open>q\<close> array held before.\<close>

lemma qdivrem_ok:
  assumes "b \<noteq> 0" and "length qjunk = 5"
  shows "qdivrem qjunk a b = Inr (a div b, a mod b)"
proof (cases "a < b")
  case True
  then show ?thesis using assms(1)
    by (simp add: qdivrem_def word_unat_eq_iff unat_div unat_mod word_less_nat_alt)
next
  case less: False
  show ?thesis
  proof (cases "skip_v (digits4 b) 0 4")
    case None
    then have "\<forall>i. 0 < i \<and> i < 4 \<longrightarrow> digits4 b ! i = 0"
      using skip_v_ok [where vs = "digits4 b" and v = 0 and n = 4] by simp
    then have z: "digits4 b ! i = 0" if "i < 4" for i using digits4(2) [of b] that by (cases "i = 0") auto
    let ?t = "ucast (digits4 b ! 4) :: u32"
    have t: "unat ?t = unat b"
      using dval_drop_zeros [of 4 "digits4 b" 0 1] z digits4(3) [of b] by (simp add: unat_digit)
    have u: "dval (digits4 a) 1 4 = unat a"
      using dval_drop_zeros [of 1 "digits4 a" 0 4] digits4(2,3) [of a] by (simp del: dval.simps)
    have "0 < unat ?t" "unat ?t < B" using assms(1) t unat16_less [of "digits4 b ! 4"] by (simp_all add: unat_digit unat_gt_0)
    from div_one_ok [OF this, of "digits4 a"] have "div_one (digits4 a) ?t = (a div b, a mod b)"
      unfolding t u prod_eq_iff word_unat_eq_iff fst_conv snd_conv unat_div unat_mod .
    then show ?thesis using less assms(1) None by (simp add: qdivrem_def Let_def)
  next
    case (Some p)
    then show ?thesis using qdivrem_many [of b a "fst p" "snd p" qjunk] less assms by (simp add: not_less)
  qed
qed

section \<open>The entry points\<close>

lemma udivdi3_ok: "b \<noteq> 0 \<Longrightarrow> length qjunk = 5 \<Longrightarrow> udivdi3 qjunk a b = Inr (a div b)"
  by (simp add: udivdi3_def qdivrem_ok)

lemma umoddi3_ok: "b \<noteq> 0 \<Longrightarrow> length qjunk = 5 \<Longrightarrow> umoddi3 qjunk a b = Inr (a mod b)"
  by (simp add: umoddi3_def qdivrem_ok)

text \<open>The magnitude of a signed operand, also for the most negative one.\<close>

lemma uint_magnitude: "uint (if sint a < 0 then - a else a) = \<bar>sint (a :: u64)\<bar>"
proof -
  have s: "- (2 ^ 63) \<le> sint a" "sint a < 2 ^ 63" using sint_range_size [of a] by (simp_all add: word_size)
  have w: "uint (word_of_int k :: u64) = k" if "0 \<le> k" "k < 2 ^ 64" for k
    using that by (simp add: uint_word_of_int_eq take_bit_int_eq_self)
  show ?thesis
  proof (cases "sint a < 0")
    case True
    have "uint (- a) = uint (word_of_int (- sint a) :: u64)" by simp
    also have "\<dots> = - sint a" using s True by (intro w) simp_all
    finally show ?thesis using True by simp
  next
    case False
    have "uint a = uint (word_of_int (sint a) :: u64)" by simp
    also have "\<dots> = sint a" using s False by (intro w) simp_all
    finally show ?thesis using False by simp
  qed
qed

lemma magnitude_div:
  "(if sint a < 0 then - a else a) div (if sint b < 0 then - b else b) = (word_of_int (\<bar>sint a\<bar> div \<bar>sint b\<bar>) :: u64)"
  "(if sint a < 0 then - a else a) mod (if sint b < 0 then - b else b) = (word_of_int (\<bar>sint a\<bar> mod \<bar>sint b\<bar>) :: u64)"
  unfolding word_div_def word_mod_def uint_magnitude by simp_all

text \<open>Signed division truncates toward zero, and the remainder has the sign of the dividend.\<close>

lemma divdi3_ok:
  assumes "b \<noteq> 0" and "length qjunk = 5"
  shows "divdi3 qjunk a b = Inr (word_of_int (sint a sdiv sint b))"
proof -
  have "(if sint b < 0 then - b else b) \<noteq> 0" "sint b \<noteq> 0"
    using assms(1) by (auto simp: signed_eq_0_iff)
  then show ?thesis unfolding divdi3_def signed_divide_int_def
    using qdivrem_ok [OF _ assms(2)] magnitude_div(1) [of a b] by (auto simp: sgn_if simp flip: of_int_minus)
qed

lemma moddi3_ok:
  assumes "b \<noteq> 0" and "length qjunk = 5"
  shows "moddi3 qjunk a b = Inr (word_of_int (sint a smod sint b))"
proof -
  have "(if sint b < 0 then - b else b) \<noteq> 0" "sint b \<noteq> 0"
    using assms(1) by (auto simp: signed_eq_0_iff)
  then show ?thesis unfolding moddi3_def signed_modulo_int_def
    using qdivrem_ok [OF _ assms(2)] magnitude_div(2) [of a b] by (auto simp: sgn_if simp flip: of_int_minus)
qed

end
