(* ===== verification/LongProperties.thy ===== *)
theory LongProperties
  imports LongDiv
begin

text \<open>The properties of the 64-bit arithmetic the compiler calls on the 32-bit processor.\<close>

text \<open>
  C13: Division is correct. For every dividend and every divisor but 0, and whatever the
  uninitialised quotient array held, \<open>__qdivrem\<close> ends and gives exactly the quotient and the
  remainder; the unsigned entry points give each, and the signed ones truncate toward zero with a
  remainder that has the sign of the dividend, also for the most negative dividend.
\<close>

theorem division_correct:
  assumes "b \<noteq> 0" and "length qjunk = 5"
  shows "qdivrem qjunk a b = Inr (a div b, a mod b) \<and>
    udivdi3 qjunk a b = Inr (a div b) \<and> umoddi3 qjunk a b = Inr (a mod b) \<and>
    divdi3 qjunk a b = Inr (word_of_int (sint a sdiv sint b)) \<and>
    moddi3 qjunk a b = Inr (word_of_int (sint a smod sint b))"
  using qdivrem_ok [OF assms] udivdi3_ok [OF assms] umoddi3_ok [OF assms] divdi3_ok [OF assms] moddi3_ok [OF assms]
  by simp

theorem division_correct_witness:
  "qdivrem [1, 2, 3, 4, 5] 0x123456789ABCDEF 0x10001FFFF =
    Inr (0x123456789ABCDEF div 0x10001FFFF, 0x123456789ABCDEF mod 0x10001FFFF) \<and>
   divdi3 [1, 2, 3, 4, 5] (- 7) 2 = Inr (- 3) \<and> moddi3 [1, 2, 3, 4, 5] (- 7) 2 = Inr (- 1)"
  using division_correct [of "0x10001FFFF" "[1, 2, 3, 4, 5]" "0x123456789ABCDEF"]
    division_correct [of 2 "[1, 2, 3, 4, 5]" "- 7"]
  by (simp add: signed_divide_int_def signed_modulo_int_def)

text \<open>
  C28: Multiplication is correct. \<open>__muldi3\<close>, which multiplies by Karatsuba's three products of
  halves on the magnitudes, is the product of 64-bit words, and \<open>__lmulq\<close> is the full 64-bit product
  of two 32-bit words.
\<close>

theorem multiplication_correct:
  "muldi3 a b = a * b \<and> unat (lmulq u v) = unat u * unat v"
proof -
  have less: "unat x < 2 ^ 32" for x :: u32 using unsigned_less [of x] by simp
  have "unat u * unat v < 2 ^ 32 * 2 ^ 32" by (intro mult_strict_mono less) simp_all
  moreover have "unat (ucast x :: u64) = unat x" for x :: u32
    using less [of x] by (simp add: unsigned_ucast_eq take_bit_nat_eq_self)
  ultimately have "unat (ucast u * ucast v :: u64) = unat u * unat v"
    using unat_mult_lem [of "ucast u :: u64" "ucast v"] by simp
  then show ?thesis by (simp add: muldi3_eq lmulq_eq)
qed

text \<open>
  C32: The routines on two halves are the operations on 64-bit words: addition with the carry,
  subtraction and negation with the borrow, the bitwise operations, both comparisons (0, 1 or 2 for
  less, equal and greater), and the shifts, which for every amount less than 64 never shift a
  32-bit half by 32 or more.
\<close>

theorem halves_correct:
  "adddi3 a b = a + b \<and> subdi3 a b = a - b \<and> negdi2 a = - a \<and>
   anddi3 a b = a AND b \<and> iordi3 a b = a OR b \<and> xordi3 a b = a XOR b \<and> one_cmpldi2 a = NOT a \<and>
   cmpdi2 a b = (if sint a < sint b then 0 else if sint a = sint b then 1 else 2) \<and>
   ucmpdi2 a b = (if a < b then 0 else if a = b then 1 else 2) \<and>
   (n < 64 \<longrightarrow>
     ashldi3 a n = Inr (push_bit (unat n) a) \<and> lshldi3 a n = Inr (push_bit (unat n) a) \<and>
     lshrdi3 a n = Inr (drop_bit (unat n) a) \<and> ashrdi3 a n = Inr (signed_drop_bit (unat n) a))"
  unfolding adddi3_eq subdi3_eq negdi2_eq logic_eq cmpdi2_eq ucmpdi2_eq using shifts_eq [of n a] by blast

theorem halves_correct_witness:
  "adddi3 0xFFFFFFFF 1 = 0x100000000 \<and> cmpdi2 (- 1) 0 = 0 \<and> ucmpdi2 (- 1) 0 = 2 \<and>
   ashldi3 3 33 = Inr 0x600000000 \<and> ashrdi3 (- 16) 2 = Inr (- 4)"
  using halves_correct [of "0xFFFFFFFF" 1 0] halves_correct [of "- 1" 0 0] halves_correct [of 3 0 33] halves_correct [of "- 16" 0 2]
  by simp

end
