(* ===== verification/KernelMemory.thy ===== *)
theory KernelMemory
  imports UserMemory
begin

text \<open>
  Memory as the kernel addresses it, and \<open>common/libc/string\<close>: \<open>memcpy\<close>, \<open>memmove\<close>,
  \<open>bzero\<close> and \<open>memset\<close>. An address below \<open>USERSPACETOP\<close> goes through the TLB and may fault;
  one above it is in the kernel's direct-mapped segment. A contract of the user half is stated as
  the locale \<open>user_pages\<close>, the loops of the string functions are verified once against it, and the
  virtual memory system provides it.
\<close>

section \<open>Accesses of the kernel\<close>

type_synonym page = "nat \<Rightarrow> u8"

text \<open>
  The memory of the kernel with the part of the thread the fault handler looks at: whether
  \<open>tm_badfaultfunc\<close> is set. The only function ever put there is \<open>copyfail\<close> of \<open>copyinout.c\<close>.
\<close>

record 's kmachine =
  kmem :: "vaddr_t \<Rightarrow> u8"
  tm_badfaultfunc :: bool
  umem :: 's

text \<open>
  An access to user memory: \<open>None\<close> when a fault cannot be handled and the thread goes on in
  \<open>copyfail\<close>. The address of that function, where the exception returns to, is an argument.
\<close>

type_synonym 's uaccess = "bool \<Rightarrow> page access \<Rightarrow> 's \<Rightarrow> (page option \<times> 's) res"

definition kernel_translate ::
  "('v, 'p) vnode_ops \<Rightarrow> vaddr_t \<Rightarrow> bool \<Rightarrow> 'p access \<Rightarrow> kheap \<Rightarrow> ('v, 'p) vm \<Rightarrow> (paddr_t option \<times> kheap \<times> ('v, 'p) vm) res" where
  "kernel_translate ops copyfail bad a h s =
     (case tlb_translate (tlb s) (access_page a) of
        Some pa \<Rightarrow> Inr (Some pa, h, s)
      | None \<Rightarrow>
          kbind (trap_fault ops (trap_code a) True (if bad then Some copyfail else None) (access_addr a) h s) (\<lambda>(epc, h1, s1).
          if epc \<noteq> None then Inr (None, h1, s1)
          else case tlb_translate (tlb s1) (access_page a) of
            Some pa \<Rightarrow> Inr (Some pa, h1, s1)
          | None \<Rightarrow> Inl (Undefined ''the restarted instruction faults again'')))"

definition kernel_access ::
  "('v, 'p) vnode_ops \<Rightarrow> vaddr_t \<Rightarrow> bool \<Rightarrow> 'p access \<Rightarrow> kheap \<times> ('v, 'p) vm \<Rightarrow> ('p option \<times> kheap \<times> ('v, 'p) vm) res" where
  "kernel_access ops copyfail bad a = (\<lambda>(h, s).
     kbind (kernel_translate ops copyfail bad a h s) (\<lambda>(t, h1, s1).
     case t of
       None \<Rightarrow> Inr (None, h1, s1)
     | Some pa \<Rightarrow>
         let f = addr_frame pa; p = mem s1 f in
         Inr (Some p, h1, s1\<lparr>mem := (mem s1)(f := access_effect a p)\<rparr>)))"

definition page_offset :: "vaddr_t \<Rightarrow> nat" where
  "page_offset va = unat va mod PAGE_SIZE"

text \<open>The load of the \<open>w\<close> bytes at an address, and the store of some bytes there.\<close>

definition kload :: "'s uaccess \<Rightarrow> nat \<Rightarrow> vaddr_t \<Rightarrow> 's kmachine \<Rightarrow> (u8 list option \<times> 's kmachine) res" where
  "kload acc w va m =
     (if va < USERSPACETOP
      then kbind (acc (tm_badfaultfunc m) (Load va) (umem m)) (\<lambda>(r, s).
        Inr (map_option (\<lambda>p. map (\<lambda>j. p (page_offset va + j)) [0..<w]) r, m\<lparr>umem := s\<rparr>))
      else Inr (Some (map (\<lambda>j. kmem m (va + of_nat j)) [0..<w]), m))"

definition put_page :: "nat \<Rightarrow> u8 list \<Rightarrow> page \<Rightarrow> page" where
  "put_page off bs p = (\<lambda>k. if off \<le> k \<and> k < off + length bs then bs ! (k - off) else p k)"

definition put_mem :: "vaddr_t \<Rightarrow> u8 list \<Rightarrow> (vaddr_t \<Rightarrow> u8) \<Rightarrow> vaddr_t \<Rightarrow> u8" where
  "put_mem va bs f = (\<lambda>x. if unat (x - va) < length bs then bs ! unat (x - va) else f x)"

definition kstore :: "'s uaccess \<Rightarrow> vaddr_t \<Rightarrow> u8 list \<Rightarrow> 's kmachine \<Rightarrow> (bool \<times> 's kmachine) res" where
  "kstore acc va bs m =
     (if va < USERSPACETOP
      then kbind (acc (tm_badfaultfunc m) (Store va (put_page (page_offset va) bs)) (umem m)) (\<lambda>(r, s).
        Inr (r \<noteq> None, m\<lparr>umem := s\<rparr>))
      else Inr (True, m\<lparr>kmem := put_mem va bs (kmem m)\<rparr>))"

section \<open>Copying and filling\<close>

text \<open>
  The loops \<open>d[i] = s[i]\<close> over elements of \<open>w\<close> bytes, for the indices in the order given; \<open>False\<close> when a
  fault has ended the loop.
\<close>

fun copy_units ::
  "'s uaccess \<Rightarrow> nat \<Rightarrow> vaddr_t \<Rightarrow> vaddr_t \<Rightarrow> nat list \<Rightarrow> 's kmachine \<Rightarrow> (bool \<times> 's kmachine) res" where
  "copy_units acc w d s [] m = Inr (True, m)"
| "copy_units acc w d s (i # is) m =
     kbind (kload acc w (s + of_nat (i * w)) m) (\<lambda>(v, m1).
     case v of
       None \<Rightarrow> Inr (False, m1)
     | Some bs \<Rightarrow>
         kbind (kstore acc (d + of_nat (i * w)) bs m1) (\<lambda>(ok, m2).
         if ok then copy_units acc w d s is m2 else Inr (False, m2)))"

definition word_copy :: "vaddr_t \<Rightarrow> vaddr_t \<Rightarrow> size_t \<Rightarrow> bool" where
  "word_copy dst src len \<longleftrightarrow> dst mod 4 = 0 \<and> src mod 4 = 0 \<and> len mod 4 = 0"

definition memcpy :: "'s uaccess \<Rightarrow> vaddr_t \<Rightarrow> vaddr_t \<Rightarrow> size_t \<Rightarrow> 's kmachine \<Rightarrow> (bool \<times> 's kmachine) res" where
  "memcpy acc dst src len m =
     (if word_copy dst src len then copy_units acc 4 dst src [0..<unat (len div 4)] m
      else copy_units acc 1 dst src [0..<unat len] m)"

definition memmove :: "'s uaccess \<Rightarrow> vaddr_t \<Rightarrow> vaddr_t \<Rightarrow> size_t \<Rightarrow> 's kmachine \<Rightarrow> (bool \<times> 's kmachine) res" where
  "memmove acc dst src len m =
     (if dst < src then memcpy acc dst src len m
      else if word_copy dst src len then copy_units acc 4 dst src (rev [0..<unat (len div 4)]) m
      else copy_units acc 1 dst src (rev [0..<unat len]) m)"

fun fill_units :: "'s uaccess \<Rightarrow> vaddr_t \<Rightarrow> u8 list \<Rightarrow> nat list \<Rightarrow> 's kmachine \<Rightarrow> (bool \<times> 's kmachine) res" where
  "fill_units acc d bs [] m = Inr (True, m)"
| "fill_units acc d bs (i # is) m =
     kbind (kstore acc (d + of_nat (i * length bs)) bs m) (\<lambda>(ok, m1).
     if ok then fill_units acc d bs is m1 else Inr (False, m1))"

definition bzero :: "'s uaccess \<Rightarrow> vaddr_t \<Rightarrow> size_t \<Rightarrow> 's kmachine \<Rightarrow> (bool \<times> 's kmachine) res" where
  "bzero acc vblock len m =
     (if vblock mod 4 = 0 \<and> len mod 4 = 0 then fill_units acc vblock [0, 0, 0, 0] [0..<unat (len div 4)] m
      else fill_units acc vblock [0] [0..<unat len] m)"

definition memset :: "'s uaccess \<Rightarrow> vaddr_t \<Rightarrow> u32 \<Rightarrow> size_t \<Rightarrow> 's kmachine \<Rightarrow> (bool \<times> 's kmachine) res" where
  "memset acc ptr ch len m = fill_units acc ptr [ucast ch] [0..<unat len] m"

section \<open>Bytes of memory\<close>

text \<open>
  The bytes of all memory: those of user pages that have been touched, and those of the kernel.
  \<open>view\<close> gives the pages of the current process.
\<close>

definition mbyte :: "('s \<Rightarrow> vaddr_t \<Rightarrow> page option) \<Rightarrow> 's kmachine \<Rightarrow> vaddr_t \<Rightarrow> u8 option" where
  "mbyte view m va =
     (if va < USERSPACETOP then map_option (\<lambda>p. p (page_offset va)) (view (umem m) (va AND PAGE_FRAME))
      else Some (kmem m va))"

text \<open>\<open>keeps\<close>: a byte outside a set is what it was, if it was anything.\<close>

definition keeps :: "(vaddr_t \<rightharpoonup> u8) \<Rightarrow> (vaddr_t \<rightharpoonup> u8) \<Rightarrow> vaddr_t set \<Rightarrow> bool" where
  "keeps b b' A \<longleftrightarrow> (\<forall>x. x \<notin> A \<longrightarrow> b x \<noteq> None \<longrightarrow> b' x = b x)"

text \<open>
  \<open>moved b b' P\<close>: for every pair of a destination and a source the destination has the byte of the
  source, which the source has kept if it is not a destination itself; nothing else has changed.
\<close>

definition moved :: "(vaddr_t \<rightharpoonup> u8) \<Rightarrow> (vaddr_t \<rightharpoonup> u8) \<Rightarrow> (vaddr_t \<times> vaddr_t) set \<Rightarrow> bool" where
  "moved b b' P \<longleftrightarrow> keeps b b' (fst ` P) \<and>
     (\<forall>d s. (d, s) \<in> P \<longrightarrow> (\<exists>x. b' d = Some x \<and> (b s \<noteq> None \<longrightarrow> b s = Some x) \<and> (s \<notin> fst ` P \<longrightarrow> b' s = Some x)))"

lemma keeps_refl [simp]: "keeps b b A"
  by (simp add: keeps_def)

lemma keeps_trans: "keeps b b1 A \<Longrightarrow> keeps b1 b2 A' \<Longrightarrow> keeps b b2 (A \<union> A')"
  by (auto simp: keeps_def)

lemma keeps_mono: "keeps b b' A \<Longrightarrow> A \<subseteq> A' \<Longrightarrow> keeps b b' A'"
  by (auto simp: keeps_def)

lemma moved_empty: "moved b b' {} \<longleftrightarrow> keeps b b' {}"
  by (simp add: moved_def)

lemma keepsD: "keeps b b' A \<Longrightarrow> b x = Some y \<Longrightarrow> x \<notin> A \<Longrightarrow> b' x = Some y"
  by (simp add: keeps_def)

lemma movedE:
  assumes "moved b b' P" and "(d, s) \<in> P"
  obtains x where "b' d = Some x" "\<And>y. b s = Some y \<Longrightarrow> y = x" "s \<notin> fst ` P \<Longrightarrow> b' s = Some x"
proof -
  have "\<exists>x. b' d = Some x \<and> (b s \<noteq> None \<longrightarrow> b s = Some x) \<and> (s \<notin> fst ` P \<longrightarrow> b' s = Some x)"
    using assms unfolding moved_def by blast
  then show thesis using that by fastforce
qed

lemma movedI:
  assumes "keeps b b' (fst ` P)"
    and "\<And>d s. (d, s) \<in> P \<Longrightarrow> \<exists>x. b' d = Some x \<and> (\<forall>y. b s = Some y \<longrightarrow> y = x) \<and> (s \<notin> fst ` P \<longrightarrow> b' s = Some x)"
  shows "moved b b' P"
proof -
  have "\<exists>x. b' d = Some x \<and> (b s \<noteq> None \<longrightarrow> b s = Some x) \<and> (s \<notin> fst ` P \<longrightarrow> b' s = Some x)" if "(d, s) \<in> P" for d s
    using assms(2) [OF that] by (cases "b s") auto
  then show ?thesis using assms(1) unfolding moved_def by blast
qed

lemma moved_keeps: "moved b b' P \<Longrightarrow> keeps b b' (fst ` P)"
  by (simp add: moved_def)

lemma moved_trans:
  assumes m: "moved b b1 P1" "moved b1 b2 P2" and dis: "fst ` P1 \<inter> fst ` P2 = {}" "fst ` P1 \<inter> snd ` P2 = {}"
  shows "moved b b2 (P1 \<union> P2)"
proof (rule movedI)
  note k = moved_keeps [OF m(1)] moved_keeps [OF m(2)]
  show "keeps b b2 (fst ` (P1 \<union> P2))" unfolding image_Un by (rule keeps_trans [OF k])
  fix d s assume "(d, s) \<in> P1 \<union> P2"
  then consider "(d, s) \<in> P1" | "(d, s) \<in> P2" by blast
  then show "\<exists>x. b2 d = Some x \<and> (\<forall>y. b s = Some y \<longrightarrow> y = x) \<and> (s \<notin> fst ` (P1 \<union> P2) \<longrightarrow> b2 s = Some x)"
  proof cases
    case 1
    obtain x where x: "b1 d = Some x" "\<And>y. b s = Some y \<Longrightarrow> y = x" "s \<notin> fst ` P1 \<Longrightarrow> b1 s = Some x"
      by (rule movedE [OF m(1) 1]) blast
    have "d \<in> fst ` P1" using 1 by force
    then have "d \<notin> fst ` P2" using dis(1) by blast
    then show ?thesis using x keepsD [OF k(2)] unfolding image_Un by blast
  next
    case 2
    obtain x where x: "b2 d = Some x" "\<And>y. b1 s = Some y \<Longrightarrow> y = x" "s \<notin> fst ` P2 \<Longrightarrow> b2 s = Some x"
      by (rule movedE [OF m(2) 2]) blast
    have "s \<in> snd ` P2" using 2 by force
    then have "s \<notin> fst ` P1" using dis(2) by blast
    then show ?thesis using x keepsD [OF k(1)] unfolding image_Un by blast
  qed
qed

section \<open>Addresses\<close>

definition span :: "vaddr_t \<Rightarrow> nat \<Rightarrow> vaddr_t set" where
  "span va n = (\<lambda>j. va + of_nat j) ` {..<n}"

definition block :: "vaddr_t \<Rightarrow> vaddr_t \<Rightarrow> nat set \<Rightarrow> (vaddr_t \<times> vaddr_t) set" where
  "block d s K = (\<lambda>k. (d + of_nat k, s + of_nat k)) ` K"

definition unit_offsets :: "nat \<Rightarrow> nat \<Rightarrow> nat set" where
  "unit_offsets w i = {i * w..<i * w + w}"

definition fits :: "nat \<Rightarrow> vaddr_t \<Rightarrow> bool" where
  "fits w va \<longleftrightarrow> page_offset va + w \<le> PAGE_SIZE"

lemma unat_add_of_nat: "unat (a :: u32) + k < 2 ^ 32 \<Longrightarrow> unat (a + of_nat k) = unat a + k"
  by (simp add: unat_word_ariths unat_of_nat)

lemma page_parts: "unat (va :: u32) = unat va div PAGE_SIZE * PAGE_SIZE + page_offset va" "unat va div PAGE_SIZE < 2 ^ 20"
proof -
  have "unat va < 2 ^ 32" using unsigned_less [of va] by simp
  then show "unat va div PAGE_SIZE < 2 ^ 20" by simp
qed (simp add: page_offset_def)

lemma in_page:
  assumes "fits w va" and "j < w"
  shows "unat (va + of_nat j) = unat va + j" "(va + of_nat j) AND PAGE_FRAME = va AND PAGE_FRAME"
    "page_offset (va + of_nat j) = page_offset va + j" "va + of_nat j < USERSPACETOP \<longleftrightarrow> va < USERSPACETOP"
proof -
  let ?q = "unat va div PAGE_SIZE"
  have o: "page_offset va + j < PAGE_SIZE" using assms by (simp add: fits_def)
  show u: "unat (va + of_nat j) = unat va + j"
    using page_parts [of va] o by (intro unat_add_of_nat) simp
  have v: "unat va = ?q * PAGE_SIZE + page_offset va" by (rule page_parts(1))
  have q: "(unat va + j) div PAGE_SIZE = ?q" "(unat va + j) mod PAGE_SIZE = page_offset va + j"
    using o by (subst v, simp add: add.assoc)+
  show "(va + of_nat j) AND PAGE_FRAME = va AND PAGE_FRAME" "page_offset (va + of_nat j) = page_offset va + j"
    by (simp_all add: word_unat_eq_iff unat_and_PAGE_FRAME u q page_offset_def [of "va + of_nat j"])
  have "unat va < 2 ^ 31 \<longleftrightarrow> ?q < 2 ^ 19" "unat va + j < 2 ^ 31 \<longleftrightarrow> ?q < 2 ^ 19"
    using div_less_iff_less_mult [of PAGE_SIZE "unat va" "2 ^ 19"] div_less_iff_less_mult [of PAGE_SIZE "unat va + j" "2 ^ 19"] q(1)
    by simp_all
  then show "va + of_nat j < USERSPACETOP \<longleftrightarrow> va < USERSPACETOP" by (simp add: word_less_nat_alt u)
qed

lemma same_page:
  assumes "x AND PAGE_FRAME = va AND PAGE_FRAME" and "page_offset va \<le> page_offset x"
  shows "x = va + of_nat (page_offset x - page_offset va)"
proof -
  have "unat x div PAGE_SIZE = unat va div PAGE_SIZE"
    using assms(1) by (simp add: word_unat_eq_iff unat_and_PAGE_FRAME)
  then have u: "unat x = unat va + (page_offset x - page_offset va)"
    using page_parts(1) [of x] page_parts(1) [of va] assms(2) by simp
  moreover have "unat x < 2 ^ 32" using unsigned_less [of x] by simp
  ultimately show ?thesis by (simp add: word_unat_eq_iff unat_add_of_nat)
qed

lemma unit_block: "block d s (unit_offsets w i) =
    (\<lambda>j. (d + of_nat (i * w) + of_nat j, s + of_nat (i * w) + of_nat j)) ` {..<w}"
proof -
  have "unit_offsets w i = (\<lambda>j. i * w + j) ` {..<w}" unfolding unit_offsets_def lessThan_atLeast0 by (simp add: add.commute)
  then show ?thesis unfolding block_def by (simp add: image_image add.assoc)
qed

lemma units_all: "(\<Union>i \<in> {..<n}. unit_offsets w i) = {..<n * w}"
proof (induction n)
  case (Suc n)
  have "{..<Suc n * w} = {..<n * w} \<union> unit_offsets w n" unfolding unit_offsets_def by auto
  then show ?case unfolding lessThan_Suc using Suc by auto
qed simp

lemma span_unit: "span (d + of_nat (i * w)) w = (\<lambda>k. d + of_nat k) ` unit_offsets w i"
proof -
  have "unit_offsets w i = (\<lambda>j. i * w + j) ` {..<w}" unfolding unit_offsets_def lessThan_atLeast0 by (simp add: add.commute)
  then show ?thesis unfolding span_def by (simp add: image_image add.assoc)
qed

lemma span_units: "(\<Union>i \<in> {..<n}. span (d + of_nat (i * w)) w) = span d (n * w)"
proof -
  have "(\<Union>i \<in> {..<n}. span (d + of_nat (i * w)) w) = (\<lambda>k. d + of_nat k) ` (\<Union>i \<in> {..<n}. unit_offsets w i)"
    unfolding span_unit by blast
  then show ?thesis unfolding units_all span_def .
qed

lemma block_UN: "(\<Union>i \<in> I. block d s (f i)) = block d s (\<Union>i \<in> I. f i)"
  by (auto simp: block_def)

lemma block_fst: "fst ` block d s K = (\<lambda>k. d + of_nat k) ` K" and block_snd: "snd ` block d s K = (\<lambda>k. s + of_nat k) ` K"
  by (simp_all add: block_def image_image)

lemma unit_order: "i < j \<Longrightarrow> k \<in> unit_offsets w i \<Longrightarrow> k' \<in> unit_offsets w j \<Longrightarrow> k < k'"
  using mult_le_mono1 [of "Suc i" j w] by (auto simp: unit_offsets_def)

lemma unit_within: "i < n \<Longrightarrow> n * w \<le> N \<Longrightarrow> k \<in> unit_offsets w i \<Longrightarrow> k < N"
  using mult_le_mono1 [of "Suc i" n w] by (auto simp: unit_offsets_def)

lemma images_disjoint:
  assumes "unat (d :: u32) + N \<le> 2 ^ 32" "unat (s :: u32) + N \<le> 2 ^ 32"
    and "\<And>k k'. k \<in> K \<Longrightarrow> k' \<in> K' \<Longrightarrow> k < N \<and> k' < N \<and> unat d + k \<noteq> unat s + k'"
  shows "(\<lambda>k. d + of_nat k) ` K \<inter> (\<lambda>k. s + of_nat k) ` K' = {}"
proof -
  have "d + of_nat k \<noteq> s + of_nat k'" if "k \<in> K" "k' \<in> K'" for k k'
  proof -
    have "unat (d + of_nat k) = unat d + k" "unat (s + of_nat k') = unat s + k'"
      using assms(1,2) assms(3) [OF that] by (simp_all add: unat_add_of_nat)
    then show ?thesis using assms(3) [OF that] by metis
  qed
  then show ?thesis by blast
qed

text \<open>
  The order of the elements is right: forwards when the destination does not begin inside the source,
  backwards when the source does not begin after the destination.
\<close>

abbreviation (input) no_clash :: "vaddr_t \<Rightarrow> vaddr_t \<Rightarrow> nat \<Rightarrow> nat \<Rightarrow> nat \<Rightarrow> bool" where
  "no_clash d s w i j \<equiv> fst ` block d s (unit_offsets w i) \<inter> fst ` block d s (unit_offsets w j) = {} \<and>
    fst ` block d s (unit_offsets w i) \<inter> snd ` block d s (unit_offsets w j) = {}"

lemma forwards_order:
  assumes len: "unat d + n * w \<le> 2 ^ 32" "unat s + n * w \<le> 2 ^ 32" and "d \<le> s \<or> unat s + n * w \<le> unat d"
  shows "sorted_wrt (no_clash d s w) [0..<n]"
proof -
  have "no_clash d s w i j" if "i < j" "j < n" for i j
  proof -
    have k: "k < n * w \<and> k' < n * w \<and> k < k'" if "k \<in> unit_offsets w i" "k' \<in> unit_offsets w j" for k k'
      using unit_order [OF \<open>i < j\<close> that] unit_within [OF _ order_refl that(1)] unit_within [OF _ order_refl that(2)] \<open>i < j\<close> \<open>j < n\<close> by simp
    show ?thesis unfolding block_fst block_snd
      using k assms(3) by (intro conjI images_disjoint [OF len(1,1)] images_disjoint [OF len])
        (fastforce simp: word_le_nat_alt)+
  qed
  then show ?thesis by (intro sorted_wrt_mono_rel [OF _ sorted_wrt_upt]) auto
qed

lemma backwards_order:
  assumes len: "unat d + n * w \<le> 2 ^ 32" "unat s + n * w \<le> 2 ^ 32" and "s \<le> d"
  shows "sorted_wrt (no_clash d s w) (rev [0..<n])"
proof -
  have "no_clash d s w i j" if "j < i" "i < n" for i j
  proof -
    have k: "k < n * w \<and> k' < n * w \<and> k' < k" if "k \<in> unit_offsets w i" "k' \<in> unit_offsets w j" for k k'
      using unit_order [OF \<open>j < i\<close> that(2,1)] unit_within [OF _ order_refl that(1)] unit_within [OF _ order_refl that(2)] \<open>j < i\<close> \<open>i < n\<close> by simp
    show ?thesis unfolding block_fst block_snd
      using k assms(3) by (intro conjI images_disjoint [OF len(1,1)] images_disjoint [OF len])
        (fastforce simp: word_le_nat_alt)+
  qed
  then show ?thesis unfolding sorted_wrt_rev by (intro sorted_wrt_mono_rel [OF _ sorted_wrt_upt]) auto
qed

lemma fits_1 [simp]: "fits (Suc 0) va"
  by (simp add: fits_def page_offset_def Suc_leI)

lemma fits_4:
  assumes "va mod 4 = 0" and "unat va + i * 4 < 2 ^ 32"
  shows "fits 4 (va + of_nat (i * 4))"
proof -
  have "4 dvd unat va" using arg_cong [OF assms(1), of unat] by (simp add: unat_mod dvd_eq_mod_eq_0)
  then obtain q where q: "unat va = 4 * q" by blast
  have "page_offset (va + of_nat (i * 4)) = 4 * ((q + i) mod 1024)"
    unfolding page_offset_def unat_add_of_nat [OF assms(2)] q by (simp add: mult_mod_right algebra_simps)
  also have "\<dots> \<le> 4 * 1023" using mod_less_divisor [of 1024 "q + i"] by simp
  finally show ?thesis by (simp add: fits_def)
qed

lemma all_indices: "set [0..<n] = {..<n}" "set (rev [0..<n]) = {..<n}"
  by auto

lemma word_count: "(n :: u32) mod 4 = 0 \<Longrightarrow> unat (n div 4) * 4 = unat n"
  by (simp add: word_unat_eq_iff unat_mod unat_div dvd_eq_mod_eq_0 [symmetric])

section \<open>The contract of user memory\<close>

text \<open>
  An access that is completed is a step of a flat memory; one that is given up leaves everything as
  it was, and happens only while \<open>tm_badfaultfunc\<close> is set.
\<close>

locale user_pages =
  fixes acc :: "'s uaccess" and good :: "'s \<Rightarrow> bool" and view :: "'s \<Rightarrow> vaddr_t \<Rightarrow> page option"
  assumes completed: "good s \<Longrightarrow> access_addr a < USERSPACETOP \<Longrightarrow> acc bad a s = Inr (Some p, s') \<Longrightarrow>
      good s' \<and> mem_step (view s) a p (view s')"
    and given_up: "acc bad a s = Inr (None, s') \<Longrightarrow> bad \<and> s' = s"
begin

abbreviation bytes :: "'s kmachine \<Rightarrow> vaddr_t \<rightharpoonup> u8" where
  "bytes \<equiv> mbyte view"

lemma kload_ok:
  assumes good: "good (umem m)" and fits: "fits w va" and run: "kload acc w va m = Inr (Some bs, m')"
  shows "good (umem m') \<and> tm_badfaultfunc m' = tm_badfaultfunc m \<and> length bs = w \<and> keeps (bytes m) (bytes m') {} \<and>
    (\<forall>j < w. bytes m' (va + of_nat j) = Some (bs ! j))"
proof (cases "va < USERSPACETOP")
  case True
  obtain p s where a: "acc (tm_badfaultfunc m) (Load va) (umem m) = Inr (Some p, s)"
    and bs: "bs = map (\<lambda>j. p (page_offset va + j)) [0..<w]" and m': "m' = m\<lparr>umem := s\<rparr>"
    using run True by (auto simp: kload_def)
  have s: "good s" "mem_step (view (umem m)) (Load va) p (view s)" using completed [OF good _ a] True by simp_all
  then have v: "view s = (view (umem m))(va AND PAGE_FRAME \<mapsto> p)" "view (umem m) (va AND PAGE_FRAME) \<in> {None, Some p}"
    by (auto simp: mem_step_iff access_page_def)
  then show ?thesis using s(1) True in_page [OF fits] by (auto simp: m' bs mbyte_def keeps_def)
next
  case False
  then show ?thesis using run good in_page [OF fits] by (auto simp: kload_def mbyte_def)
qed

lemma kload_fault: "kload acc w va m = Inr (None, m') \<Longrightarrow> m' = m \<and> tm_badfaultfunc m"
  using given_up by (fastforce simp: kload_def split: if_splits)

lemma kstore_fault: "kstore acc va bs m = Inr (False, m') \<Longrightarrow> m' = m \<and> tm_badfaultfunc m"
  using given_up by (fastforce simp: kstore_def split: if_splits)

lemma kstore_ok:
  assumes good: "good (umem m)" and fits: "fits (length bs) va" and run: "kstore acc va bs m = Inr (True, m')"
  shows "good (umem m') \<and> tm_badfaultfunc m' = tm_badfaultfunc m \<and> keeps (bytes m) (bytes m') (span va (length bs)) \<and>
    (\<forall>j < length bs. bytes m' (va + of_nat j) = Some (bs ! j))"
proof (cases "va < USERSPACETOP")
  case True
  let ?g = "put_page (page_offset va) bs"
  obtain p s where a: "acc (tm_badfaultfunc m) (Store va ?g) (umem m) = Inr (Some p, s)" and m': "m' = m\<lparr>umem := s\<rparr>"
    using run True by (auto simp: kstore_def)
  have s: "good s" "mem_step (view (umem m)) (Store va ?g) p (view s)" using completed [OF good _ a] True by simp_all
  then have v: "view s = (view (umem m))(va AND PAGE_FRAME \<mapsto> ?g p)" "view (umem m) (va AND PAGE_FRAME) \<in> {None, Some p}"
    by (auto simp: mem_step_iff access_page_def)
  have "bytes m' x = bytes m x" if x: "x \<notin> span va (length bs)" "bytes m x \<noteq> None" for x
  proof (cases "x AND PAGE_FRAME = va AND PAGE_FRAME")
    case True
    have "\<not> (page_offset va \<le> page_offset x \<and> page_offset x < page_offset va + length bs)"
      using same_page [OF True] x(1) unfolding span_def by (metis add_less_cancel_left imageI le_add_diff_inverse lessThan_iff)
    then show ?thesis using v x(2) True by (auto simp: m' mbyte_def put_page_def)
  qed (simp add: v(1) m' mbyte_def)
  then show ?thesis using s(1) v(1) True in_page [OF fits] by (auto simp: m' mbyte_def keeps_def put_page_def)
next
  case False
  have m': "m' = m\<lparr>kmem := put_mem va bs (kmem m)\<rparr>" using run False by (simp add: kstore_def)
  have "put_mem va bs (kmem m) x = kmem m x" if "x \<notin> span va (length bs)" for x
  proof -
    have "x = va + of_nat (unat (x - va))" by simp
    then show ?thesis using that unfolding span_def put_mem_def by (metis imageI lessThan_iff)
  qed
  moreover have "length bs < 2 ^ 32" using fits by (simp add: fits_def)
  then have "put_mem va bs (kmem m) (va + of_nat j) = bs ! j" if "j < length bs" for j
    using that by (simp add: put_mem_def unat_of_nat)
  ultimately show ?thesis using good False in_page [OF fits] by (auto simp: m' mbyte_def keeps_def)
qed

lemma copy_unit_ok:
  assumes good: "good (umem m)" and fits: "fits w sa" "fits w da"
    and load: "kload acc w sa m = Inr (Some bs, m1)" and store: "kstore acc da bs m1 = Inr (True, m2)"
  shows "good (umem m2) \<and> tm_badfaultfunc m2 = tm_badfaultfunc m \<and>
    moved (bytes m) (bytes m2) ((\<lambda>j. (da + of_nat j, sa + of_nat j)) ` {..<w})"
proof -
  have l: "good (umem m1)" "tm_badfaultfunc m1 = tm_badfaultfunc m" "length bs = w" "keeps (bytes m) (bytes m1) {}"
    "\<forall>j < w. bytes m1 (sa + of_nat j) = Some (bs ! j)" using kload_ok [OF good fits(1) load] by auto
  have st: "good (umem m2)" "tm_badfaultfunc m2 = tm_badfaultfunc m1" "keeps (bytes m1) (bytes m2) (span da w)"
    "\<forall>j < w. bytes m2 (da + of_nat j) = Some (bs ! j)"
    using kstore_ok [OF l(1) fits(2) [folded l(3)] store] l(3) by auto
  have f: "fst ` (\<lambda>j. (da + of_nat j, sa + of_nat j)) ` {..<w} = span da w" by (simp add: span_def image_image)
  have "moved (bytes m) (bytes m2) ((\<lambda>j. (da + of_nat j, sa + of_nat j)) ` {..<w})"
  proof (rule movedI, unfold f)
    show "keeps (bytes m) (bytes m2) (span da w)" using keeps_trans [OF l(4) st(3)] by simp
    fix d s assume "(d, s) \<in> (\<lambda>j. (da + of_nat j, sa + of_nat j)) ` {..<w}"
    then obtain j where j: "j < w" "d = da + of_nat j" "s = sa + of_nat j" by blast
    then have "bytes m2 d = Some (bs ! j)" "bytes m1 s = Some (bs ! j)" using l(5) st(4) by simp_all
    then show "\<exists>x. bytes m2 d = Some x \<and> (\<forall>y. bytes m s = Some y \<longrightarrow> y = x) \<and> (s \<notin> span da w \<longrightarrow> bytes m2 s = Some x)"
      using keepsD [OF l(4)] keepsD [OF st(3)] by fastforce
  qed
  then show ?thesis using st l by simp
qed

text \<open>
  The copying loops: no element may be written before it has been read, or twice. A loop that is given
  up has changed only bytes of the destination.
\<close>

lemma copy_units_ok:
  assumes "good (umem m)" and "\<forall>i \<in> set is. fits w (s + of_nat (i * w)) \<and> fits w (d + of_nat (i * w))"
    and "sorted_wrt (\<lambda>i j. fst ` block d s (unit_offsets w i) \<inter> fst ` block d s (unit_offsets w j) = {} \<and>
      fst ` block d s (unit_offsets w i) \<inter> snd ` block d s (unit_offsets w j) = {}) is"
    and "copy_units acc w d s is m = Inr (ok, m')"
  shows "good (umem m') \<and> tm_badfaultfunc m' = tm_badfaultfunc m \<and>
    (if ok then moved (bytes m) (bytes m') (\<Union>i \<in> set is. block d s (unit_offsets w i))
     else tm_badfaultfunc m \<and> keeps (bytes m) (bytes m') (\<Union>i \<in> set is. fst ` block d s (unit_offsets w i)))"
  using assms
proof (induction "is" arbitrary: m)
  case Nil
  then show ?case by (simp add: moved_empty)
next
  case (Cons i "is")
  let ?U = "\<lambda>i. block d s (unit_offsets w i)"
  obtain v m1 where load: "kload acc w (s + of_nat (i * w)) m = Inr (v, m1)" using Cons.prems(4) by auto
  show ?case
  proof (cases v)
    case None
    then show ?thesis using Cons.prems(1,4) load kload_fault [OF load [unfolded None]] by auto
  next
    case (Some bs)
    obtain st m2 where store: "kstore acc (d + of_nat (i * w)) bs m1 = Inr (st, m2)" using Cons.prems(4) load Some by auto
    have l: "good (umem m1)" "tm_badfaultfunc m1 = tm_badfaultfunc m" "keeps (bytes m) (bytes m1) {}"
      using kload_ok [OF Cons.prems(1) _ load [unfolded Some]] Cons.prems(2) by auto
    show ?thesis
    proof (cases st)
      case False
      then show ?thesis using Cons.prems(4) load Some store l kstore_fault [of "d + of_nat (i * w)" bs m1 m2] keeps_mono [OF l(3)] by auto
    next
      case True
      have store: "kstore acc (d + of_nat (i * w)) bs m1 = Inr (True, m2)" using store True by simp
      have u: "good (umem m2)" "tm_badfaultfunc m2 = tm_badfaultfunc m" "moved (bytes m) (bytes m2) (?U i)"
        using copy_unit_ok [OF Cons.prems(1) _ _ load [unfolded Some] store] Cons.prems(2)
        by (auto simp: unit_block)
      have rest: "copy_units acc w d s is m2 = Inr (ok, m')" using Cons.prems(4) load Some store True by simp
      note IH = Cons.IH [OF u(1) _ _ rest]
      have dis: "fst ` ?U i \<inter> fst ` (\<Union>i \<in> set is. ?U i) = {}" "fst ` ?U i \<inter> snd ` (\<Union>i \<in> set is. ?U i) = {}"
        using Cons.prems(3) by (simp_all add: image_UN) blast+
      show ?thesis using IH Cons.prems(2,3) u moved_trans [OF u(3) _ dis] keeps_trans [OF moved_keeps [OF u(3)]] by (auto split: if_splits)
    qed
  qed
qed

lemma fill_units_ok:
  assumes "good (umem m)" and "\<forall>i \<in> set is. fits (length bs) (d + of_nat (i * length bs))" and "bs = replicate w b"
    and "fill_units acc d bs is m = Inr (ok, m')"
  shows "good (umem m') \<and> tm_badfaultfunc m' = tm_badfaultfunc m \<and>
    keeps (bytes m) (bytes m') (\<Union>i \<in> set is. span (d + of_nat (i * w)) w) \<and>
    (if ok then \<forall>i \<in> set is. \<forall>x \<in> span (d + of_nat (i * w)) w. bytes m' x = Some b else tm_badfaultfunc m)"
  using assms
proof (induction "is" arbitrary: m)
  case (Cons i "is")
  let ?S = "\<lambda>i. span (d + of_nat (i * w)) w"
  have w: "length bs = w" using Cons.prems(3) by simp
  obtain st m1 where store: "kstore acc (d + of_nat (i * w)) bs m = Inr (st, m1)" using Cons.prems(4) w by auto
  show ?case
  proof (cases st)
    case False
    then show ?thesis using Cons.prems(1,4) store w kstore_fault [of "d + of_nat (i * w)" bs m m1] by auto
  next
    case True
    have "\<forall>j < w. bs ! j = b" using Cons.prems(3) by simp
    then have u: "good (umem m1)" "tm_badfaultfunc m1 = tm_badfaultfunc m" "keeps (bytes m) (bytes m1) (?S i)"
      "\<forall>x \<in> ?S i. bytes m1 x = Some b"
      using kstore_ok [of m bs "d + of_nat (i * w)" m1] Cons.prems(1,2) w store True by (auto simp: span_def)
    have rest: "fill_units acc d bs is m1 = Inr (ok, m')" using Cons.prems(4) store w True by simp
    note IH = Cons.IH [OF u(1) _ Cons.prems(3) rest]
    have "bytes m' x = Some b" if "x \<in> ?S i" ok for x
      using IH that u(4) Cons.prems(2) keepsD [of "bytes m1" "bytes m'" _ x b] by (cases "x \<in> (\<Union>i \<in> set is. ?S i)") auto
    then show ?thesis using IH Cons.prems(2) u keeps_trans [OF u(3)] by auto
  qed
qed simp

lemma fill_block:
  assumes good: "good (umem m)" and len: "unat d + n * w \<le> 2 ^ 32" and w: "w = 1 \<or> w = 4 \<and> d mod 4 = 0"
    and run: "fill_units acc d (replicate w b) [0..<n] m = Inr (ok, m')"
  shows "good (umem m') \<and> tm_badfaultfunc m' = tm_badfaultfunc m \<and> keeps (bytes m) (bytes m') (span d (n * w)) \<and>
    (if ok then \<forall>x \<in> span d (n * w). bytes m' x = Some b else tm_badfaultfunc m)"
proof -
  have "fits w (d + of_nat (i * w))" if "i < n" for i
    using w
  proof
    assume "w = 4 \<and> d mod 4 = 0"
    then show ?thesis using fits_4 [of d i] len that by simp
  qed simp
  then show ?thesis using fill_units_ok [OF good _ refl run] unfolding span_units [symmetric] all_indices(1)
    by (cases ok) simp_all
qed

lemma bzero_ok:
  assumes good: "good (umem m)" and len: "unat d + unat n \<le> 2 ^ 32" and run: "bzero acc d n m = Inr (ok, m')"
  shows "good (umem m') \<and> tm_badfaultfunc m' = tm_badfaultfunc m \<and> keeps (bytes m) (bytes m') (span d (unat n)) \<and>
    (if ok then \<forall>x \<in> span d (unat n). bytes m' x = Some 0 else tm_badfaultfunc m)"
proof (cases "d mod 4 = 0 \<and> n mod 4 = 0")
  case True
  then have n: "unat (n div 4) * 4 = unat n" using word_count by simp
  have "fill_units acc d (replicate 4 0) [0..<unat (n div 4)] m = Inr (ok, m')"
    using True run by (simp add: bzero_def numeral_eq_Suc)
  from fill_block [OF good _ _ this, unfolded n, OF len] show ?thesis using True by blast
next
  case False
  then have "fill_units acc d (replicate 1 0) [0..<unat n] m = Inr (ok, m')" using run by (auto simp: bzero_def)
  from fill_block [OF good _ _ this, unfolded mult_1_right, OF len] show ?thesis by blast
qed

lemma memset_ok:
  assumes good: "good (umem m)" and len: "unat d + unat n \<le> 2 ^ 32" and run: "memset acc d ch n m = Inr (ok, m')"
  shows "good (umem m') \<and> tm_badfaultfunc m' = tm_badfaultfunc m \<and> keeps (bytes m) (bytes m') (span d (unat n)) \<and>
    (if ok then \<forall>x \<in> span d (unat n). bytes m' x = Some (ucast ch) else tm_badfaultfunc m)"
proof -
  have "fill_units acc d (replicate 1 (ucast ch)) [0..<unat n] m = Inr (ok, m')" using run by (simp add: memset_def)
  from fill_block [OF good _ _ this, unfolded mult_1_right, OF len] show ?thesis by blast
qed

text \<open>\<open>memcpy\<close> when the destination does not begin inside the source, and \<open>memmove\<close> for all blocks.\<close>

lemma copy_block:
  assumes good: "good (umem m)" and len: "unat d + n * w \<le> 2 ^ 32" "unat s + n * w \<le> 2 ^ 32"
    and w: "w = 1 \<or> w = 4 \<and> d mod 4 = 0 \<and> s mod 4 = 0"
    and "set is = {..<n}" and "sorted_wrt (no_clash d s w) is" and "copy_units acc w d s is m = Inr (ok, m')"
  shows "good (umem m') \<and> tm_badfaultfunc m' = tm_badfaultfunc m \<and>
    (if ok then moved (bytes m) (bytes m') (block d s {..<n * w}) else tm_badfaultfunc m \<and> keeps (bytes m) (bytes m') (span d (n * w)))"
proof -
  have "fits w (s + of_nat (i * w)) \<and> fits w (d + of_nat (i * w))" if "i < n" for i
    using w
  proof
    assume "w = 4 \<and> d mod 4 = 0 \<and> s mod 4 = 0"
    then show ?thesis using fits_4 [of d i] fits_4 [of s i] len that by simp
  qed simp
  then show ?thesis using copy_units_ok [OF good _ assms(6,7)] assms(5)
    unfolding block_UN image_UN [symmetric] by (cases ok) (simp_all add: units_all block_fst span_def)
qed

lemma memcpy_ok:
  assumes good: "good (umem m)" and len: "unat d + unat n \<le> 2 ^ 32" "unat s + unat n \<le> 2 ^ 32"
    and order: "d \<le> s \<or> unat s + unat n \<le> unat d" and run: "memcpy acc d s n m = Inr (ok, m')"
  shows "good (umem m') \<and> tm_badfaultfunc m' = tm_badfaultfunc m \<and>
    (if ok then moved (bytes m) (bytes m') (block d s {..<unat n}) else tm_badfaultfunc m \<and> keeps (bytes m) (bytes m') (span d (unat n)))"
proof (cases "word_copy d s n")
  case True
  then have w: "4 = 1 \<or> 4 = (4 :: nat) \<and> d mod 4 = 0 \<and> s mod 4 = 0" "unat (n div 4) * 4 = unat n"
    using word_count by (auto simp: word_copy_def)
  have c: "copy_units acc 4 d s [0..<unat (n div 4)] m = Inr (ok, m')" using True run by (simp add: memcpy_def)
  have "sorted_wrt (no_clash d s 4) [0..<unat (n div 4)]" using len order by (intro forwards_order) (simp_all add: w)
  then show ?thesis using copy_block [OF good _ _ w(1) all_indices(1) _ c, unfolded w(2), OF len] by blast
next
  case False
  then have c: "copy_units acc 1 d s [0..<unat n] m = Inr (ok, m')" using run by (simp add: memcpy_def)
  have "sorted_wrt (no_clash d s 1) [0..<unat n]" using len order by (intro forwards_order) simp_all
  then show ?thesis using copy_block [OF good _ _ _ all_indices(1) _ c, unfolded mult_1_right, OF len] by blast
qed

lemma memmove_ok:
  assumes good: "good (umem m)" and len: "unat d + unat n \<le> 2 ^ 32" "unat s + unat n \<le> 2 ^ 32"
    and run: "memmove acc d s n m = Inr (ok, m')"
  shows "good (umem m') \<and> tm_badfaultfunc m' = tm_badfaultfunc m \<and>
    (if ok then moved (bytes m) (bytes m') (block d s {..<unat n}) else tm_badfaultfunc m \<and> keeps (bytes m) (bytes m') (span d (unat n)))"
proof -
  consider "d < s" | "\<not> d < s" "word_copy d s n" | "\<not> d < s" "\<not> word_copy d s n" by blast
  then show ?thesis
  proof cases
    case 1
    then have "memcpy acc d s n m = Inr (ok, m')" using run by (simp add: memmove_def)
    then show ?thesis by (rule memcpy_ok [OF good len disjI1 [OF less_imp_le [OF 1]]])
  next
    case 2
    then have w: "4 = 1 \<or> 4 = (4 :: nat) \<and> d mod 4 = 0 \<and> s mod 4 = 0" "unat (n div 4) * 4 = unat n"
      using word_count by (auto simp: word_copy_def)
    have c: "copy_units acc 4 d s (rev [0..<unat (n div 4)]) m = Inr (ok, m')" using 2 run by (simp add: memmove_def)
    have "sorted_wrt (no_clash d s 4) (rev [0..<unat (n div 4)])" using len 2 by (intro backwards_order) (simp_all add: w)
    then show ?thesis using copy_block [OF good _ _ w(1) all_indices(2) _ c, unfolded w(2), OF len] by blast
  next
    case 3
    then have c: "copy_units acc 1 d s (rev [0..<unat n]) m = Inr (ok, m')" using run by (simp add: memmove_def)
    have "sorted_wrt (no_clash d s 1) (rev [0..<unat n])" using len 3 by (intro backwards_order) simp_all
    then show ?thesis using copy_block [OF good _ _ _ all_indices(2) _ c, unfolded mult_1_right, OF len] by blast
  qed
qed

end

text \<open>
  The part of the contract that lets a copy come back: a page that is \<open>ready\<close> can be accessed, an
  access to an address that is \<open>denied\<close> is given up, and neither changes which is which.
\<close>

locale live_user_pages = user_pages acc good view for acc :: "'s uaccess" and good view +
  fixes ready denied :: "'s \<Rightarrow> vaddr_t \<Rightarrow> bool"
  assumes ready: "access_addr a < USERSPACETOP \<Longrightarrow> ready s (access_page a) \<Longrightarrow>
      \<exists>p s'. acc bad a s = Inr (Some p, s') \<and> ready s' = ready s \<and> denied s' = denied s"
    and denied: "access_addr a < USERSPACETOP \<Longrightarrow> denied s (access_addr a) \<Longrightarrow> acc True a s = Inr (None, s)"
    and exclusive: "ready s (va AND PAGE_FRAME) \<Longrightarrow> \<not> denied s va"
begin

abbreviation usable :: "'s kmachine \<Rightarrow> vaddr_t \<Rightarrow> bool" where
  "usable m va \<equiv> USERSPACETOP \<le> va \<or> ready (umem m) (va AND PAGE_FRAME)"

abbreviation refused :: "'s kmachine \<Rightarrow> vaddr_t \<Rightarrow> bool" where
  "refused m va \<equiv> va < USERSPACETOP \<and> denied (umem m) va"

abbreviation same :: "'s kmachine \<Rightarrow> 's kmachine \<Rightarrow> bool" where
  "same m m' \<equiv> ready (umem m') = ready (umem m) \<and> denied (umem m') = denied (umem m) \<and> tm_badfaultfunc m' = tm_badfaultfunc m"

lemma kload_usable: "usable m va \<Longrightarrow> \<exists>bs m'. kload acc w va m = Inr (Some bs, m') \<and> same m m'"
  using ready [of "Load va" "umem m" "tm_badfaultfunc m"] by (fastforce simp: kload_def access_page_def)

lemma kstore_usable: "usable m va \<Longrightarrow> \<exists>m'. kstore acc va bs m = Inr (True, m') \<and> same m m'"
  using ready [of "Store va (put_page (page_offset va) bs)" "umem m" "tm_badfaultfunc m"]
  by (fastforce simp: kstore_def access_page_def)

lemma refused_access:
  assumes "refused m va" and "tm_badfaultfunc m"
  shows "kload acc w va m = Inr (None, m)" "kstore acc va bs m = Inr (False, m)"
  using assms denied [of "Load va" "umem m"] denied [of "Store va (put_page (page_offset va) bs)" "umem m"]
  by (simp_all add: kload_def kstore_def)

lemma not_both: "usable m va \<Longrightarrow> \<not> refused m va"
  using exclusive by auto

lemma copy_units_usable:
  assumes "\<forall>i \<in> set ns. usable m (s + of_nat (i * w)) \<and> usable m (d + of_nat (i * w))"
  shows "\<exists>m'. copy_units acc w d s ns m = Inr (True, m') \<and> same m m'"
  using assms
proof (induction ns arbitrary: m)
  case (Cons i ns)
  obtain bs m1 where l: "kload acc w (s + of_nat (i * w)) m = Inr (Some bs, m1)" "same m m1"
    using kload_usable [where m = m and va = "s + of_nat (i * w)" and w = w] Cons.prems by auto
  then obtain m2 where st: "kstore acc (d + of_nat (i * w)) bs m1 = Inr (True, m2)" "same m1 m2"
    using kstore_usable [where m = m1 and va = "d + of_nat (i * w)" and bs = bs] Cons.prems by auto
  have "\<exists>m'. copy_units acc w d s ns m2 = Inr (True, m') \<and> same m2 m'"
    using Cons.prems l(2) st(2) by (intro Cons.IH) simp
  then show ?case using l st by auto
qed simp

lemma copy_units_refused:
  assumes "tm_badfaultfunc m" and "\<forall>i \<in> set ns. (usable m (s + of_nat (i * w)) \<or> refused m (s + of_nat (i * w))) \<and>
      (usable m (d + of_nat (i * w)) \<or> refused m (d + of_nat (i * w)))"
    and "\<exists>i \<in> set ns. refused m (s + of_nat (i * w)) \<or> refused m (d + of_nat (i * w))"
  shows "\<exists>m'. copy_units acc w d s ns m = Inr (False, m') \<and> same m m'"
  using assms
proof (induction ns arbitrary: m)
  case (Cons i ns)
  let ?s = "s + of_nat (i * w)" and ?d = "d + of_nat (i * w)"
  show ?case
  proof (cases "refused m ?s")
    case True
    then show ?thesis using refused_access(1) [OF _ Cons.prems(1)] by simp
  next
    case False
    then obtain bs m1 where l: "kload acc w ?s m = Inr (Some bs, m1)" "same m m1"
      using kload_usable [where m = m and va = ?s and w = w] Cons.prems(2) by auto
    show ?thesis
    proof (cases "refused m ?d")
      case True
      then show ?thesis using refused_access(2) [where m = m1 and va = ?d and bs = bs] Cons.prems(1) l by simp
    next
      case nd: False
      then obtain m2 where st: "kstore acc ?d bs m1 = Inr (True, m2)" "same m1 m2"
        using kstore_usable [where m = m1 and va = ?d and bs = bs] Cons.prems(2) l(2) by auto
      have "\<exists>m'. copy_units acc w d s ns m2 = Inr (False, m') \<and> same m2 m'"
        using Cons.prems l(2) st(2) False nd by (intro Cons.IH) auto
      then show ?thesis using l st by auto
    qed
  qed
qed simp

lemma copy_usable:
  assumes all: "\<forall>k < unat n. usable m (s + of_nat k) \<and> usable m (d + of_nat k)"
  shows "word_copy d s n \<Longrightarrow> set ns = {..<unat (n div 4)} \<Longrightarrow> \<exists>m'. copy_units acc 4 d s ns m = Inr (True, m') \<and> same m m'"
    "set ns = {..<unat n} \<Longrightarrow> \<exists>m'. copy_units acc 1 d s ns m = Inr (True, m') \<and> same m m'"
proof -
  assume w: "word_copy d s n" and ns: "set ns = {..<unat (n div 4)}"
  show "\<exists>m'. copy_units acc 4 d s ns m = Inr (True, m') \<and> same m m'"
  proof (rule copy_units_usable, rule ballI)
    fix i assume "i \<in> set ns"
    then have "i * 4 < unat n" using w ns word_count [of n] by (simp add: word_copy_def)
    then show "usable m (s + of_nat (i * 4)) \<and> usable m (d + of_nat (i * 4))" using all by blast
  qed
next
  assume "set ns = {..<unat n}"
  then show "\<exists>m'. copy_units acc 1 d s ns m = Inr (True, m') \<and> same m m'" using all by (intro copy_units_usable) simp
qed

lemma memcpy_usable:
  assumes "\<forall>k < unat n. usable m (s + of_nat k) \<and> usable m (d + of_nat k)"
  shows "\<exists>m'. memcpy acc d s n m = Inr (True, m') \<and> same m m'"
  using copy_usable(1) [OF assms _ all_indices(1)] copy_usable(2) [OF assms all_indices(1)] by (simp add: memcpy_def)

lemma memmove_usable:
  assumes "\<forall>k < unat n. usable m (s + of_nat k) \<and> usable m (d + of_nat k)"
  shows "\<exists>m'. memmove acc d s n m = Inr (True, m') \<and> same m m'"
  using copy_usable(1) [OF assms _ all_indices(2)] copy_usable(2) [OF assms all_indices(2)] memcpy_usable [OF assms]
  by (simp add: memmove_def)

lemma refused_in_unit:
  assumes "fits w va" and "j < w" and "refused m (va + of_nat j)" and "usable m va \<or> refused m va"
  shows "refused m va"
  using assms(3,4) in_page(2,4) [OF assms(1,2)] exclusive [of "umem m" "va + of_nat j"] by auto

lemma memcpy_refused:
  assumes bad: "tm_badfaultfunc m" and len: "unat d + unat n \<le> 2 ^ 32" "unat s + unat n \<le> 2 ^ 32"
    and all: "\<forall>k < unat n. (usable m (s + of_nat k) \<or> refused m (s + of_nat k)) \<and> (usable m (d + of_nat k) \<or> refused m (d + of_nat k))"
    and k: "k < unat n" "refused m (s + of_nat k) \<or> refused m (d + of_nat k)"
  shows "\<exists>m'. memcpy acc d s n m = Inr (False, m') \<and> same m m'"
proof (cases "word_copy d s n")
  case True
  then have w: "unat (n div 4) * 4 = unat n" "d mod 4 = 0" "s mod 4 = 0" using word_count by (auto simp: word_copy_def)
  define i where "i = k div 4"
  have i: "i < unat (n div 4)" "i * 4 + k mod 4 = k" "i * 4 < unat n" using k(1) w(1) by (simp_all add: i_def)
  have "fits 4 (s + of_nat (i * 4))" "fits 4 (d + of_nat (i * 4))" using fits_4 [OF w(3)] fits_4 [OF w(2)] len i(3) by simp_all
  then have "refused m (s + of_nat (i * 4)) \<or> refused m (d + of_nat (i * 4))"
    using refused_in_unit [where w = 4 and va = "s + of_nat (i * 4)" and j = "k mod 4" and m = m]
      refused_in_unit [where w = 4 and va = "d + of_nat (i * 4)" and j = "k mod 4" and m = m] k(2) all i(3)
    by (simp only: add.assoc of_nat_add [symmetric] i(2) mod_less_divisor zero_less_numeral simp_thms) blast
  then have ex: "\<exists>i \<in> set [0..<unat (n div 4)]. refused m (s + of_nat (i * 4)) \<or> refused m (d + of_nat (i * 4))" using i(1) by auto
  have "\<forall>i \<in> set [0..<unat (n div 4)]. (usable m (s + of_nat (i * 4)) \<or> refused m (s + of_nat (i * 4))) \<and>
      (usable m (d + of_nat (i * 4)) \<or> refused m (d + of_nat (i * 4)))"
  proof
    fix j assume "j \<in> set [0..<unat (n div 4)]"
    then have "j * 4 < unat n" using w(1) by simp
    then show "(usable m (s + of_nat (j * 4)) \<or> refused m (s + of_nat (j * 4))) \<and>
      (usable m (d + of_nat (j * 4)) \<or> refused m (d + of_nat (j * 4)))" using all by blast
  qed
  from copy_units_refused [OF bad this ex] show ?thesis using True by (simp add: memcpy_def)
next
  case False
  have "\<exists>i \<in> set [0..<unat n]. refused m (s + of_nat (i * 1)) \<or> refused m (d + of_nat (i * 1))" using k by auto
  with copy_units_refused [OF bad, where ns = "[0..<unat n]" and w = 1 and s = s and d = d] all show ?thesis
    using False by (simp add: memcpy_def)
qed

end

section \<open>The virtual memory system provides the contract\<close>

definition vm_ready :: "kheap \<times> ('v, 'p) vm \<Rightarrow> vaddr_t \<Rightarrow> bool" where
  "vm_ready = (\<lambda>(h, s) page. tlb_translate (tlb s) page \<noteq> None)"

definition vm_denied :: "kheap \<times> ('v, 'p) vm \<Rightarrow> vaddr_t \<Rightarrow> bool" where
  "vm_denied = (\<lambda>(h, s) va. tlb_translate (tlb s) (va AND PAGE_FRAME) = None \<and>
     (case proc_getas s of
        None \<Rightarrow> True
      | Some as \<Rightarrow> pt_ptr (as_pt as) \<noteq> 0 \<and> start_region as \<noteq> [] \<and> \<not> fault_valid as va))"

lemma vm_fault_error: "vm_fault ops ft va h s = Inr (err, h', s') \<Longrightarrow> err \<noteq> 0 \<Longrightarrow> h' = h \<and> s' = s"
  by (auto simp: vm_fault_def Let_def split: if_splits option.splits)

lemma trap_fault_copyfail:
  assumes "trap_fault ops code True (if bad then Some epc else None) va h s = Inr (Some e, h', s')"
  shows "bad \<and> h' = h \<and> s' = s"
proof -
  have "h1 = h \<and> s1 = s" if "vm_fault ops ft va h s = Inr (err, h1, s1)" "err \<noteq> 0" for ft err h1 s1
    using vm_fault_error that by blast
  then show ?thesis using assms by (fastforce simp: trap_fault_def split: if_splits)
qed

lemma kernel_access_given_up:
  assumes "kernel_access ops copyfail bad a x = Inr (None, x')"
  shows "bad \<and> x' = x"
  using assms trap_fault_copyfail [of ops "trap_code a" bad copyfail "access_addr a" "fst x" "snd x"]
  by (cases x) (fastforce simp: kernel_access_def kernel_translate_def Let_def split: option.splits if_splits)

text \<open>A completed access of the kernel is the access the user program would have made.\<close>

lemma kernel_access_user:
  assumes "kernel_access ops copyfail bad a x = Inr (Some p, x')"
  shows "user_access ops a x = Inr (p, x')"
proof -
  have "trap_fault ops (trap_code a) False None (access_addr a) h s = Inr (None, h1, s1)"
    if "trap_fault ops (trap_code a) True b (access_addr a) h s = Inr (None, h1, s1)" for b h s h1 s1
    using that by (auto simp: trap_fault_def split: if_splits option.splits)
  then show ?thesis using assms
    by (cases x) (fastforce simp: kernel_access_def user_access_def kernel_translate_def user_translate_def Let_def split: option.splits if_splits)
qed

interpretation vmu: live_user_pages "kernel_access ops copyfail" "vm_good ops stored" "vm_view stored" vm_ready vm_denied
  for ops :: "('v, page) vnode_ops" and copyfail stored
proof
  fix s s' :: "kheap \<times> ('v, page) vm" and a bad p
  assume "vm_good ops stored s" "access_addr a < USERSPACETOP" "kernel_access ops copyfail bad a s = Inr (Some p, s')"
  then show "vm_good ops stored s' \<and> mem_step (vm_view stored s) a p (vm_view stored s')"
    using vmm.simulates kernel_access_user by (metis user_access_ok_def)
next
  fix s s' :: "kheap \<times> ('v, page) vm" and a bad
  assume "kernel_access ops copyfail bad a s = Inr (None, s')"
  then show "bad \<and> s' = s" by (rule kernel_access_given_up)
next
  fix s :: "kheap \<times> ('v, page) vm" and a :: "page access" and bad
  assume "vm_ready s (access_page a)"
  then show "\<exists>p s'. kernel_access ops copyfail bad a s = Inr (Some p, s') \<and> vm_ready s' = vm_ready s \<and> vm_denied s' = vm_denied s"
    by (cases s) (auto simp: vm_ready_def vm_denied_def kernel_access_def kernel_translate_def Let_def proc_getas_def fun_eq_iff)
next
  fix s :: "kheap \<times> ('v, page) vm" and a :: "page access"
  assume "vm_denied s (access_addr a)"
  then show "kernel_access ops copyfail True a s = Inr (None, s)"
    by (cases s; cases a) (auto simp: vm_denied_def kernel_access_def kernel_translate_def trap_fault_def trap_code_def vm_fault_def
        access_page_def Let_def proc_getas_def kassert_If split: option.splits)
next
  fix s :: "kheap \<times> ('v, page) vm" and va
  show "vm_ready s (va AND PAGE_FRAME) \<Longrightarrow> \<not> vm_denied s va" by (cases s) (auto simp: vm_ready_def vm_denied_def)
qed

end
