(* ===== verification/CopyInOut.thy ===== *)
theory CopyInOut
  imports KernelMemory
begin

text \<open>
  Copying between the kernel and the user program: \<open>kern/vm/copyinout.c\<close>. Over the contract of
  user memory each copy is shown to move exactly the bytes asked for or to report the error, to touch
  nothing else, and to come back when the pages are ready or the addresses are refused.
\<close>

section \<open>The code\<close>

definition copycheck :: "vaddr_t \<Rightarrow> size_t \<Rightarrow> int \<times> size_t" where
  "copycheck userptr len =
     (let bot = userptr; top = bot + len - 1 in
      if top < bot then (EFAULT, len)
      else if bot \<ge> USERSPACETOP then (EFAULT, len)
      else if top \<ge> USERSPACETOP then (0, USERSPACETOP - bot)
      else (0, len))"

text \<open>The result of \<open>setjmp\<close>: a copy that was given up comes back through \<open>copyfail\<close>.\<close>

definition copyin :: "'s uaccess \<Rightarrow> vaddr_t \<Rightarrow> vaddr_t \<Rightarrow> size_t \<Rightarrow> 's kmachine \<Rightarrow> (int \<times> 's kmachine) res" where
  "copyin acc usersrc dest len m =
     (let (result, stoplen) = copycheck usersrc len in
      if result \<noteq> 0 then Inr (result, m)
      else if stoplen \<noteq> len then Inr (EFAULT, m)
      else
        kbind (memcpy acc dest usersrc len (m\<lparr>tm_badfaultfunc := True\<rparr>)) (\<lambda>(ok, m1).
        Inr (if ok then 0 else EFAULT, m1\<lparr>tm_badfaultfunc := False\<rparr>)))"

definition copyout :: "'s uaccess \<Rightarrow> vaddr_t \<Rightarrow> vaddr_t \<Rightarrow> size_t \<Rightarrow> 's kmachine \<Rightarrow> (int \<times> 's kmachine) res" where
  "copyout acc src userdest len m =
     (let (result, stoplen) = copycheck userdest len in
      if result \<noteq> 0 then Inr (result, m)
      else if stoplen \<noteq> len then Inr (EFAULT, m)
      else
        kbind (memcpy acc userdest src len (m\<lparr>tm_badfaultfunc := True\<rparr>)) (\<lambda>(ok, m1).
        Inr (if ok then 0 else EFAULT, m1\<lparr>tm_badfaultfunc := False\<rparr>)))"

text \<open>
  The loop of \<open>copystr\<close> from index \<open>i\<close> with \<open>n\<close> more to go; it reads \<open>src[i]\<close> twice. \<open>None\<close> when a fault has
  ended it, otherwise the index of the terminator if there was one.
\<close>

fun copystr_loop ::
  "'s uaccess \<Rightarrow> vaddr_t \<Rightarrow> vaddr_t \<Rightarrow> nat \<Rightarrow> nat \<Rightarrow> 's kmachine \<Rightarrow> (nat option option \<times> 's kmachine) res" where
  "copystr_loop acc dest src 0 i m = Inr (Some None, m)"
| "copystr_loop acc dest src (Suc n) i m =
     kbind (kload acc 1 (src + of_nat i) m) (\<lambda>(v, m1).
     case v of
       None \<Rightarrow> Inr (None, m1)
     | Some bs \<Rightarrow>
         kbind (kstore acc (dest + of_nat i) bs m1) (\<lambda>(ok, m2).
         if \<not> ok then Inr (None, m2)
         else
           kbind (kload acc 1 (src + of_nat i) m2) (\<lambda>(v2, m3).
           case v2 of
             None \<Rightarrow> Inr (None, m3)
           | Some cs \<Rightarrow>
               if hd cs = 0 then Inr (Some (Some i), m3)
               else copystr_loop acc dest src n (i + 1) m3)))"

text \<open>The result and the length stored through \<open>gotlen\<close>; \<open>None\<close> when a fault has ended the copy.\<close>

definition copystr ::
  "'s uaccess \<Rightarrow> vaddr_t \<Rightarrow> vaddr_t \<Rightarrow> size_t \<Rightarrow> size_t \<Rightarrow> 's kmachine \<Rightarrow> ((int \<times> size_t option) option \<times> 's kmachine) res" where
  "copystr acc dest src maxlen stoplen m =
     kbind (copystr_loop acc dest src (min (unat maxlen) (unat stoplen)) 0 m) (\<lambda>(r, m1).
     Inr (case r of
            None \<Rightarrow> None
          | Some (Some i) \<Rightarrow> Some (0, Some (of_nat i + 1))
          | Some None \<Rightarrow> Some (if stoplen < maxlen then EFAULT else ENAMETOOLONG, None), m1))"

definition copyinstr ::
  "'s uaccess \<Rightarrow> vaddr_t \<Rightarrow> vaddr_t \<Rightarrow> size_t \<Rightarrow> 's kmachine \<Rightarrow> (int \<times> size_t option \<times> 's kmachine) res" where
  "copyinstr acc usersrc dest len m =
     (let (result, stoplen) = copycheck usersrc len in
      if result \<noteq> 0 then Inr (result, None, m)
      else
        kbind (copystr acc dest usersrc len stoplen (m\<lparr>tm_badfaultfunc := True\<rparr>)) (\<lambda>(r, m1).
        case r of
          None \<Rightarrow> Inr (EFAULT, None, m1\<lparr>tm_badfaultfunc := False\<rparr>)
        | Some (result, actual) \<Rightarrow> Inr (result, actual, m1\<lparr>tm_badfaultfunc := False\<rparr>)))"

definition copyoutstr ::
  "'s uaccess \<Rightarrow> vaddr_t \<Rightarrow> vaddr_t \<Rightarrow> size_t \<Rightarrow> 's kmachine \<Rightarrow> (int \<times> size_t option \<times> 's kmachine) res" where
  "copyoutstr acc src userdest len m =
     (let (result, stoplen) = copycheck userdest len in
      if result \<noteq> 0 then Inr (result, None, m)
      else
        kbind (copystr acc userdest src len stoplen (m\<lparr>tm_badfaultfunc := True\<rparr>)) (\<lambda>(r, m1).
        case r of
          None \<Rightarrow> Inr (EFAULT, None, m1\<lparr>tm_badfaultfunc := False\<rparr>)
        | Some (result, actual) \<Rightarrow> Inr (result, actual, m1\<lparr>tm_badfaultfunc := False\<rparr>)))"

section \<open>The check of the addresses\<close>

lemma unat32_less: "unat (x :: u32) < 2 ^ 32"
  using unsigned_less [of x] by simp

text \<open>
  A block of at least one byte is accepted when it begins in user space and does not wrap around, and
  is cut at the end of user space. A block of no bytes is refused, at any address but 0.
\<close>

lemma copycheck_cases:
  "copycheck p n =
     (if n = 0 then (if p = 0 then (0, USERSPACETOP) else (EFAULT, 0))
      else if p < USERSPACETOP \<and> unat p + unat n \<le> 2 ^ 32
      then (0, if unat p + unat n \<le> 2 ^ 31 then n else USERSPACETOP - p)
      else (EFAULT, n))"
proof (cases "n = 0")
  case True
  have "p - 1 < p" if "p \<noteq> 0" using that unat_gt_0 [of p] by (simp add: word_less_nat_alt unat_minus_one)
  then show ?thesis using True by (simp add: copycheck_def Let_def)
next
  case False
  have n: "0 < unat n" using False by (simp add: unat_gt_0)
  have t: "unat (p + n - 1) = (unat p + unat n - 1) mod 2 ^ 32"
  proof -
    have "p + n - 1 = of_nat (unat p + unat n - 1)" using n by simp
    then show ?thesis by (simp add: unat_of_nat)
  qed
  show ?thesis
  proof (cases "unat p + unat n \<le> 2 ^ 32")
    case True
    then have "unat (p + n - 1) = unat p + unat n - 1" using t n by simp
    then have "\<not> p + n - 1 < p" "p + n - 1 \<ge> USERSPACETOP \<longleftrightarrow> \<not> unat p + unat n \<le> 2 ^ 31"
      using n by (auto simp: word_less_nat_alt word_le_nat_alt)
    then show ?thesis using True False by (auto simp: copycheck_def Let_def)
  next
    case wrap: False
    then have "unat p + unat n - 1 = (unat p + unat n - 1 - 2 ^ 32) + 2 ^ 32" "unat p + unat n - 1 - 2 ^ 32 < unat p"
      using unat32_less [of n] n by linarith+
    moreover have "unat p + unat n - 1 - 2 ^ 32 < 2 ^ 32" using unat32_less [of p] unat32_less [of n] by linarith
    ultimately have "unat (p + n - 1) < unat p" unfolding t by (metis mod_add_self2 mod_less)
    then show ?thesis using wrap False by (simp add: copycheck_def Let_def word_less_nat_alt)
  qed
qed

lemma copycheck_whole: "copycheck p n = (0, n) \<longleftrightarrow> n \<noteq> 0 \<and> unat p + unat n \<le> 2 ^ 31"
proof -
  have "p < USERSPACETOP" if "unat p + unat n \<le> 2 ^ 31" "n \<noteq> 0" 
    using that unat_gt_0 [of n] by (simp add: word_less_nat_alt)
  moreover have "unat p + unat n \<le> 2 ^ 31" if "USERSPACETOP - p = n" "p < USERSPACETOP"
    using that unat_sub [of p USERSPACETOP] by (simp add: less_imp_le word_less_nat_alt)
  ultimately show ?thesis unfolding copycheck_cases by auto
qed

lemma bytes_badfault [simp]: "mbyte view (m\<lparr>tm_badfaultfunc := b\<rparr>) = mbyte view m"
  by (simp add: mbyte_def fun_eq_iff)

lemma copycheck_stop:
  assumes "copycheck p n = (0, stop)"
  shows "unat p + min (unat n) (unat stop) \<le> 2 ^ 31" "\<not> stop < n \<Longrightarrow> unat p + unat n \<le> 2 ^ 31"
proof -
  have "unat (USERSPACETOP - p) = 2 ^ 31 - unat p" if "p < USERSPACETOP"
    using that unat_sub [of p USERSPACETOP] by (simp add: less_imp_le)
  then show "unat p + min (unat n) (unat stop) \<le> 2 ^ 31" "\<not> stop < n \<Longrightarrow> unat p + unat n \<le> 2 ^ 31"
    using assms by (auto simp: copycheck_cases word_less_nat_alt split: if_splits)
qed

section \<open>What the copies do\<close>

text \<open>
  The effect of the loop of \<open>copystr\<close> on the bytes from index \<open>i\<close> on: a fault, \<open>n\<close> bytes none of which ends
  the string, or all bytes up to the first one that does.
\<close>

definition string_copied ::
  "(vaddr_t \<rightharpoonup> u8) \<Rightarrow> (vaddr_t \<rightharpoonup> u8) \<Rightarrow> vaddr_t \<Rightarrow> vaddr_t \<Rightarrow> nat \<Rightarrow> nat \<Rightarrow> nat option option \<Rightarrow> bool" where
  "string_copied b b' dest src i n r =
     (case r of
        None \<Rightarrow> keeps b b' ((\<lambda>k. dest + of_nat k) ` {i..<i + n})
      | Some None \<Rightarrow> moved b b' (block dest src {i..<i + n}) \<and>
          (\<forall>k. i \<le> k \<and> k < i + n \<longrightarrow> (\<exists>c. b' (src + of_nat k) = Some c \<and> c \<noteq> 0))
      | Some (Some l) \<Rightarrow> i \<le> l \<and> l < i + n \<and> moved b b' (block dest src {i..<l + 1}) \<and> b' (src + of_nat l) = Some 0 \<and>
          (\<forall>k. i \<le> k \<and> k < l \<longrightarrow> (\<exists>c. b' (src + of_nat k) = Some c \<and> c \<noteq> 0)))"

text \<open>
  The result of a string copy: the string with its terminator and its length, \<open>ENAMETOOLONG\<close> when the
  first \<open>len\<close> bytes, all in user space, contain no terminator, or \<open>EFAULT\<close>.
\<close>

definition string_result ::
  "(vaddr_t \<rightharpoonup> u8) \<Rightarrow> (vaddr_t \<rightharpoonup> u8) \<Rightarrow> vaddr_t \<Rightarrow> vaddr_t \<Rightarrow> vaddr_t \<Rightarrow> nat \<Rightarrow> int \<Rightarrow> size_t option \<Rightarrow> bool" where
  "string_result b b' dest src user len r actual \<longleftrightarrow>
     (\<exists>l. r = 0 \<and> actual = Some (of_nat l + 1) \<and> l < len \<and> unat user + l < 2 ^ 31 \<and>
        moved b b' (block dest src {..<l + 1}) \<and> b' (src + of_nat l) = Some 0 \<and>
        (\<forall>k < l. \<exists>c. b' (src + of_nat k) = Some c \<and> c \<noteq> 0)) \<or>
     r = ENAMETOOLONG \<and> actual = None \<and> unat user + len \<le> 2 ^ 31 \<and> moved b b' (block dest src {..<len}) \<and>
        (\<forall>k < len. \<exists>c. b' (src + of_nat k) = Some c \<and> c \<noteq> 0) \<or>
     r = EFAULT \<and> actual = None \<and> keeps b b' (span dest len)"

lemma string_copied_keeps:
  assumes "string_copied b b' dest src i n r"
  shows "keeps b b' ((\<lambda>k. dest + of_nat k) ` {i..<i + n})"
proof -
  have "keeps b b' ((\<lambda>k. dest + of_nat k) ` {i..<i + n})" if "moved b b' (block dest src K)" "K \<subseteq> {i..<i + n}" for K
    using keeps_mono [OF moved_keeps [OF that(1)], unfolded block_fst, OF image_mono [OF that(2)]] .
  then show ?thesis using assms by (fastforce simp: string_copied_def split: option.splits)
qed

lemma block_insert: "i < j \<Longrightarrow> block d s {i} \<union> block d s {i + 1..<j} = block d s {i..<j}"
proof -
  assume "i < j"
  then have "{i} \<union> {i + 1..<j} = {i..<j}" by auto
  then show ?thesis unfolding block_def by (metis image_Un)
qed

lemma string_copied_step:
  assumes first: "moved b b1 (block dest src {i})" "b1 (src + of_nat i) = Some c" "c \<noteq> 0"
    and rest: "string_copied b1 b' dest src (i + 1) n r"
    and len: "unat dest + (i + Suc n) \<le> 2 ^ 32" "unat src + (i + Suc n) \<le> 2 ^ 32"
    and apart: "unat src + (i + Suc n) \<le> unat dest \<or> unat dest + (i + Suc n) \<le> unat src"
  shows "string_copied b b' dest src i (Suc n) r"
proof -
  have dis: "fst ` block dest src {i} \<inter> fst ` block dest src {i + 1..<j} = {}" "fst ` block dest src {i} \<inter> snd ` block dest src {i + 1..<j} = {}"
    if "j \<le> i + Suc n" for j
    unfolding block_fst block_snd using that apart
    by (intro images_disjoint [OF len(1,1)] images_disjoint [OF len]; auto)+
  have m: "moved b b' (block dest src {i..<j})" if "i < j" "j \<le> i + Suc n" "moved b1 b' (block dest src {i + 1..<j})" for j
    using moved_trans [OF first(1) that(3) dis [OF that(2)]] unfolding block_insert [OF that(1)] .
  have "src + of_nat i \<notin> (\<lambda>k. dest + of_nat k) ` {i + 1..<i + 1 + n}"
    using images_disjoint [OF len(2,1), of "{i}" "{i + 1..<i + 1 + n}"] apart by auto
  then have c: "b' (src + of_nat i) = Some c" using keepsD [OF string_copied_keeps [OF rest] first(2)] by blast
  have c': "\<forall>k. i \<le> k \<and> k < j \<longrightarrow> (\<exists>c. b' (src + of_nat k) = Some c \<and> c \<noteq> 0)"
    if "\<forall>k. i + 1 \<le> k \<and> k < j \<longrightarrow> (\<exists>c. b' (src + of_nat k) = Some c \<and> c \<noteq> 0)" for j
  proof (intro allI impI)
    fix k assume "i \<le> k \<and> k < j"
    then show "\<exists>c. b' (src + of_nat k) = Some c \<and> c \<noteq> 0" using that c first(3) by (cases "k = i") auto
  qed
  have k: "keeps b b' ((\<lambda>k. dest + of_nat k) ` {i..<i + Suc n})"
    using keeps_trans [OF moved_keeps [OF first(1)] string_copied_keeps [OF rest]]
    by (rule keeps_mono) (auto simp: block_fst)
  show ?thesis
  proof (cases r)
    case None
    then show ?thesis using k by (simp add: string_copied_def)
  next
    case (Some o')
    show ?thesis
    proof (cases o')
      case None
      then show ?thesis using rest Some m [of "i + Suc n"] c' [of "i + Suc n"] by (simp add: string_copied_def)
    next
      case l: (Some l)
      then show ?thesis using rest Some m [of "l + 1"] c' [of l] by (simp add: string_copied_def)
    qed
  qed
qed

context user_pages
begin

text \<open>
  A block copy with one side in the kernel. On success the bytes have been moved; on a fault, which is
  reported, only bytes of the destination can have changed.
\<close>

lemma copyin_ok:
  assumes good: "good (umem m)" and bad: "\<not> tm_badfaultfunc m" and dest: "USERSPACETOP \<le> dest" "unat dest + unat len \<le> 2 ^ 32"
    and run: "copyin acc usersrc dest len m = Inr (r, m')"
  shows "good (umem m') \<and> \<not> tm_badfaultfunc m' \<and>
    (r = 0 \<and> unat usersrc + unat len \<le> 2 ^ 31 \<and> moved (bytes m) (bytes m') (block dest usersrc {..<unat len}) \<or>
     r = EFAULT \<and> keeps (bytes m) (bytes m') (span dest (unat len)))"
proof (cases "copycheck usersrc len = (0, len)")
  case True
  then have len: "unat usersrc + unat len \<le> 2 ^ 31" by (simp add: copycheck_whole)
  obtain ok m1 where cp: "memcpy acc dest usersrc len (m\<lparr>tm_badfaultfunc := True\<rparr>) = Inr (ok, m1)"
    and r: "r = (if ok then 0 else EFAULT)" and m': "m' = m1\<lparr>tm_badfaultfunc := False\<rparr>"
    using run True by (auto simp: copyin_def)
  have "unat usersrc + unat len \<le> 2 ^ 32" "unat usersrc + unat len \<le> unat dest" using len dest(1) by (simp_all add: word_le_nat_alt)
  then show ?thesis using memcpy_ok [OF _ dest(2) _ _ cp] good len by (cases ok) (auto simp: r m')
next
  case False
  then have "r = EFAULT" "m' = m" using run
    by (auto simp: copyin_def copycheck_cases split: if_splits)
  then show ?thesis using good bad by simp
qed

lemma copyout_ok:
  assumes good: "good (umem m)" and bad: "\<not> tm_badfaultfunc m" and src: "USERSPACETOP \<le> src" "unat src + unat len \<le> 2 ^ 32"
    and run: "copyout acc src userdest len m = Inr (r, m')"
  shows "good (umem m') \<and> \<not> tm_badfaultfunc m' \<and>
    (r = 0 \<and> unat userdest + unat len \<le> 2 ^ 31 \<and> moved (bytes m) (bytes m') (block userdest src {..<unat len}) \<or>
     r = EFAULT \<and> keeps (bytes m) (bytes m') (span userdest (unat len)))"
proof (cases "copycheck userdest len = (0, len)")
  case True
  then have len: "unat userdest + unat len \<le> 2 ^ 31" by (simp add: copycheck_whole)
  obtain ok m1 where cp: "memcpy acc userdest src len (m\<lparr>tm_badfaultfunc := True\<rparr>) = Inr (ok, m1)"
    and r: "r = (if ok then 0 else EFAULT)" and m': "m' = m1\<lparr>tm_badfaultfunc := False\<rparr>"
    using run True by (auto simp: copyout_def)
  have "unat userdest + unat len \<le> 2 ^ 32" "userdest \<le> src" using len src(1) by (simp_all add: word_le_nat_alt)
  then show ?thesis using memcpy_ok [OF _ _ src(2) _ cp] good len by (cases ok) (auto simp: r m')
next
  case False
  then have "r = EFAULT" "m' = m" using run
    by (auto simp: copyout_def copycheck_cases split: if_splits)
  then show ?thesis using good bad by simp
qed

lemma moved_keep: "moved b b1 P \<Longrightarrow> keeps b1 b2 {} \<Longrightarrow> moved b b2 P"
  using moved_trans [of b b1 P b2 "{}"] by (simp add: moved_empty)

text \<open>One step of the loop of \<open>copystr\<close>: a fault, or the byte has been copied and is the one tested.\<close>

lemma copystr_step:
  assumes good: "good (umem m)" and ne: "dest + of_nat i \<noteq> src + of_nat i"
    and run: "copystr_loop acc dest src (Suc n) i m = Inr (r, m')"
  obtains "r = None" "good (umem m')" "tm_badfaultfunc m" "tm_badfaultfunc m'" "keeps (bytes m) (bytes m') {dest + of_nat i}"
  | c m1 where "good (umem m1)" "tm_badfaultfunc m1 = tm_badfaultfunc m" "moved (bytes m) (bytes m1) (block dest src {i})"
      "bytes m1 (src + of_nat i) = Some c" "if c = 0 then r = Some (Some i) \<and> m' = m1 else copystr_loop acc dest src n (i + 1) m1 = Inr (r, m')"
proof -
  let ?s = "src + of_nat i" and ?d = "dest + of_nat i"
  obtain v m1 where l: "kload acc 1 ?s m = Inr (v, m1)" using run by auto
  show thesis
  proof (cases v)
    case None
    then show thesis using that(1) run l kload_fault [OF l [unfolded None]] good by auto
  next
    case (Some bs)
    obtain ok m2 where st: "kstore acc ?d bs m1 = Inr (ok, m2)" using run l Some by auto
    have g1: "good (umem m1)" "tm_badfaultfunc m1 = tm_badfaultfunc m" "keeps (bytes m) (bytes m1) {}"
      using kload_ok [OF good _ l [unfolded Some]] by auto
    show thesis
    proof (cases ok)
      case False
      then show thesis using that(1) run l Some st g1 kstore_fault [of ?d bs m1 m2] keeps_mono [OF g1(3)] by auto
    next
      case True
      have u: "good (umem m2)" "tm_badfaultfunc m2 = tm_badfaultfunc m" "moved (bytes m) (bytes m2) (block dest src {i})"
        using copy_unit_ok [OF good _ _ l [unfolded Some], of ?d m2] st True by (auto simp: block_def lessThan_Suc)
      obtain v2 m3 where l2: "kload acc 1 ?s m2 = Inr (v2, m3)" using run l Some st True by auto
      show thesis
      proof (cases v2)
        case None
        then show thesis using that(1) run l Some st True l2 kload_fault [OF l2 [unfolded None]] u moved_keeps [OF u(3)]
          by (auto simp: block_def)
      next
        case (Some cs)
        have g3: "good (umem m3)" "tm_badfaultfunc m3 = tm_badfaultfunc m2" "length cs = 1" "keeps (bytes m2) (bytes m3) {}"
          "bytes m3 ?s = Some (cs ! 0)" using kload_ok [OF u(1) _ l2 [unfolded Some]] by auto
        then have "hd cs = cs ! 0" by (cases cs) auto
        then show thesis using that(2) [of m3 "hd cs"] run l \<open>v = Some bs\<close> st True l2 Some g3 u moved_keep [OF u(3) g3(4)]
          by (auto split: if_splits)
      qed
    qed
  qed
qed

lemma copystr_loop_ok:
  assumes "good (umem m)" and "unat dest + (i + n) \<le> 2 ^ 32" "unat src + (i + n) \<le> 2 ^ 32"
    and "unat src + (i + n) \<le> unat dest \<or> unat dest + (i + n) \<le> unat src"
    and "copystr_loop acc dest src n i m = Inr (r, m')"
  shows "good (umem m') \<and> tm_badfaultfunc m' = tm_badfaultfunc m \<and> (r = None \<longrightarrow> tm_badfaultfunc m) \<and>
    string_copied (bytes m) (bytes m') dest src i n r"
  using assms
proof (induction n arbitrary: i m)
  case 0
  then show ?case by (auto simp: string_copied_def moved_empty block_def)
next
  case (Suc n)
  have "unat (dest + of_nat i) = unat dest + i" "unat (src + of_nat i) = unat src + i"
    using Suc.prems(2,3) by (simp_all add: unat_add_of_nat)
  then have "dest + of_nat i \<noteq> src + of_nat i" using Suc.prems(4) by auto
  from Suc.prems(1) this Suc.prems(5) show ?case
  proof (rule copystr_step)
    assume "r = None" "good (umem m')" "tm_badfaultfunc m" "tm_badfaultfunc m'" and k: "keeps (bytes m) (bytes m') {dest + of_nat i}"
    then show ?thesis using keeps_mono [OF k] by (auto simp: string_copied_def)
  next
    fix c m1
    assume m1: "good (umem m1)" "tm_badfaultfunc m1 = tm_badfaultfunc m" "moved (bytes m) (bytes m1) (block dest src {i})"
      "bytes m1 (src + of_nat i) = Some c" "if c = 0 then r = Some (Some i) \<and> m' = m1 else copystr_loop acc dest src n (i + 1) m1 = Inr (r, m')"
    show ?thesis
    proof (cases "c = 0")
      case True
      then show ?thesis using m1 by (auto simp: string_copied_def)
    next
      case False
      then have run: "copystr_loop acc dest src n (i + 1) m1 = Inr (r, m')" using m1(5) by simp
      have IH: "good (umem m') \<and> tm_badfaultfunc m' = tm_badfaultfunc m1 \<and> (r = None \<longrightarrow> tm_badfaultfunc m1) \<and>
          string_copied (bytes m1) (bytes m') dest src (i + 1) n r"
        using Suc.prems(2-4) by (intro Suc.IH [OF m1(1) _ _ _ run]) auto
      show ?thesis using IH m1(2) string_copied_step [OF m1(3,4) False _ Suc.prems(2-4)] by simp
    qed
  qed
qed

text \<open>The common part of \<open>copyinstr\<close> and \<open>copyoutstr\<close>.\<close>

lemma copystr_ok:
  assumes good: "good (umem m)" and check: "copycheck user len = (0, stoplen)" and user: "user = dest \<or> user = src"
    and kernel: "USERSPACETOP \<le> (if user = src then dest else src)" "unat (if user = src then dest else src) + unat len \<le> 2 ^ 32"
    and run: "copystr acc dest src len stoplen m = Inr (r, m')"
  shows "good (umem m') \<and> tm_badfaultfunc m' = tm_badfaultfunc m \<and>
    string_result (bytes m) (bytes m') dest src user (unat len)
      (case r of None \<Rightarrow> EFAULT | Some (result, actual) \<Rightarrow> result) (case r of None \<Rightarrow> None | Some (result, actual) \<Rightarrow> actual)"
proof -
  define N where "N = min (unat len) (unat stoplen)"
  have N: "N \<le> unat len" "unat user + N \<le> 2 ^ 31" using copycheck_stop(1) [OF check] by (simp_all add: N_def)
  have stop: "stoplen < len \<or> N = unat len \<and> unat user + unat len \<le> 2 ^ 31"
    using copycheck_stop(2) [OF check] by (auto simp: N_def word_less_nat_alt)
  have top: "2 ^ 31 \<le> unat (if user = src then dest else src)" using kernel(1) by (simp add: word_le_nat_alt)
  obtain r0 where loop: "copystr_loop acc dest src N 0 m = Inr (r0, m')"
    and r: "r = (case r0 of None \<Rightarrow> None | Some (Some i) \<Rightarrow> Some (0, Some (of_nat i + 1))
          | Some None \<Rightarrow> Some (if stoplen < len then EFAULT else ENAMETOOLONG, None))"
    using run by (auto simp: copystr_def N_def)
  have l: "unat dest + (0 + N) \<le> 2 ^ 32" "unat src + (0 + N) \<le> 2 ^ 32"
    "unat src + (0 + N) \<le> unat dest \<or> unat dest + (0 + N) \<le> unat src"
    using N kernel(2) top user by (auto split: if_splits)
  from copystr_loop_ok [OF good l loop]
  have ok: "good (umem m')" "tm_badfaultfunc m' = tm_badfaultfunc m" "string_copied (bytes m) (bytes m') dest src 0 N r0" by auto
  have "keeps (bytes m) (bytes m') (span dest (unat len))"
    using string_copied_keeps [OF ok(3)] by (rule keeps_mono) (use N(1) in \<open>auto simp: span_def\<close>)
  then show ?thesis using ok N stop unfolding r
    by (auto simp: string_result_def string_copied_def lessThan_atLeast0 split: option.splits if_splits)
qed

lemma copyinstr_ok:
  assumes good: "good (umem m)" and bad: "\<not> tm_badfaultfunc m" and dest: "USERSPACETOP \<le> dest" "unat dest + unat len \<le> 2 ^ 32"
    and run: "copyinstr acc usersrc dest len m = Inr (r, actual, m')"
  shows "good (umem m') \<and> \<not> tm_badfaultfunc m' \<and> string_result (bytes m) (bytes m') dest usersrc usersrc (unat len) r actual"
proof (cases "copycheck usersrc len")
  case (Pair result stoplen)
  show ?thesis
  proof (cases "result = 0")
    case True
    obtain x m1 where c: "copystr acc dest usersrc len stoplen (m\<lparr>tm_badfaultfunc := True\<rparr>) = Inr (x, m1)"
      using run Pair True by (auto simp: copyinstr_def)
    show ?thesis using copystr_ok [OF _ Pair [unfolded True] _ _ _ c] good dest run c Pair True
      by (cases x) (auto simp: copyinstr_def)
  next
    case False
    then have "r = EFAULT" "actual = None" "m' = m" using run Pair
      by (auto simp: copyinstr_def copycheck_cases split: if_splits)
    then show ?thesis using good bad by (simp add: string_result_def)
  qed
qed

lemma copyoutstr_ok:
  assumes good: "good (umem m)" and bad: "\<not> tm_badfaultfunc m" and src: "USERSPACETOP \<le> src" "unat src + unat len \<le> 2 ^ 32"
    and run: "copyoutstr acc src userdest len m = Inr (r, actual, m')"
  shows "good (umem m') \<and> \<not> tm_badfaultfunc m' \<and> string_result (bytes m) (bytes m') userdest src userdest (unat len) r actual"
proof (cases "copycheck userdest len")
  case (Pair result stoplen)
  show ?thesis
  proof (cases "result = 0")
    case True
    obtain x m1 where c: "copystr acc userdest src len stoplen (m\<lparr>tm_badfaultfunc := True\<rparr>) = Inr (x, m1)"
      using run Pair True by (auto simp: copyoutstr_def)
    have "userdest < USERSPACETOP" using True Pair by (auto simp: copycheck_cases split: if_splits)
    then have "userdest \<noteq> src" using src(1) by auto
    then show ?thesis using copystr_ok [OF _ Pair [unfolded True] _ _ _ c] good src run c Pair True
      by (cases x) (auto simp: copyoutstr_def)
  next
    case False
    then have "r = EFAULT" "actual = None" "m' = m" using run Pair
      by (auto simp: copyoutstr_def copycheck_cases split: if_splits)
    then show ?thesis using good bad by (simp add: string_result_def)
  qed
qed

end

section \<open>The copies come back\<close>

lemma kernel_addresses:
  assumes "USERSPACETOP \<le> p" and "unat p + n \<le> 2 ^ 32" and "k < n"
  shows "USERSPACETOP \<le> p + of_nat k"
proof -
  have "unat (p + of_nat k) = unat p + k" using assms(2,3) by (simp add: unat_add_of_nat)
  then show ?thesis using assms(1) by (simp add: word_le_nat_alt)
qed

context live_user_pages
begin

lemma copyin_usable:
  assumes "copycheck usersrc len = (0, len)" and dest: "USERSPACETOP \<le> dest" "unat dest + unat len \<le> 2 ^ 32"
    and "\<forall>k < unat len. ready (umem m) ((usersrc + of_nat k) AND PAGE_FRAME)"
  shows "\<exists>m'. copyin acc usersrc dest len m = Inr (0, m')"
  using memcpy_usable [where n = len and m = "m\<lparr>tm_badfaultfunc := True\<rparr>" and s = usersrc and d = dest]
    kernel_addresses [OF dest] assms by (auto simp: copyin_def)

lemma copyout_usable:
  assumes "copycheck userdest len = (0, len)" and src: "USERSPACETOP \<le> src" "unat src + unat len \<le> 2 ^ 32"
    and "\<forall>k < unat len. ready (umem m) ((userdest + of_nat k) AND PAGE_FRAME)"
  shows "\<exists>m'. copyout acc src userdest len m = Inr (0, m')"
  using memcpy_usable [where n = len and m = "m\<lparr>tm_badfaultfunc := True\<rparr>" and s = src and d = userdest]
    kernel_addresses [OF src] assms by (auto simp: copyout_def)

lemma user_addresses:
  assumes "copycheck p n = (0, n)" and "k < unat n"
  shows "p + of_nat k < USERSPACETOP"
proof -
  have "unat p + unat n \<le> 2 ^ 31" using assms(1) by (simp add: copycheck_whole)
  then have "unat (p + of_nat k) = unat p + k" "unat p + k < 2 ^ 31" using assms(2) by (simp_all add: unat_add_of_nat)
  then show ?thesis by (simp add: word_less_nat_alt)
qed

lemma copyin_refused:
  assumes c: "copycheck usersrc len = (0, len)" and dest: "USERSPACETOP \<le> dest" "unat dest + unat len \<le> 2 ^ 32"
    and all: "\<forall>k < unat len. ready (umem m) ((usersrc + of_nat k) AND PAGE_FRAME) \<or> denied (umem m) (usersrc + of_nat k)"
    and k: "k < unat len" "denied (umem m) (usersrc + of_nat k)"
  shows "\<exists>m'. copyin acc usersrc dest len m = Inr (EFAULT, m')"
proof -
  have "unat usersrc + unat len \<le> 2 ^ 32" using c by (simp add: copycheck_whole)
  then have "\<exists>m'. memcpy acc dest usersrc len (m\<lparr>tm_badfaultfunc := True\<rparr>) = Inr (False, m') \<and> same (m\<lparr>tm_badfaultfunc := True\<rparr>) m'"
    using all k kernel_addresses [OF dest] user_addresses [OF c] by (intro memcpy_refused [OF _ dest(2) _ _ k(1)]) auto
  then show ?thesis using c by (auto simp: copyin_def)
qed

lemma copyout_refused:
  assumes c: "copycheck userdest len = (0, len)" and src: "USERSPACETOP \<le> src" "unat src + unat len \<le> 2 ^ 32"
    and all: "\<forall>k < unat len. ready (umem m) ((userdest + of_nat k) AND PAGE_FRAME) \<or> denied (umem m) (userdest + of_nat k)"
    and k: "k < unat len" "denied (umem m) (userdest + of_nat k)"
  shows "\<exists>m'. copyout acc src userdest len m = Inr (EFAULT, m')"
proof -
  have "unat userdest + unat len \<le> 2 ^ 32" using c by (simp add: copycheck_whole)
  then have "\<exists>m'. memcpy acc userdest src len (m\<lparr>tm_badfaultfunc := True\<rparr>) = Inr (False, m') \<and> same (m\<lparr>tm_badfaultfunc := True\<rparr>) m'"
    using all k kernel_addresses [OF src] user_addresses [OF c] by (intro memcpy_refused [OF _ _ src(2) _ k(1)]) auto
  then show ?thesis using c by (auto simp: copyout_def)
qed

lemma copystr_loop_usable:
  assumes "\<forall>k. i \<le> k \<and> k < i + n \<longrightarrow> usable m (src + of_nat k) \<and> usable m (dest + of_nat k)"
  shows "\<exists>r m'. copystr_loop acc dest src n i m = Inr (Some r, m')"
  using assms
proof (induction n arbitrary: i m)
  case (Suc n)
  let ?s = "src + of_nat i" and ?d = "dest + of_nat i"
  have i: "usable m ?s" "usable m ?d" using Suc.prems by simp_all
  obtain bs m1 where l: "kload acc 1 ?s m = Inr (Some bs, m1)" "same m m1" using kload_usable [OF i(1)] by blast
  obtain m2 where st: "kstore acc ?d bs m1 = Inr (True, m2)" "same m1 m2"
    using kstore_usable [where m = m1 and va = ?d and bs = bs] i(2) l(2) by auto
  obtain cs m3 where l3: "kload acc 1 ?s m2 = Inr (Some cs, m3)" "same m2 m3"
    using kload_usable [where m = m2 and va = ?s and w = 1] i(1) l(2) st(2) by auto
  have "\<exists>r m'. copystr_loop acc dest src n (i + 1) m3 = Inr (Some r, m')"
    using Suc.prems l(2) st(2) l3(2) by (intro Suc.IH) simp
  then show ?case using l st l3 by auto
qed simp

lemma copyinstr_usable:
  assumes dest: "USERSPACETOP \<le> dest" "unat dest + unat len \<le> 2 ^ 32"
    and "\<forall>k < unat len. unat usersrc + k < 2 ^ 31 \<longrightarrow> ready (umem m) ((usersrc + of_nat k) AND PAGE_FRAME)"
  shows "\<exists>r actual m'. copyinstr acc usersrc dest len m = Inr (r, actual, m')"
proof (cases "copycheck usersrc len")
  case (Pair result stoplen)
  show ?thesis
  proof (cases "result = 0")
    case True
    have "\<exists>r m'. copystr_loop acc dest usersrc (min (unat len) (unat stoplen)) 0 (m\<lparr>tm_badfaultfunc := True\<rparr>) = Inr (Some r, m')"
      using assms(3) kernel_addresses [OF dest] copycheck_stop(1) [OF Pair [unfolded True]]
      by (intro copystr_loop_usable) auto
    then show ?thesis using Pair True by (auto simp: copyinstr_def copystr_def split: option.split)
  qed (simp add: copyinstr_def Pair)
qed

end

end
