(* ===== verification/Uio.thy ===== *)
theory Uio
  imports CopyInOut
begin

text \<open>
  \<open>kern/lib/uio.c\<close> and \<open>kern/include/uio.h\<close>: blocks of memory with a position, through which the file
  systems and devices move their data. The loop over the buffers is shown to move the bytes in order,
  to keep the counts in step with what has been moved, and to end.
\<close>

section \<open>The code\<close>

abbreviation (input) UIO_READ :: int where "UIO_READ \<equiv> 0"
abbreviation (input) UIO_WRITE :: int where "UIO_WRITE \<equiv> 1"
abbreviation (input) UIO_USERISPACE :: int where "UIO_USERISPACE \<equiv> 0"
abbreviation (input) UIO_USERSPACE :: int where "UIO_USERSPACE \<equiv> 1"
abbreviation (input) UIO_SYSSPACE :: int where "UIO_SYSSPACE \<equiv> 2"

text \<open>\<open>iov_ubase\<close> and \<open>iov_kbase\<close> are one field, the union of the two.\<close>

record iovec =
  iov_base :: vaddr_t
  iov_len :: size_t

text \<open>The pointer \<open>uio_iov\<close> is an array with a place in it.\<close>

record uio =
  uio_iovs :: "iovec list"
  uio_iov :: nat
  uio_iovcnt :: u32
  uio_offset :: u64
  uio_resid :: size_t
  uio_segflg :: int
  uio_rw :: int
  uio_space :: vaddr_t

definition uio_transfer :: "'s uaccess \<Rightarrow> vaddr_t \<Rightarrow> size_t \<Rightarrow> vaddr_t \<Rightarrow> uio \<Rightarrow> 's kmachine \<Rightarrow> (int \<times> 's kmachine) res" where
  "uio_transfer acc ptr sz base u m =
     (if uio_segflg u = UIO_SYSSPACE then
        kbind (if uio_rw u = UIO_READ then memmove acc base ptr sz m else memmove acc ptr base sz m) (\<lambda>(ok, m1). Inr (0, m1))
      else if uio_segflg u = UIO_USERSPACE \<or> uio_segflg u = UIO_USERISPACE then
        (if uio_rw u = UIO_READ then copyout acc ptr base sz m else copyin acc base ptr sz m)
      else Inl (Panic ''uiomove: Invalid uio_segflg''))"

function uiomove_loop :: "'s uaccess \<Rightarrow> vaddr_t \<Rightarrow> size_t \<Rightarrow> uio \<Rightarrow> 's kmachine \<Rightarrow> (int \<times> uio \<times> 's kmachine) res" where
  "uiomove_loop acc ptr n u m =
     (if n > 0 \<and> uio_resid u > 0 then
        if uio_iov u < length (uio_iovs u) then
          let iov = uio_iovs u ! uio_iov u;
              sz = (if iov_len iov > n then n else iov_len iov)
          in if sz = 0 then
               let u1 = u\<lparr>uio_iov := uio_iov u + 1, uio_iovcnt := uio_iovcnt u - 1\<rparr> in
               if uio_iovcnt u1 = 0 then Inl (Panic ''uiomove: ran out of buffers'')
               else uiomove_loop acc ptr n u1 m
             else
               kbind (uio_transfer acc ptr sz (iov_base iov) u m) (\<lambda>(result, m1).
               if result \<noteq> 0 then Inr (result, u, m1)
               else
                 let iov1 = iov\<lparr>iov_base := iov_base iov + sz, iov_len := iov_len iov - sz\<rparr>
                 in uiomove_loop acc (ptr + sz) (n - sz)
                      (u\<lparr>uio_iovs := (uio_iovs u)[uio_iov u := iov1], uio_resid := uio_resid u - sz,
                         uio_offset := uio_offset u + ucast sz\<rparr>) m1)
        else Inl (Undefined ''uio_iov'')
      else Inr (0, u, m))"
  by pat_completeness auto

termination
proof (relation "measure (\<lambda>(acc, ptr, n, u, m). unat n + (length (uio_iovs u) - uio_iov u))", goal_cases)
  case (3 acc ptr n u m iov sz)
  then have "0 < unat sz" "sz \<le> n" by (auto simp: unat_gt_0 split: if_splits)
  then have "unat (n - sz) < unat n" by (simp add: unat_sub word_le_nat_alt)
  then show ?case by simp
qed auto

declare uiomove_loop.simps [simp del]

text \<open>\<open>getas\<close> gives the address of the address space of the current process.\<close>

definition uiomove :: "'s uaccess \<Rightarrow> ('s \<Rightarrow> vaddr_t) \<Rightarrow> vaddr_t \<Rightarrow> size_t \<Rightarrow> uio \<Rightarrow> 's kmachine \<Rightarrow> (int \<times> uio \<times> 's kmachine) res" where
  "uiomove acc getas ptr n u m =
     (if uio_rw u \<noteq> UIO_READ \<and> uio_rw u \<noteq> UIO_WRITE then Inl (Panic ''uiomove: Invalid uio_rw'')
      else
        kbind (if uio_segflg u = UIO_SYSSPACE then kassert (uio_space u = 0) ''uio->uio_space == NULL''
               else kassert (uio_space u = getas (umem m)) ''uio->uio_space == proc_getas()'') (\<lambda>_.
        uiomove_loop acc ptr n u m))"

text \<open>\<open>zeros\<close> is the address of the static array of 16 bytes.\<close>

function uiomovezeros_loop ::
  "'s uaccess \<Rightarrow> ('s \<Rightarrow> vaddr_t) \<Rightarrow> vaddr_t \<Rightarrow> size_t \<Rightarrow> uio \<Rightarrow> 's kmachine \<Rightarrow> (int \<times> uio \<times> 's kmachine) res" where
  "uiomovezeros_loop acc getas zeros n u m =
     (if n > 0 then
        let amt = (if 16 > n then n else 16) in
        kbind (uiomove acc getas zeros amt u m) (\<lambda>(result, u1, m1).
        if result \<noteq> 0 then Inr (result, u1, m1)
        else uiomovezeros_loop acc getas zeros (n - amt) u1 m1)
      else Inr (0, u, m))"
  by pat_completeness auto

termination
proof (relation "measure (\<lambda>(acc, getas, zeros, n, u, m). unat n)", goal_cases)
  case (2 acc getas zeros n u m amt)
  then have "0 < unat amt" "amt \<le> n" by (auto simp: unat_gt_0 split: if_splits)
  then show ?case by (simp add: unat_sub word_le_nat_alt)
qed auto

declare uiomovezeros_loop.simps [simp del]

definition uiomovezeros ::
  "'s uaccess \<Rightarrow> ('s \<Rightarrow> vaddr_t) \<Rightarrow> vaddr_t \<Rightarrow> size_t \<Rightarrow> uio \<Rightarrow> 's kmachine \<Rightarrow> (int \<times> uio \<times> 's kmachine) res" where
  "uiomovezeros acc getas zeros n u m =
     kbind (kassert (uio_rw u = UIO_READ) ''uio->uio_rw == UIO_READ'') (\<lambda>_. uiomovezeros_loop acc getas zeros n u m)"

definition uio_kinit :: "vaddr_t \<Rightarrow> size_t \<Rightarrow> u64 \<Rightarrow> int \<Rightarrow> uio" where
  "uio_kinit kbuf len pos rw =
     \<lparr>uio_iovs = [\<lparr>iov_base = kbuf, iov_len = len\<rparr>], uio_iov = 0, uio_iovcnt = 1, uio_offset = pos, uio_resid = len,
      uio_segflg = UIO_SYSSPACE, uio_rw = rw, uio_space = 0\<rparr>"

section \<open>The bytes a uio stands for\<close>

definition iov_addrs :: "iovec \<Rightarrow> vaddr_t list" where
  "iov_addrs iov = map (\<lambda>j. iov_base iov + of_nat j) [0..<unat (iov_len iov)]"

definition uio_addrs :: "uio \<Rightarrow> vaddr_t list" where
  "uio_addrs u = concat (map iov_addrs (drop (uio_iov u) (uio_iovs u)))"

text \<open>What the comment in \<open>uio.h\<close> asks of the caller: the counts agree with the buffers.\<close>

definition uio_wf :: "uio \<Rightarrow> bool" where
  "uio_wf u \<longleftrightarrow> unat (uio_resid u) = length (uio_addrs u) \<and> uio_iov u + unat (uio_iovcnt u) = length (uio_iovs u) \<and>
     (\<forall>iov \<in> set (drop (uio_iov u) (uio_iovs u)). unat (iov_base iov) + unat (iov_len iov) \<le> 2 ^ 32)"

text \<open>The first \<open>k\<close> bytes as pairs of a destination and a source.\<close>

definition uio_pairs :: "uio \<Rightarrow> vaddr_t \<Rightarrow> nat \<Rightarrow> (vaddr_t \<times> vaddr_t) set" where
  "uio_pairs u ptr k =
     (let A = take k (uio_addrs u); P = map (\<lambda>j. ptr + of_nat j) [0..<k]
      in set (if uio_rw u = UIO_READ then zip A P else zip P A))"

text \<open>\<open>j\<close> bytes have been moved: they are gone from the buffers and are counted.\<close>

definition advanced :: "uio \<Rightarrow> uio \<Rightarrow> nat \<Rightarrow> bool" where
  "advanced u u' j \<longleftrightarrow> uio_wf u' \<and> uio_addrs u' = drop j (uio_addrs u) \<and> uio_resid u' = uio_resid u - of_nat j \<and>
     uio_offset u' = uio_offset u + of_nat j \<and> uio_segflg u' = uio_segflg u \<and> uio_rw u' = uio_rw u \<and> uio_space u' = uio_space u"

lemma advanced_0: "uio_wf u \<Longrightarrow> advanced u u 0"
  by (simp add: advanced_def)

lemma advanced_trans: "advanced u u1 i \<Longrightarrow> advanced u1 u2 j \<Longrightarrow> advanced u u2 (i + j)"
  by (auto simp: advanced_def add.commute)

lemma uio_addrs_Cons:
  assumes "uio_iov u < length (uio_iovs u)"
  shows "uio_addrs u = iov_addrs (uio_iovs u ! uio_iov u) @ concat (map iov_addrs (drop (uio_iov u + 1) (uio_iovs u)))"
  unfolding uio_addrs_def using assms by (subst Cons_nth_drop_Suc [symmetric]) simp_all

text \<open>There is a buffer as long as bytes are left, and an empty buffer is not the last one.\<close>

lemma uio_has_buffer:
  assumes "uio_wf u" and "0 < uio_resid u"
  shows "uio_iov u < length (uio_iovs u)"
proof (rule ccontr)
  assume "\<not> ?thesis"
  then have "uio_addrs u = []" by (simp add: uio_addrs_def)
  then have "unat (uio_resid u) = 0" using assms(1) by (simp add: uio_wf_def)
  then show False using assms(2) by (simp add: unat_eq_zero)
qed

lemma uio_skip:
  assumes wf: "uio_wf u" and r: "0 < uio_resid u" and "iov_len (uio_iovs u ! uio_iov u) = 0"
  defines "u1 \<equiv> u\<lparr>uio_iov := uio_iov u + 1, uio_iovcnt := uio_iovcnt u - 1\<rparr>"
  shows "advanced u u1 0 \<and> uio_iovcnt u1 \<noteq> 0 \<and> uio_pairs u1 ptr k = uio_pairs u ptr k"
proof -
  have i: "uio_iov u < length (uio_iovs u)" by (rule uio_has_buffer [OF wf r])
  have a: "uio_addrs u1 = uio_addrs u" using uio_addrs_Cons [OF i] assms(3) by (simp add: uio_addrs_def u1_def iov_addrs_def)
  have "uio_iovcnt u \<noteq> 0" using wf i by (auto simp: uio_wf_def)
  then have c: "unat (uio_iovcnt u1) = unat (uio_iovcnt u) - 1" by (simp add: u1_def unat_minus_one)
  have sub: "set (drop (uio_iov u1) (uio_iovs u1)) \<subseteq> set (drop (uio_iov u) (uio_iovs u))"
    by (simp add: u1_def set_drop_subset_set_drop)
  have wf1: "uio_wf u1" using wf i a c \<open>uio_iovcnt u \<noteq> 0\<close> sub unat_gt_0 [of "uio_iovcnt u"] by (auto simp: uio_wf_def) (simp_all add: u1_def)
  have r1: "0 < uio_resid u1" using r by (simp add: u1_def)
  have "uio_iovcnt u1 \<noteq> 0" using uio_has_buffer [OF wf1 r1] wf1 by (auto simp: uio_wf_def)
  then show ?thesis using wf1 a by (simp add: advanced_def uio_pairs_def) (simp add: u1_def)
qed

lemma uio_advance:
  assumes wf: "uio_wf u" and i: "uio_iov u < length (uio_iovs u)" and sz: "sz \<le> iov_len (uio_iovs u ! uio_iov u)"
  defines "iov \<equiv> uio_iovs u ! uio_iov u"
  defines "u1 \<equiv> u\<lparr>uio_iovs := (uio_iovs u)[uio_iov u := iov\<lparr>iov_base := iov_base iov + sz, iov_len := iov_len iov - sz\<rparr>],
     uio_resid := uio_resid u - sz, uio_offset := uio_offset u + ucast sz\<rparr>"
  shows "advanced u u1 (unat sz) \<and> take (unat sz) (uio_addrs u) = map (\<lambda>j. iov_base iov + of_nat j) [0..<unat sz] \<and>
    unat sz \<le> length (uio_addrs u) \<and> unat (iov_base iov) + unat sz \<le> 2 ^ 32"
proof -
  have le: "unat sz \<le> unat (iov_len iov)" "unat (iov_len iov - sz) = unat (iov_len iov) - unat sz"
    using sz by (simp_all add: iov_def word_le_nat_alt unat_sub)
  have b: "unat (iov_base iov) + unat (iov_len iov) \<le> 2 ^ 32"
    using wf i unfolding uio_wf_def iov_def by (metis Cons_nth_drop_Suc list.set_intros(1))
  define rest where "rest = concat (map iov_addrs (drop (uio_iov u + 1) (uio_iovs u)))"
  have u: "uio_addrs u = iov_addrs iov @ rest" using uio_addrs_Cons [OF i] by (simp add: iov_def rest_def)
  have split: "iov_addrs iov = map (\<lambda>j. iov_base iov + of_nat j) [0..<unat sz] @ iov_addrs (iov\<lparr>iov_base := iov_base iov + sz, iov_len := iov_len iov - sz\<rparr>)"
  proof (rule nth_equalityI)
    fix j assume "j < length (iov_addrs iov)"
    moreover have "iov_base iov + of_nat j = iov_base iov + sz + of_nat (j - unat sz)" if "unat sz \<le> j"
      using of_nat_diff [OF that, where 'a = "32 word"] by simp
    ultimately show "iov_addrs iov ! j = (map (\<lambda>j. iov_base iov + of_nat j) [0..<unat sz] @
        iov_addrs (iov\<lparr>iov_base := iov_base iov + sz, iov_len := iov_len iov - sz\<rparr>)) ! j"
      using le by (auto simp: iov_addrs_def nth_append)
  qed (use le in \<open>simp add: iov_addrs_def\<close>)
  have u1: "uio_addrs u1 = iov_addrs (iov\<lparr>iov_base := iov_base iov + sz, iov_len := iov_len iov - sz\<rparr>) @ rest"
    using uio_addrs_Cons [of u1] i by (simp add: u1_def rest_def)
  have l: "unat sz \<le> unat (uio_resid u)" using wf u le(1) by (simp add: uio_wf_def iov_addrs_def)
  have a: "uio_addrs u1 = drop (unat sz) (uio_addrs u)" "take (unat sz) (uio_addrs u) = map (\<lambda>j. iov_base iov + of_nat j) [0..<unat sz]"
    using u u1 split by simp_all
  have "unat (iov_base iov + sz) \<le> unat (iov_base iov) + unat sz" by (simp add: unat_word_ariths)
  then have b1: "unat (iov_base iov + sz) + unat (iov_len iov - sz) \<le> 2 ^ 32" using b le by linarith
  have "drop (uio_iov u1) (uio_iovs u1) = iov\<lparr>iov_base := iov_base iov + sz, iov_len := iov_len iov - sz\<rparr> # drop (uio_iov u + 1) (uio_iovs u)"
    using i by (simp add: u1_def Cons_nth_drop_Suc [symmetric])
  moreover have "set (drop (uio_iov u + 1) (uio_iovs u)) \<subseteq> set (drop (uio_iov u) (uio_iovs u))" by (simp add: set_drop_subset_set_drop)
  moreover have "unat (uio_resid u1) = length (uio_addrs u1)" using wf l a(1) by (simp add: uio_wf_def u1_def unat_sub word_le_nat_alt)
  moreover have "uio_iov u1 + unat (uio_iovcnt u1) = length (uio_iovs u1)" using wf by (simp add: uio_wf_def u1_def)
  ultimately have "uio_wf u1" using wf b1 unfolding uio_wf_def by auto
  moreover have "(ucast sz :: u64) = of_nat (unat sz)" by simp
  ultimately show ?thesis using a l b le wf unfolding advanced_def by (simp add: uio_wf_def) (simp add: u1_def)
qed

lemma uio_pairs_split:
  assumes "advanced u u1 s" and "s \<le> k" "k \<le> length (uio_addrs u)"
  shows "uio_pairs u ptr k = uio_pairs u ptr s \<union> uio_pairs u1 (ptr + of_nat s) (k - s)"
proof -
  have A: "take k (uio_addrs u) = take s (uio_addrs u) @ take (k - s) (uio_addrs u1)"
    using assms take_add [of s "k - s" "uio_addrs u"] by (simp add: advanced_def)
  have "map (\<lambda>j. ptr + of_nat j) [s..<k] = map (\<lambda>j. ptr + of_nat s + of_nat j) [0..<k - s]"
    using assms(2) by (intro nth_equalityI) (simp_all add: add.assoc)
  then have P: "map (\<lambda>j. ptr + of_nat j) [0..<k] = map (\<lambda>j. ptr + of_nat j) [0..<s] @ map (\<lambda>j. ptr + of_nat s + of_nat j) [0..<k - s]"
    using assms(2) upt_add_eq_append [of 0 s "k - s"] by simp
  have l: "length (take s (uio_addrs u)) = s" using assms by simp
  show ?thesis using assms(1) unfolding uio_pairs_def Let_def A P
    by (simp add: advanced_def zip_append l del: length_take)
qed

text \<open>The pairs of one buffer are the pairs of a block.\<close>

lemma uio_pairs_block:
  assumes "take s (uio_addrs u) = map (\<lambda>j. base + of_nat j) [0..<s]"
  shows "uio_pairs u ptr s = (if uio_rw u = UIO_READ then block base ptr {..<s} else block ptr base {..<s})"
proof -
  have "set (zip (map f [0..<s]) (map g [0..<s])) = (\<lambda>j. (f j, g j)) ` {..<s}" for f g :: "nat \<Rightarrow> vaddr_t"
    unfolding zip_map_map by (auto simp: zip_same_conv_map lessThan_atLeast0 image_iff)
  then show ?thesis unfolding uio_pairs_def Let_def assms by (simp add: block_def)
qed

text \<open>The buffers and the block they are moved to or from do not overlap.\<close>

definition uio_apart :: "uio \<Rightarrow> vaddr_t \<Rightarrow> nat \<Rightarrow> bool" where
  "uio_apart u ptr k \<longleftrightarrow> distinct (take k (uio_addrs u)) \<and> set (take k (uio_addrs u)) \<inter> span ptr k = {} \<and> unat ptr + k \<le> 2 ^ 32"

lemma uio_pairs_sets:
  assumes "k \<le> length (uio_addrs u)"
  shows "fst ` uio_pairs u ptr k = (if uio_rw u = UIO_READ then set (take k (uio_addrs u)) else span ptr k)"
    "snd ` uio_pairs u ptr k = (if uio_rw u = UIO_READ then span ptr k else set (take k (uio_addrs u)))"
proof -
  have z: "fst ` set (zip xs ys) = set xs" "snd ` set (zip xs ys) = set ys" if "length xs = length ys" for xs ys :: "vaddr_t list"
    using that by (simp_all flip: set_map)
  have "set (map (\<lambda>j. ptr + of_nat j) [0..<k]) = span ptr k" by (simp add: span_def lessThan_atLeast0)
  then show "fst ` uio_pairs u ptr k = (if uio_rw u = UIO_READ then set (take k (uio_addrs u)) else span ptr k)"
    "snd ` uio_pairs u ptr k = (if uio_rw u = UIO_READ then span ptr k else set (take k (uio_addrs u)))"
    unfolding uio_pairs_def Let_def using assms z by simp_all
qed

lemma span_split:
  assumes "s \<le> k" and "unat ptr + k \<le> 2 ^ 32"
  shows "span ptr k = span ptr s \<union> span (ptr + of_nat s) (k - s)" "span ptr s \<inter> span (ptr + of_nat s) (k - s) = {}"
proof -
  have e: "span (ptr + of_nat s) (k - s) = (\<lambda>j. ptr + of_nat j) ` {s..<k}"
  proof -
    have "{s..<k} = (\<lambda>j. s + j) ` {..<k - s}" using assms(1) unfolding lessThan_atLeast0 by simp
    then show ?thesis unfolding span_def by (simp add: image_image add.assoc)
  qed
  have "{..<k} = {..<s} \<union> {s..<k}" using assms(1) by auto
  then show "span ptr k = span ptr s \<union> span (ptr + of_nat s) (k - s)" unfolding e by (simp add: span_def image_Un)
  show "span ptr s \<inter> span (ptr + of_nat s) (k - s) = {}" unfolding e unfolding span_def
    using assms by (intro images_disjoint [OF assms(2,2)]) auto
qed

lemma uio_apart_split:
  assumes adv: "advanced u u1 s" and s: "s \<le> k" "k \<le> length (uio_addrs u)" and ap: "uio_apart u ptr k"
  shows "uio_apart u1 (ptr + of_nat s) (k - s)"
    "fst ` uio_pairs u ptr s \<inter> fst ` uio_pairs u1 (ptr + of_nat s) (k - s) = {}"
    "fst ` uio_pairs u ptr s \<inter> snd ` uio_pairs u1 (ptr + of_nat s) (k - s) = {}"
proof -
  have A: "take k (uio_addrs u) = take s (uio_addrs u) @ take (k - s) (uio_addrs u1)" and rw: "uio_rw u1 = uio_rw u"
    using adv s take_add [of s "k - s" "uio_addrs u"] by (simp_all add: advanced_def)
  have l: "k - s \<le> length (uio_addrs u1)" using adv s by (simp add: advanced_def)
  have ptr: "unat ptr + k \<le> 2 ^ 32" using ap by (simp add: uio_apart_def)
  note sp = span_split [OF s(1) ptr]
  have d: "distinct (take s (uio_addrs u) @ take (k - s) (uio_addrs u1))"
    "set (take s (uio_addrs u) @ take (k - s) (uio_addrs u1)) \<inter> (span ptr s \<union> span (ptr + of_nat s) (k - s)) = {}"
    using ap unfolding uio_apart_def A sp(1) by blast+
  show "fst ` uio_pairs u ptr s \<inter> fst ` uio_pairs u1 (ptr + of_nat s) (k - s) = {}"
    "fst ` uio_pairs u ptr s \<inter> snd ` uio_pairs u1 (ptr + of_nat s) (k - s) = {}"
    using d sp(2) s unfolding uio_pairs_sets [OF l] uio_pairs_sets [OF order_trans [OF s(1,2)]] rw by auto
  have "unat (ptr + of_nat s) + (k - s) \<le> 2 ^ 32"
    using ptr s(1) unat_add_of_nat [of ptr s] unat32_less [of "ptr + of_nat s"] by (cases "k = s") simp_all
  then show "uio_apart u1 (ptr + of_nat s) (k - s)" using d ptr s(1) unfolding uio_apart_def by auto
qed

text \<open>One round of the loop: past an empty buffer, or a transfer.\<close>

lemma uiomove_loop_round:
  assumes wf: "uio_wf u" and more: "0 < n" "0 < uio_resid u"
  obtains (skip) u1 where "advanced u u1 0" "uiomove_loop acc ptr n u m = uiomove_loop acc ptr n u1 m"
      "length (uio_iovs u1) - uio_iov u1 < length (uio_iovs u) - uio_iov u"
  | (transfer) sz base u1 where "0 < sz" "sz \<le> n" "unat sz \<le> length (uio_addrs u)" "unat base + unat sz \<le> 2 ^ 32"
      "take (unat sz) (uio_addrs u) = map (\<lambda>j. base + of_nat j) [0..<unat sz]"
      "advanced u u1 (unat sz)" "length (uio_iovs u1) - uio_iov u1 = length (uio_iovs u) - uio_iov u"
      "uiomove_loop acc ptr n u m = kbind (uio_transfer acc ptr sz base u m) (\<lambda>(result, m1).
        if result \<noteq> 0 then Inr (result, u, m1) else uiomove_loop acc (ptr + sz) (n - sz) u1 m1)"
proof -
  have i: "uio_iov u < length (uio_iovs u)" by (rule uio_has_buffer [OF wf more(2)])
  define iov where "iov = uio_iovs u ! uio_iov u"
  define sz where "sz = (if iov_len iov > n then n else iov_len iov)"
  show thesis
  proof (cases "sz = 0")
    case True
    define u1 where "u1 = u\<lparr>uio_iov := uio_iov u + 1, uio_iovcnt := uio_iovcnt u - 1\<rparr>"
    have "iov_len (uio_iovs u ! uio_iov u) = 0" using True more by (auto simp: sz_def iov_def split: if_splits)
    then have u1: "advanced u u1 0" "uio_iovcnt u1 \<noteq> 0" using uio_skip [OF wf more(2)] unfolding u1_def by blast+
    have "uiomove_loop acc ptr n u m = uiomove_loop acc ptr n u1 m"
      using more i True u1(2) unfolding sz_def iov_def u1_def uiomove_loop.simps [of acc ptr n u m] Let_def by simp
    then show thesis using skip [OF u1(1)] i by (simp add: u1_def)
  next
    case False
    define iov1 where "iov1 = iov\<lparr>iov_base := iov_base iov + sz, iov_len := iov_len iov - sz\<rparr>"
    define u1 where "u1 = u\<lparr>uio_iovs := (uio_iovs u)[uio_iov u := iov1], uio_resid := uio_resid u - sz, uio_offset := uio_offset u + ucast sz\<rparr>"
    have "sz \<le> iov_len iov" "sz \<le> n" "0 < sz" using False by (auto simp: sz_def word_gt_0)
    then have u1: "advanced u u1 (unat sz)" "take (unat sz) (uio_addrs u) = map (\<lambda>j. iov_base iov + of_nat j) [0..<unat sz]"
      "unat sz \<le> length (uio_addrs u)" "unat (iov_base iov) + unat sz \<le> 2 ^ 32"
      using uio_advance [OF wf i, of sz] unfolding u1_def iov1_def iov_def by auto
    have "uiomove_loop acc ptr n u m = kbind (uio_transfer acc ptr sz (iov_base iov) u m) (\<lambda>(result, m1).
        if result \<noteq> 0 then Inr (result, u, m1) else uiomove_loop acc (ptr + sz) (n - sz) u1 m1)"
      using more i False unfolding u1_def iov1_def sz_def iov_def uiomove_loop.simps [of acc ptr n u m] Let_def
      by simp
    then show thesis using transfer [OF \<open>0 < sz\<close> \<open>sz \<le> n\<close> u1(3,4,2,1)] by (simp add: u1_def)
  qed
qed

section \<open>Moving the bytes\<close>

context user_pages
begin

lemma uio_transfer_ok:
  assumes good: "good (umem m)" "\<not> tm_badfaultfunc m" and ptr: "USERSPACETOP \<le> ptr" "unat ptr + unat sz \<le> 2 ^ 32"
    and base: "unat base + unat sz \<le> 2 ^ 32" and rw: "uio_rw u = UIO_READ \<or> uio_rw u = UIO_WRITE"
    and take: "take (unat sz) (uio_addrs u) = map (\<lambda>j. base + of_nat j) [0..<unat sz]"
    and run: "uio_transfer acc ptr sz base u m = Inr (r, m')"
  shows "good (umem m') \<and> \<not> tm_badfaultfunc m' \<and>
    (r = 0 \<and> moved (bytes m) (bytes m') (uio_pairs u ptr (unat sz)) \<or>
     r = EFAULT \<and> keeps (bytes m) (bytes m') (fst ` uio_pairs u ptr (unat sz)))"
proof -
  note pairs = uio_pairs_block [OF take, of ptr]
  have span: "fst ` block d s {..<n} = span d n" for d s n by (simp add: block_fst span_def)
  consider "uio_segflg u = UIO_SYSSPACE" | "uio_segflg u \<noteq> UIO_SYSSPACE" by blast
  then show ?thesis
  proof cases
    case 1
    then show ?thesis using run memmove_ok [OF good(1) base ptr(2)] memmove_ok [OF good(1) ptr(2) base] good(2) rw
      by (cases "uio_rw u = UIO_READ") (auto simp: uio_transfer_def pairs split: if_splits)
  next
    case 2
    then have c: "if uio_rw u = UIO_READ then copyout acc ptr base sz m = Inr (r, m') else copyin acc base ptr sz m = Inr (r, m')"
      using run by (auto simp: uio_transfer_def split: if_splits)
    show ?thesis
    proof (cases "uio_rw u = UIO_READ")
      case True
      from copyout_ok [OF good ptr, of base r m'] show ?thesis using c True by (auto simp: pairs span)
    next
      case False
      from copyin_ok [OF good ptr, of base r m'] show ?thesis using c False by (auto simp: pairs span)
    qed
  qed
qed

lemma uiomove_loop_ok:
  assumes "good (umem m)" "\<not> tm_badfaultfunc m" and "uio_wf u" and "uio_rw u = UIO_READ \<or> uio_rw u = UIO_WRITE"
    and "k = min (unat n) (unat (uio_resid u))" and "0 < k \<longrightarrow> USERSPACETOP \<le> ptr" and "uio_apart u ptr k"
    and "uiomove_loop acc ptr n u m = Inr (r, u', m')"
  shows "good (umem m') \<and> \<not> tm_badfaultfunc m' \<and>
    (\<exists>j \<le> k. advanced u u' j \<and>
      (r = 0 \<and> j = k \<and> moved (bytes m) (bytes m') (uio_pairs u ptr k) \<or>
       r = EFAULT \<and> keeps (bytes m) (bytes m') (fst ` uio_pairs u ptr k)))"
  using assms
proof (induction "unat n + (length (uio_iovs u) - uio_iov u)" arbitrary: ptr n u m k rule: less_induct)
  case less
  note good = less.prems(1,2) and wf = less.prems(3) and rw = less.prems(4) and k = less.prems(5) and run = less.prems(8)
  show ?case
  proof (cases "0 < n \<and> 0 < uio_resid u")
    case False
    then have "k = 0" "r = 0" "u' = u" "m' = m" using run k by (auto simp: uiomove_loop.simps [of acc ptr n u m] word_gt_0)
    then show ?thesis using good advanced_0 [OF wf] by (auto simp: uio_pairs_def moved_empty)
  next
    case True
    then have "0 < n" "0 < uio_resid u" by simp_all
    from wf this show ?thesis
    proof (cases rule: uiomove_loop_round [where acc = acc and ptr = ptr and m = m])
      case (skip u1)
      have run1: "uiomove_loop acc ptr n u1 m = Inr (r, u', m')" using run skip(2) by simp
      have u1: "uio_wf u1" "uio_rw u1 = uio_rw u" "uio_resid u1 = uio_resid u" "uio_apart u1 ptr k" "uio_pairs u1 ptr k = uio_pairs u ptr k"
        using skip(1) less.prems(7) by (auto simp: advanced_def uio_apart_def uio_pairs_def)
      have IH: "good (umem m') \<and> \<not> tm_badfaultfunc m' \<and> (\<exists>j \<le> k. advanced u1 u' j \<and>
        (r = 0 \<and> j = k \<and> moved (bytes m) (bytes m') (uio_pairs u ptr k) \<or> r = EFAULT \<and> keeps (bytes m) (bytes m') (fst ` uio_pairs u ptr k)))"
        using less.hyps [OF _ good u1(1) _ _ less.prems(6) u1(4) run1] rw k skip(3) unfolding u1(2,3,5) by simp
      then show ?thesis using advanced_trans [OF skip(1)] by auto
    next
      case (transfer sz base u1)
      let ?s = "unat sz"
      obtain res m1 where run1: "uio_transfer acc ptr sz base u m = Inr (res, m1)"
        "if res \<noteq> 0 then r = res \<and> u' = u \<and> m' = m1 else uiomove_loop acc (ptr + sz) (n - sz) u1 m1 = Inr (r, u', m')"
        using run unfolding transfer(8) by (auto split: if_splits)
      have s: "0 < ?s" "?s \<le> k" "k \<le> length (uio_addrs u)" "k - ?s = min (unat (n - sz)) (unat (uio_resid u1))"
        using transfer(1-3,6) k wf
        by (auto simp: unat_gt_0 word_gt_0 word_le_nat_alt uio_wf_def advanced_def unat_sub)
      note sp = uio_apart_split [OF transfer(6) s(2,3) less.prems(7)] uio_pairs_split [OF transfer(6) s(2,3), of ptr]
      have ptr: "USERSPACETOP \<le> ptr" "unat ptr + k \<le> 2 ^ 32" using s less.prems(6,7) by (auto simp: uio_apart_def)
      have tr: "good (umem m1)" "\<not> tm_badfaultfunc m1" "res = 0 \<and> moved (bytes m) (bytes m1) (uio_pairs u ptr ?s) \<or>
          res = EFAULT \<and> keeps (bytes m) (bytes m1) (fst ` uio_pairs u ptr ?s)"
        using uio_transfer_ok [OF good ptr(1) _ transfer(4) rw transfer(5) run1(1)] ptr(2) s(2) by auto
      show ?thesis
      proof (cases "res = 0")
        case False
        then have "r = EFAULT" "u' = u" "m' = m1" and kp: "keeps (bytes m) (bytes m1) (fst ` uio_pairs u ptr ?s)" using run1(2) tr(3) by auto
        then show ?thesis using tr(1,2) advanced_0 [OF wf] keeps_mono [OF kp] unfolding sp(4) image_Un by auto
      next
        case True
        then have run1: "uiomove_loop acc (ptr + sz) (n - sz) u1 m1 = Inr (r, u', m')" and mv: "moved (bytes m) (bytes m1) (uio_pairs u ptr ?s)"
          using run1(2) tr(3) by auto
        have "unat (n - sz) < unat n" using s(1) transfer(2) by (simp add: unat_sub word_le_nat_alt)
        then have dec: "unat (n - sz) + (length (uio_iovs u1) - uio_iov u1) < unat n + (length (uio_iovs u) - uio_iov u)" using transfer(7) by simp
        have u1: "uio_wf u1" "uio_rw u1 = UIO_READ \<or> uio_rw u1 = UIO_WRITE" using transfer(6) rw by (auto simp: advanced_def)
        have "0 < k - ?s \<longrightarrow> USERSPACETOP \<le> ptr + sz" using kernel_addresses [OF ptr, of ?s] by auto
        from less.hyps [OF dec tr(1,2) u1 s(4) this _ run1] sp(1)
        obtain j where IH: "good (umem m')" "\<not> tm_badfaultfunc m'" "j \<le> k - ?s" "advanced u1 u' j"
          "r = 0 \<and> j = k - ?s \<and> moved (bytes m1) (bytes m') (uio_pairs u1 (ptr + sz) (k - ?s)) \<or>
           r = EFAULT \<and> keeps (bytes m1) (bytes m') (fst ` uio_pairs u1 (ptr + sz) (k - ?s))" by auto
        have "r = 0 \<and> ?s + j = k \<and> moved (bytes m) (bytes m') (uio_pairs u ptr k) \<or>
            r = EFAULT \<and> keeps (bytes m) (bytes m') (fst ` uio_pairs u ptr k)"
          using IH(5) moved_trans [OF mv _ sp(2,3)] keeps_trans [OF moved_keeps [OF mv]] s(2) unfolding sp(4) image_Un by auto
        moreover have "?s + j \<le> k" using IH(3) s(2) by simp
        ultimately show ?thesis using IH(1,2) advanced_trans [OF transfer(6) IH(4)] by blast
      qed
    qed
  qed
qed

text \<open>The whole function: the checks have passed when it returns.\<close>

lemma uiomove_ok:
  assumes good: "good (umem m)" "\<not> tm_badfaultfunc m" and wf: "uio_wf u" and k: "k = min (unat n) (unat (uio_resid u))"
    and ptr: "0 < k \<longrightarrow> USERSPACETOP \<le> ptr" "uio_apart u ptr k" and run: "uiomove acc getas ptr n u m = Inr (r, u', m')"
  shows "good (umem m') \<and> \<not> tm_badfaultfunc m' \<and>
    (\<exists>j \<le> k. advanced u u' j \<and>
      (r = 0 \<and> j = k \<and> moved (bytes m) (bytes m') (uio_pairs u ptr k) \<or>
       r = EFAULT \<and> keeps (bytes m) (bytes m') (fst ` uio_pairs u ptr k)))"
proof -
  have "uio_rw u = UIO_READ \<or> uio_rw u = UIO_WRITE" "uiomove_loop acc ptr n u m = Inr (r, u', m')"
    using run by (auto simp: uiomove_def split: if_splits)
  then show ?thesis by (intro uiomove_loop_ok [OF good wf _ k ptr])
qed

text \<open>Zeros: the bytes of the buffers are 0 afterwards, and the static array still is.\<close>

abbreviation zeros_at :: "vaddr_t \<Rightarrow> 's kmachine \<Rightarrow> bool" where
  "zeros_at zeros m \<equiv> \<forall>j < 16. bytes m (zeros + of_nat j) = Some 0"

lemma moved_zeros:
  assumes mv: "moved (bytes m) (bytes m') (uio_pairs u zeros k)" and z: "zeros_at zeros m" and k: "k \<le> 16" "k \<le> length (uio_addrs u)"
    and rd: "uio_rw u = UIO_READ" and a: "a \<in> set (take k (uio_addrs u))"
  shows "bytes m' a = Some 0"
proof -
  obtain i where i: "i < k" "a = uio_addrs u ! i" using a k(2) by (auto simp: in_set_conv_nth)
  then have "(a, zeros + of_nat i) \<in> uio_pairs u zeros k"
    using k rd by (auto simp: uio_pairs_def set_zip intro: exI [of _ i])
  from movedE [OF mv this] obtain x where "bytes m' a = Some x" "\<And>y. bytes m (zeros + of_nat i) = Some y \<Longrightarrow> y = x" by metis
  then show ?thesis using z i(1) k(1) by auto
qed

lemma uiomovezeros_loop_ok:
  assumes "good (umem m)" "\<not> tm_badfaultfunc m" and "uio_wf u" and "uio_rw u = UIO_READ"
    and zeros: "USERSPACETOP \<le> zeros" "unat zeros + 16 \<le> 2 ^ 32" and "zeros_at zeros m"
    and "K = min (unat n) (unat (uio_resid u))"
    and "distinct (take K (uio_addrs u))" "set (take K (uio_addrs u)) \<inter> span zeros 16 = {}"
    and "uiomovezeros_loop acc getas zeros n u m = Inr (0, u', m')"
  shows "good (umem m') \<and> \<not> tm_badfaultfunc m' \<and> advanced u u' K \<and> keeps (bytes m) (bytes m') (set (take K (uio_addrs u))) \<and>
    (\<forall>a \<in> set (take K (uio_addrs u)). bytes m' a = Some 0)"
  using assms
proof (induction "unat n" arbitrary: n u m K rule: less_induct)
  case less
  note good = less.prems(1,2) and wf = less.prems(3) and rd = less.prems(4) and z = less.prems(7) and K = less.prems(8) and apart = less.prems(9,10)
  show ?case
  proof (cases "0 < n")
    case False
    then have "n = 0" by (simp add: word_gt_0)
    then show ?thesis using less.prems(11) K good advanced_0 [OF wf] by (simp add: uiomovezeros_loop.simps [of acc getas zeros 0])
  next
    case True
    define amt where "amt = (if 16 > n then n else 16)"
    define k where "k = min (unat amt) (unat (uio_resid u))"
    have amt: "0 < amt" "amt \<le> n" "unat amt \<le> 16" using True by (auto simp: amt_def word_less_nat_alt word_le_nat_alt)
    have k: "k \<le> 16" "k \<le> K" "k \<le> length (uio_addrs u)" "K \<le> length (uio_addrs u)"
      using amt K wf by (auto simp: k_def word_le_nat_alt uio_wf_def)
    obtain u1 m1 where mv: "uiomove acc getas zeros amt u m = Inr (0, u1, m1)"
      and run1: "uiomovezeros_loop acc getas zeros (n - amt) u1 m1 = Inr (0, u', m')"
      using less.prems(11) True by (auto simp: uiomovezeros_loop.simps [of acc getas zeros n u m] Let_def simp flip: amt_def split: if_splits)
    have "set (take k (uio_addrs u)) \<subseteq> set (take K (uio_addrs u))" using k(2) by (rule set_take_subset_set_take)
    moreover have "span zeros k \<subseteq> span zeros 16" using k(1) by (auto simp: span_def)
    moreover have "distinct (take k (uio_addrs u))" using apart(1) distinct_take [of "take K (uio_addrs u)" k] k(2) by (simp add: min_absorb1)
    ultimately have ap: "uio_apart u zeros k" using apart(2) k(1) zeros(2) by (auto simp: uio_apart_def)
    from uiomove_ok [OF good wf k_def _ ap mv] zeros(1)
    have m1: "good (umem m1)" "\<not> tm_badfaultfunc m1" "advanced u u1 k" "moved (bytes m) (bytes m1) (uio_pairs u zeros k)" by auto
    have A: "take K (uio_addrs u) = take k (uio_addrs u) @ take (K - k) (uio_addrs u1)"
      using m1(3) k(2) take_add [of k "K - k" "uio_addrs u"] by (simp add: advanced_def)
    have rest: "K - k = min (unat (n - amt)) (unat (uio_resid u1))"
    proof -
      have "unat (n - amt) = unat n - unat amt" "unat amt \<le> unat n" using amt(2) by (simp_all add: unat_sub word_le_nat_alt)
      moreover have "uio_wf u1" "uio_addrs u1 = drop k (uio_addrs u)" using m1(3) by (simp_all add: advanced_def)
      then have "unat (uio_resid u1) = unat (uio_resid u) - k" using wf by (simp add: uio_wf_def)
      ultimately show ?thesis unfolding K k_def by linarith
    qed
    have k1: "keeps (bytes m) (bytes m1) (set (take k (uio_addrs u)))" using moved_keeps [OF m1(4)] uio_pairs_sets(1) [OF k(3)] rd by simp
    have "zeros + of_nat j \<notin> set (take k (uio_addrs u))" if "j < 16" for j
      using apart(2) that unfolding A span_def set_append by blast
    then have "zeros_at zeros m1" using z keepsD [OF k1] by blast
    moreover have "unat (n - amt) < unat n" using amt(1,2) by (simp add: unat_sub word_le_nat_alt word_less_nat_alt)
    moreover have "uio_wf u1" "uio_rw u1 = UIO_READ" using m1(3) rd by (simp_all add: advanced_def)
    ultimately have IH: "good (umem m') \<and> \<not> tm_badfaultfunc m' \<and> advanced u1 u' (K - k) \<and>
        keeps (bytes m1) (bytes m') (set (take (K - k) (uio_addrs u1))) \<and> (\<forall>a \<in> set (take (K - k) (uio_addrs u1)). bytes m' a = Some 0)"
      using apart unfolding A by (intro less.hyps [OF _ m1(1,2) _ _ zeros _ rest _ _ run1]) auto
    have "bytes m' a = Some 0" if "a \<in> set (take k (uio_addrs u))" for a
      using moved_zeros [OF m1(4) z k(1,3) rd that] IH keepsD [of "bytes m1" "bytes m'"] that by (cases "a \<in> set (take (K - k) (uio_addrs u1))") auto
    then show ?thesis using IH advanced_trans [OF m1(3)] keeps_trans [OF k1] k(2) unfolding A set_append
      by (metis Un_iff le_add_diff_inverse)
  qed
qed

end

section \<open>Moves inside the kernel come back\<close>

definition uio_kernel :: "uio \<Rightarrow> bool" where
  "uio_kernel u \<longleftrightarrow> uio_segflg u = UIO_SYSSPACE \<and> uio_space u = 0 \<and> (uio_rw u = UIO_READ \<or> uio_rw u = UIO_WRITE) \<and>
     (\<forall>a \<in> set (uio_addrs u). USERSPACETOP \<le> a)"

lemma uio_kernel_advanced: "uio_kernel u \<Longrightarrow> advanced u u1 j \<Longrightarrow> uio_kernel u1"
  by (auto simp: uio_kernel_def advanced_def dest: in_set_dropD)

context live_user_pages
begin

lemma uiomove_loop_kernel:
  assumes "uio_wf u" "uio_kernel u" and "unat ptr + min (unat n) (unat (uio_resid u)) \<le> 2 ^ 32"
    and "0 < min (unat n) (unat (uio_resid u)) \<longrightarrow> USERSPACETOP \<le> ptr"
  shows "\<exists>u' m'. uiomove_loop acc ptr n u m = Inr (0, u', m')"
  using assms
proof (induction "unat n + (length (uio_iovs u) - uio_iov u)" arbitrary: ptr n u m rule: less_induct)
  case less
  note wf = less.prems(1) and ker = less.prems(2)
  show ?case
  proof (cases "0 < n \<and> 0 < uio_resid u")
    case False
    then show ?thesis by (subst uiomove_loop.simps) auto
  next
    case True
    then have more: "0 < n" "0 < uio_resid u" by simp_all
    from wf more show ?thesis
    proof (cases rule: uiomove_loop_round [where acc = acc and ptr = ptr and m = m])
      case (skip u1)
      then show ?thesis using less.hyps [of n u1 ptr m] less.prems uio_kernel_advanced [OF ker skip(1)] by (auto simp: advanced_def)
    next
      case (transfer sz base u1)
      let ?k = "min (unat n) (unat (uio_resid u))"
      have s: "0 < unat sz" "unat sz \<le> ?k" "?k - unat sz = min (unat (n - sz)) (unat (uio_resid u1))"
        using transfer(1-3,6) wf by (auto simp: unat_gt_0 word_gt_0 word_le_nat_alt uio_wf_def advanced_def unat_sub)
      have "set (map (\<lambda>j. base + of_nat j) [0..<unat sz]) \<subseteq> set (uio_addrs u)" using transfer(5) set_take_subset by metis
      then have "\<forall>j < unat sz. base + of_nat j \<in> set (uio_addrs u)" by auto
      then have "\<forall>j < unat sz. USERSPACETOP \<le> base + of_nat j" using ker unfolding uio_kernel_def by blast
      moreover have "\<forall>j < unat sz. USERSPACETOP \<le> ptr + of_nat j" 
        using kernel_addresses [of ptr ?k] less.prems(3,4) s by auto
      ultimately have "\<exists>m'. uio_transfer acc ptr sz base u m = Inr (0, m')"
        using memmove_usable [where n = sz and m = m and s = ptr and d = base] memmove_usable [where n = sz and m = m and s = base and d = ptr] ker
        by (auto simp: uio_transfer_def uio_kernel_def)
      moreover have "\<exists>u' m'. uiomove_loop acc (ptr + sz) (n - sz) u1 m1 = Inr (0, u', m')" for m1
      proof (rule less.hyps)
        have "unat (n - sz) < unat n" using s(1) transfer(2) by (simp add: unat_sub word_le_nat_alt)
        then show "unat (n - sz) + (length (uio_iovs u1) - uio_iov u1) < unat n + (length (uio_iovs u) - uio_iov u)" using transfer(7) by simp
        show "uio_wf u1" "uio_kernel u1" using transfer(6) uio_kernel_advanced [OF ker transfer(6)] by (auto simp: advanced_def)
        show "unat (ptr + sz) + min (unat (n - sz)) (unat (uio_resid u1)) \<le> 2 ^ 32"
          unfolding s(3) [symmetric]
        proof (cases "unat sz = ?k")
          case False
          then have lt: "unat ptr + unat sz < 2 ^ 32" using less.prems(3) s(2) by linarith
          show "unat (ptr + sz) + (?k - unat sz) \<le> 2 ^ 32" using unat_add_of_nat [OF lt] less.prems(3) s(2) by simp
        qed (use unat32_less [of "ptr + sz"] in simp)
        show "0 < min (unat (n - sz)) (unat (uio_resid u1)) \<longrightarrow> USERSPACETOP \<le> ptr + sz"
          using less.prems(3,4) s kernel_addresses [of ptr ?k "unat sz"] unfolding s(3) [symmetric] by simp
      qed
      ultimately show ?thesis unfolding transfer(8) by auto
    qed
  qed
qed

lemma uiomove_kernel:
  assumes wf: "uio_wf u" "uio_kernel u" and ptr: "USERSPACETOP \<le> ptr" "unat ptr + min (unat n) (unat (uio_resid u)) \<le> 2 ^ 32"
  shows "\<exists>u' m'. uiomove acc getas ptr n u m = Inr (0, u', m')"
  using uiomove_loop_kernel [OF wf ptr(2)] ptr(1) wf(2) by (auto simp: uiomove_def uio_kernel_def)

end

section \<open>A uio for one block of the kernel\<close>

lemma uio_kinit_addrs: "uio_addrs (uio_kinit kbuf len pos rw) = map (\<lambda>j. kbuf + of_nat j) [0..<unat len]"
  by (simp add: uio_addrs_def uio_kinit_def iov_addrs_def)

lemma uio_kinit_wf:
  assumes "unat kbuf + unat len \<le> 2 ^ 32"
  shows "uio_wf (uio_kinit kbuf len pos rw)"
  unfolding uio_wf_def uio_kinit_addrs using assms by (simp add: uio_kinit_def)

lemma uio_kinit_kernel:
  assumes "USERSPACETOP \<le> kbuf" "unat kbuf + unat len \<le> 2 ^ 32" "rw = UIO_READ \<or> rw = UIO_WRITE"
  shows "uio_kernel (uio_kinit kbuf len pos rw)"
  unfolding uio_kernel_def uio_kinit_addrs using kernel_addresses [OF assms(1,2)] assms(3) by (auto simp: uio_kinit_def)

lemma uio_kinit_apart:
  assumes len: "unat kbuf + unat len \<le> 2 ^ 32" "unat ptr + unat len \<le> 2 ^ 32" and k: "k \<le> unat len"
    and "unat kbuf + unat len \<le> unat ptr \<or> unat ptr + unat len \<le> unat kbuf"
  shows "uio_apart (uio_kinit kbuf len pos rw) ptr k"
proof -
  have "inj_on (\<lambda>j. kbuf + of_nat j) {..<unat len}"
  proof (rule inj_onI)
    fix i j assume ij: "i \<in> {..<unat len}" "j \<in> {..<unat len}" and eq: "kbuf + of_nat i = kbuf + of_nat j"
    have "unat (kbuf + of_nat i) = unat kbuf + i" "unat (kbuf + of_nat j) = unat kbuf + j" using ij len(1) by (simp_all add: unat_add_of_nat)
    then show "i = j" unfolding eq by linarith
  qed
  then have "distinct (map (\<lambda>j. kbuf + of_nat j) [0..<k])"
    using k by (auto simp: distinct_map intro: inj_on_subset)
  moreover have "(\<lambda>j. kbuf + of_nat j) ` {..<k} \<inter> (\<lambda>j. ptr + of_nat j) ` {..<k} = {}"
    using k assms(4) by (intro images_disjoint [OF len]) auto
  moreover have "take k (uio_addrs (uio_kinit kbuf len pos rw)) = map (\<lambda>j. kbuf + of_nat j) [0..<k]"
    unfolding uio_kinit_addrs using k by (simp add: take_map)
  ultimately show ?thesis using k len(2) unfolding uio_apart_def by (simp add: span_def lessThan_atLeast0)
qed

end
