(* ===== verification/CopyProperties.thy ===== *)
theory CopyProperties
  imports Uio VmProperties
begin


section \<open>A machine for the instances\<close>








section \<open>Blocks\<close>





text \<open>
  C31: which blocks the check of user addresses accepts. A block of at least one byte is accepted when it
  begins in user space and does not wrap around the address space, and then its length is cut at the end
  of user space, never beyond. A block of no bytes is refused, except at address 0.
\<close>

theorem copycheck_bounds:
  "copycheck p n =
     (if n = 0 then (if p = 0 then (0, USERSPACETOP) else (EFAULT, 0))
      else if p < USERSPACETOP \<and> unat p + unat n \<le> 2 ^ 32
      then (0, if unat p + unat n \<le> 2 ^ 31 then n else USERSPACETOP - p)
      else (EFAULT, n)) \<and>
   (fst (copycheck p n) = 0 \<longrightarrow> unat p + min (unat n) (unat (snd (copycheck p n))) \<le> 2 ^ 31)"
  using copycheck_stop(1) [of p n "snd (copycheck p n)"] by (cases "copycheck p n") (auto simp: copycheck_cases [symmetric])

theorem copycheck_bounds_witness:
  "copycheck 0x7ffffff0 32 = (0, 16) \<and> copycheck 0x400000 0 = (EFAULT, 0) \<and> copycheck 0xfffffff0 32 = (EFAULT, 32)"
  using copycheck_bounds [of "0x7ffffff0" 32] copycheck_bounds [of "0x400000" 0] copycheck_bounds [of "0xfffffff0" 32] by simp

section \<open>Strings\<close>



section \<open>Blocks inside the kernel\<close>



section \<open>Moves through a uio\<close>










end
