(* ===== verification/Spec2Isabelle.thy ===== *)
theory Spec2Isabelle
  imports VmProperties FrameProperties LibProperties LongProperties CopyProperties
begin

text \<open>
  A verification development for the OS/161 kernel with demand paging.
\<close>

end
